(* ===== verification/Clh_Prelude.thy ===== *)
theory Clh_Prelude
  imports Main "HOL-Library.Word"
begin

unbundle bit_operations_syntax

text \<open>
  Shared vocabulary of the development: the C integer types of clh_defs.h, the outcomes a C
  function may have besides returning (faults), sequencing of computations that may fault, and
  the mutex word that the lock regions of thread.h take and give back.
\<close>

section \<open>Integer types (clh_defs.h)\<close>

type_synonym clh_u8 = "8 word"
type_synonym clh_u32 = "32 word"
type_synonym clh_u64 = "64 word"

text \<open>A signed 32-bit value is the same 32 bits read with \<^const>\<open>sint\<close>.\<close>

type_synonym clh_i32 = "32 word"

text \<open>Addresses of user memory and opaque handles are 64-bit values, with 0 for NULL.\<close>

type_synonym mem_addr = clh_u64
type_synonym ucp_mem_h = clh_u64
type_synonym ucp_tag_message_h = clh_u64

section \<open>Faults\<close>

text \<open>
  What the execution of a C function can do instead of returning: abort in \<open>assert\<close>, read
  through a bad pointer or index, read memory nobody wrote, block for ever on a mutex it already
  holds, release a mutex nobody holds, or run a loop that does not end.
\<close>

datatype fault =
    Null_Deref
  | Dangling
  | Out_Of_Bounds
  | Uninitialised
  | Wrong_Union_Arm
  | Assert_Failed
  | Deadlock
  | Unlock_Not_Held
  | Mutex_Busy
  | Diverges

type_synonym 'a res = "fault + 'a"

fun ebind :: "'a res \<Rightarrow> ('a \<Rightarrow> 'b res) \<Rightarrow> 'b res" where
  "ebind (Inl e) f = Inl e"
| "ebind (Inr x) f = f x"

definition c_assert :: "bool \<Rightarrow> unit res" where
  "c_assert b = (if b then Inr () else Inl Assert_Failed)"

text \<open>Reading the target of a pointer that may be NULL.\<close>

fun deref :: "'p option \<Rightarrow> 'p res" where
  "deref None = Inl Null_Deref"
| "deref (Some p) = Inr p"

text \<open>A value that memory may not hold yet.\<close>

fun initialised :: "'a option \<Rightarrow> 'a res" where
  "initialised None = Inl Uninitialised"
| "initialised (Some x) = Inr x"

definition nth_res :: "'a list \<Rightarrow> nat \<Rightarrow> 'a res" where
  "nth_res xs i = (if i < length xs then Inr (xs ! i) else Inl Out_Of_Bounds)"

definition update_res :: "'a list \<Rightarrow> nat \<Rightarrow> 'a \<Rightarrow> 'a list res" where
  "update_res xs i x = (if i < length xs then Inr (xs[i := x]) else Inl Out_Of_Bounds)"

named_theorems res_simps \<open>rewriting of computations that may fault\<close>

lemma ebind_Inr_iff [res_simps]:
  "ebind m f = Inr y \<longleftrightarrow> (\<exists>x. m = Inr x \<and> f x = Inr y)"
  by (cases m) auto

lemma ebind_Inl_iff:
  "ebind m f = Inl e \<longleftrightarrow> m = Inl e \<or> (\<exists>x. m = Inr x \<and> f x = Inl e)"
  by (cases m) auto

lemma ebind_assoc: "ebind (ebind m f) g = ebind m (\<lambda>x. ebind (f x) g)"
  by (cases m) auto

lemma ebind_cong [fundef_cong]:
  "m = m' \<Longrightarrow> (\<And>x. m' = Inr x \<Longrightarrow> f x = f' x) \<Longrightarrow> ebind m f = ebind m' f'"
  by (cases m') auto

lemma ebind_case_prod:
  "ebind m (\<lambda>x. case x of (a, b) \<Rightarrow> f a b) = ebind m (\<lambda>x. f (fst x) (snd x))"
  by (simp add: case_prod_beta)

lemma c_assert_simps [simp]:
  "c_assert True = Inr ()"
  "c_assert False = Inl Assert_Failed"
  by (simp_all add: c_assert_def)

lemma c_assert_Inr [res_simps]: "c_assert b = Inr u \<longleftrightarrow> b"
  by (simp add: c_assert_def)

lemma deref_Inr [res_simps]: "deref p = Inr a \<longleftrightarrow> p = Some a"
  by (cases p) auto

lemma initialised_Inr [res_simps]: "initialised v = Inr x \<longleftrightarrow> v = Some x"
  by (cases v) auto

lemma nth_res_Inr [res_simps]: "nth_res xs i = Inr x \<longleftrightarrow> i < length xs \<and> x = xs ! i"
  by (auto simp: nth_res_def)

lemma update_res_Inr [res_simps]:
  "update_res xs i x = Inr ys \<longleftrightarrow> i < length xs \<and> ys = xs[i := x]"
  by (auto simp: update_res_def)

lemma nth_res_in [simp]: "i < length xs \<Longrightarrow> nth_res xs i = Inr (xs ! i)"
  by (simp add: nth_res_def)

lemma update_res_in [simp]: "i < length xs \<Longrightarrow> update_res xs i x = Inr (xs[i := x])"
  by (simp add: update_res_def)

section \<open>The mutex word (thread.h)\<close>

text \<open>
  A mutex is held or free. Within one thread, locking a held default mutex blocks for ever and
  unlocking a free one is undefined; both are faults here. \<open>CLH_LOCK_REGION\<close> is
  \<^term>\<open>clh_lock_region_init\<close>, the body, \<^term>\<open>clh_lock_region_end\<close>; a \<open>return\<close> inside the body leaves
  the function without the latter.
\<close>

type_synonym clh_mutex = bool

definition clh_mutex_create :: clh_mutex where
  "clh_mutex_create = False"

definition clh_mutex_lock :: "clh_mutex \<Rightarrow> clh_mutex res" where
  "clh_mutex_lock m = (if m then Inl Deadlock else Inr True)"

definition clh_mutex_unlock :: "clh_mutex \<Rightarrow> clh_mutex res" where
  "clh_mutex_unlock m = (if m then Inr False else Inl Unlock_Not_Held)"

text \<open>Destroying a mutex that is held is undefined.\<close>

definition clh_mutex_destroy :: "clh_mutex \<Rightarrow> unit res" where
  "clh_mutex_destroy m = (if m then Inl Mutex_Busy else Inr ())"

definition clh_lock_region_init :: "clh_mutex \<Rightarrow> clh_mutex res" where
  "clh_lock_region_init m = clh_mutex_lock m"

definition clh_lock_region_end :: "clh_mutex \<Rightarrow> clh_mutex res" where
  "clh_lock_region_end m = clh_mutex_unlock m"

lemma lock_region_simps [simp]:
  "clh_lock_region_init False = Inr True"
  "clh_lock_region_init True = Inl Deadlock"
  "clh_lock_region_end True = Inr False"
  "clh_lock_region_end False = Inl Unlock_Not_Held"
  "clh_mutex_destroy False = Inr ()"
  by (simp_all add: clh_lock_region_init_def clh_lock_region_end_def
      clh_mutex_lock_def clh_mutex_unlock_def clh_mutex_destroy_def)

section \<open>List facts\<close>

lemma last_option_snoc: "xs \<noteq> [] \<Longrightarrow> butlast xs @ [last xs] = xs"
  by simp

lemma distinct_mid:
  "distinct (as @ x # bs) \<longleftrightarrow> distinct (as @ bs) \<and> x \<notin> set as \<and> x \<notin> set bs"
  by auto

end
