(* ===== verification/Clh_Interfaces.thy ===== *)
theory Clh_Interfaces
  imports Clh_Prelude
begin

text \<open>
  The contracts the components rely on, as locales, with what a client can conclude from each:
  a queue of nodes, a registry of handles, a codec with its fields, a system that keeps an
  invariant and its obligations, and threads that do not interfere. The theories of the components interpret them on the model.
\<close>

section \<open>Queues of nodes\<close>

fun push_all :: "('s \<Rightarrow> 'n \<Rightarrow> 's res) \<Rightarrow> 's \<Rightarrow> 'n list \<Rightarrow> 's res" where
  "push_all push s [] = Inr s"
| "push_all push s (n # ns) = ebind (push s n) (\<lambda>s. push_all push s ns)"

text \<open>Popping until nothing is left, with what came out in order.\<close>

fun pop_all :: "('s \<Rightarrow> ('s \<times> 'n option) res) \<Rightarrow> nat \<Rightarrow> 's \<Rightarrow> ('s \<times> 'n list) res" where
  "pop_all pop 0 s = Inl Diverges"
| "pop_all pop (Suc k) s =
     ebind (pop s) (\<lambda>(s, n).
     case n of None \<Rightarrow> Inr (s, [])
     | Some n \<Rightarrow> ebind (pop_all pop k s) (\<lambda>(s, ns). Inr (s, n # ns)))"

text \<open>
  \<open>inv s xs fs\<close>: the queue holds \<open>xs\<close> and its free list \<open>fs\<close>; a usable node is one that exists.
\<close>

locale node_queue =
  fixes inv :: "'s \<Rightarrow> 'n list \<Rightarrow> 'n list \<Rightarrow> bool"
    and usable :: "'s \<Rightarrow> 'n \<Rightarrow> bool"
    and push :: "'s \<Rightarrow> 'n \<Rightarrow> 's res"
    and pop :: "'s \<Rightarrow> ('s \<times> 'n option) res"
  assumes push: "inv s xs fs \<Longrightarrow> usable s n \<Longrightarrow> n \<notin> set xs \<union> set fs \<Longrightarrow>
      \<exists>s'. push s n = Inr s' \<and> inv s' (xs @ [n]) fs \<and> usable s' = usable s"
    and pop_empty: "inv s [] fs \<Longrightarrow> pop s = Inr (s, None)"
    and pop: "inv s (xs @ [n]) fs \<Longrightarrow>
      \<exists>s'. pop s = Inr (s', Some n) \<and> inv s' xs fs \<and> usable s' = usable s"
begin

lemma push_all_inv:
  "inv s xs fs \<Longrightarrow> distinct ns \<Longrightarrow> (\<forall>n \<in> set ns. usable s n \<and> n \<notin> set xs \<union> set fs) \<Longrightarrow>
     \<exists>s'. push_all push s ns = Inr s' \<and> inv s' (xs @ ns) fs \<and> usable s' = usable s"
proof (induction ns arbitrary: s xs)
  case (Cons n ns)
  from push [OF Cons.prems(1), of n] Cons.prems obtain s1 where
    s1: "push s n = Inr s1" "inv s1 (xs @ [n]) fs" "usable s1 = usable s" by auto
  have "\<forall>m \<in> set ns. usable s1 m \<and> m \<notin> set (xs @ [n]) \<union> set fs" using Cons.prems s1 by auto
  from Cons.IH [OF s1(2) _ this] Cons.prems s1 show ?case by auto
qed simp

lemma pop_all_rev:
  "inv s xs fs \<Longrightarrow> length xs < k \<Longrightarrow> \<exists>s'. pop_all pop k s = Inr (s', rev xs) \<and> inv s' [] fs"
proof (induction k arbitrary: s xs)
  case (Suc k)
  show ?case
  proof (cases xs rule: rev_cases)
    case Nil
    then show ?thesis using pop_empty Suc.prems by auto
  next
    case (snoc ys y)
    with pop [of s ys y fs] Suc.prems obtain s1 where "pop s = Inr (s1, Some y)" "inv s1 ys fs" by auto
    with Suc.IH [of s1 ys] Suc.prems snoc show ?thesis by auto
  qed
qed simp

text \<open>What went in comes out newest first.\<close>

lemma push_all_pop_all:
  assumes "inv s [] fs" and "distinct ns" and "\<forall>n \<in> set ns. usable s n \<and> n \<notin> set fs"
  shows "\<exists>s'. ebind (push_all push s ns) (pop_all pop (Suc (length ns))) = Inr (s', rev ns) \<and>
           inv s' [] fs"
  using push_all_inv [OF assms(1,2)] assms(3) pop_all_rev [of _ ns fs "Suc (length ns)"] by fastforce

end

section \<open>Registries\<close>

text \<open>Asking for a sequence of keys, each with an argument of its own.\<close>

fun get_all ::
  "('s \<Rightarrow> 'w \<Rightarrow> 'k \<Rightarrow> 'a \<Rightarrow> ('s \<times> 'w \<times> 'h) res) \<Rightarrow> 's \<Rightarrow> 'w \<Rightarrow> ('k \<times> 'a) list \<Rightarrow>
     ('s \<times> 'w \<times> 'h list) res" where
  "get_all get s w [] = Inr (s, w, [])"
| "get_all get s w ((k, a) # ks) =
     ebind (get s w k a) (\<lambda>(s, w, h).
     ebind (get_all get s w ks) (\<lambda>(s, w, hs). Inr (s, w, h # hs)))"

locale registry =
  fixes inv :: "'s \<Rightarrow> bool"
    and lookup :: "'s \<Rightarrow> 'k \<Rightarrow> 'h option"
    and valid :: "'k \<Rightarrow> bool"
    and get :: "'s \<Rightarrow> 'w \<Rightarrow> 'k \<Rightarrow> 'a \<Rightarrow> ('s \<times> 'w \<times> 'h) res"
  assumes hit: "inv s \<Longrightarrow> valid k \<Longrightarrow> lookup s k = Some h \<Longrightarrow> get s w k a = Inr (s, w, h)"
    and miss: "inv s \<Longrightarrow> valid k \<Longrightarrow> lookup s k = None \<Longrightarrow> get s w k a = Inr (s', w', h) \<Longrightarrow>
      inv s' \<and> lookup s' = (lookup s)(k \<mapsto> h)"
begin

lemma get_inv:
  assumes "inv s" and "valid k" and "get s w k a = Inr (s', w', h)"
  shows "inv s'" and "lookup s \<subseteq>\<^sub>m lookup s'" and "lookup s' k = Some h"
  using assms hit [of s k _ w a] miss [of s k w a s' w' h]
  by (cases "lookup s k"; auto simp: map_le_def)+

text \<open>
  A key keeps its handle whatever else is asked for, so equal keys of a sequence get one handle.
\<close>

lemma get_all_stable:
  assumes "inv s" and "\<forall>p \<in> set ks. valid (fst p)" and "get_all get s w ks = Inr (s', w', hs)"
  shows "inv s' \<and> lookup s \<subseteq>\<^sub>m lookup s' \<and> map (lookup s' \<circ> fst) ks = map Some hs"
  using assms
proof (induction ks arbitrary: s w hs)
  case (Cons p ks)
  obtain k a where p: "p = (k, a)" by (rule prod.exhaust)
  from Cons.prems p obtain s1 w1 h hs1 where
    g: "get s w k a = Inr (s1, w1, h)" and
    rest: "get_all get s1 w1 ks = Inr (s', w', hs1)" and hs: "hs = h # hs1"
    by (auto simp: ebind_Inr_iff)
  have k: "valid k" using Cons.prems p by simp
  note one = get_inv [OF Cons.prems(1) k g]
  have valid: "\<forall>p \<in> set ks. valid (fst p)" using Cons.prems by simp
  note ih = Cons.IH [OF one(1) valid rest]
  then have "lookup s' k = Some h" using one(3) by (metis domI map_le_def)
  then show ?case using ih one(2) p hs map_le_trans by auto
qed simp

end

text \<open>A registry whose entries can be taken out again.\<close>

locale removable_registry = registry inv lookup valid get
  for inv :: "'s \<Rightarrow> bool" and lookup :: "'s \<Rightarrow> 'k \<Rightarrow> 'h option" and valid :: "'k \<Rightarrow> bool"
    and get :: "'s \<Rightarrow> 'w \<Rightarrow> 'k \<Rightarrow> 'a \<Rightarrow> ('s \<times> 'w \<times> 'h) res" +
  fixes drop :: "'s \<Rightarrow> 'w \<Rightarrow> 'k \<Rightarrow> 'a \<Rightarrow> ('s \<times> 'w \<times> bool) res"
  assumes absent: "inv s \<Longrightarrow> lookup s k = None \<Longrightarrow> drop s w k a = Inr (s, w, False)"
    and present: "inv s \<Longrightarrow> lookup s k = Some h \<Longrightarrow>
      \<exists>s' w' ok. drop s w k a = Inr (s', w', ok) \<and> inv s' \<and>
        lookup s' = (if ok then (lookup s)(k := None) else lookup s)"
begin

lemma drop_total:
  assumes "inv s"
  shows "\<exists>s' w' ok. drop s w k a = Inr (s', w', ok) \<and> inv s' \<and>
           lookup s' = (if ok then (lookup s)(k := None) else lookup s) \<and>
           (ok \<longrightarrow> lookup s k \<noteq> None)"
  using absent [OF assms, of k w a] present [OF assms, of k _ w a] assms
  by (cases "lookup s k") fastforce+

text \<open>Registering, removing and registering again: the second handle is what is kept.\<close>

lemma get_drop_get:
  assumes "inv s" and "valid k" and "get s w k a = Inr (s1, w1, h1)"
    and "drop s1 w1 k a = Inr (s2, w2, True)" and "get s2 w2 k a = Inr (s3, w3, h3)"
  shows "lookup s3 = (lookup s)(k \<mapsto> h3)"
proof -
  have inv1: "inv s1" and h1: "lookup s1 k = Some h1" using get_inv [OF assms(1-3)] by simp_all
  have l1: "(lookup s1)(k := None) = (lookup s)(k := None)"
    using hit [OF assms(1,2), of _ w a] miss [OF assms(1,2) _ assms(3)] assms(3)
    by (cases "lookup s k") (auto simp: fun_eq_iff)
  from present [OF inv1 h1, of w1 a] assms(4) have inv2: "inv s2"
    and l2: "lookup s2 = (lookup s1)(k := None)" by auto
  from miss [OF inv2 assms(2) _ assms(5)] l2 show ?thesis using l1 by (simp add: fun_eq_iff)
qed

end

text \<open>
  A registry that is exact: what it answers depends on the lookup alone, on \<open>new\<close>, which makes a
  handle, and on \<open>old\<close>, which gives one up.
\<close>

datatype ('k, 'a) registry_op = Get 'k 'a | Drop 'k 'a

datatype 'h registry_answer = Handle 'h | Dropped bool

fun run_registry ::
  "('s \<Rightarrow> 'w \<Rightarrow> 'k \<Rightarrow> 'a \<Rightarrow> ('s \<times> 'w \<times> 'h) res) \<Rightarrow> ('s \<Rightarrow> 'w \<Rightarrow> 'k \<Rightarrow> 'a \<Rightarrow> ('s \<times> 'w \<times> bool) res) \<Rightarrow>
     's \<Rightarrow> 'w \<Rightarrow> ('k, 'a) registry_op list \<Rightarrow> ('s \<times> 'w \<times> 'h registry_answer list) res" where
  "run_registry get del s w [] = Inr (s, w, [])"
| "run_registry get del s w (Get k a # ops) =
     ebind (get s w k a) (\<lambda>(s, w, h).
     ebind (run_registry get del s w ops) (\<lambda>(s, w, rs). Inr (s, w, Handle h # rs)))"
| "run_registry get del s w (Drop k a # ops) =
     ebind (del s w k a) (\<lambda>(s, w, ok).
     ebind (run_registry get del s w ops) (\<lambda>(s, w, rs). Inr (s, w, Dropped ok # rs)))"

locale exact_registry =
  fixes inv :: "'s \<Rightarrow> bool" and lookup :: "'s \<Rightarrow> 'k \<Rightarrow> 'h option" and valid :: "'k \<Rightarrow> bool"
    and get :: "'s \<Rightarrow> 'w \<Rightarrow> 'k \<Rightarrow> 'a \<Rightarrow> ('s \<times> 'w \<times> 'h) res"
    and drop :: "'s \<Rightarrow> 'w \<Rightarrow> 'k \<Rightarrow> 'a \<Rightarrow> ('s \<times> 'w \<times> bool) res"
    and new :: "'w \<Rightarrow> 'k \<Rightarrow> 'a \<Rightarrow> ('w \<times> 'h) res" and old :: "'w \<Rightarrow> 'h \<Rightarrow> 'w \<times> bool" and none :: 'h
  assumes get_invalid: "inv s \<Longrightarrow> \<not> valid k \<Longrightarrow> get s w k a = Inr (s, w, none)"
    and get_hit: "inv s \<Longrightarrow> valid k \<Longrightarrow> lookup s k = Some h \<Longrightarrow> get s w k a = Inr (s, w, h)"
    and get_miss: "inv s \<Longrightarrow> valid k \<Longrightarrow> lookup s k = None \<Longrightarrow>
      (case new w k a of Inl e \<Rightarrow> get s w k a = Inl e
       | Inr (w', h) \<Rightarrow> \<exists>s'. get s w k a = Inr (s', w', h) \<and> inv s' \<and> lookup s' = (lookup s)(k \<mapsto> h))"
    and drop_absent: "inv s \<Longrightarrow> lookup s k = None \<Longrightarrow> drop s w k a = Inr (s, w, False)"
    and drop_present: "inv s \<Longrightarrow> lookup s k = Some h \<Longrightarrow>
      \<exists>s'. drop s w k a = Inr (s', old w h) \<and> inv s' \<and>
        lookup s' = (if snd (old w h) then (lookup s)(k := None) else lookup s)"
begin

text \<open>What the operations do to the lookup, and what they answer.\<close>

fun on_map ::
  "('k \<Rightarrow> 'h option) \<Rightarrow> 'w \<Rightarrow> ('k, 'a) registry_op list \<Rightarrow>
     (('k \<Rightarrow> 'h option) \<times> 'w \<times> 'h registry_answer list) res" where
  "on_map m w [] = Inr (m, w, [])"
| "on_map m w (Get k a # ops) =
     ebind (if \<not> valid k then Inr (m, w, none)
            else case m k of Some h \<Rightarrow> Inr (m, w, h)
            | None \<Rightarrow> ebind (new w k a) (\<lambda>(w, h). Inr (m(k \<mapsto> h), w, h)))
       (\<lambda>(m, w, h). ebind (on_map m w ops) (\<lambda>(m, w, rs). Inr (m, w, Handle h # rs)))"
| "on_map m w (Drop k a # ops) =
     ebind (case m k of None \<Rightarrow> Inr (m, w, False)
            | Some h \<Rightarrow> Inr (if snd (old w h) then m(k := None) else m, old w h))
       (\<lambda>(m, w, ok). ebind (on_map m w ops) (\<lambda>(m, w, rs). Inr (m, w, Dropped ok # rs)))"

lemma run_on_map:
  assumes "inv s"
  shows "case on_map (lookup s) w ops of Inl e \<Rightarrow> run_registry get drop s w ops = Inl e
     | Inr (m, w', rs) \<Rightarrow> \<exists>s'. run_registry get drop s w ops = Inr (s', w', rs) \<and> inv s' \<and> lookup s' = m"
  using assms
proof (induction ops arbitrary: s w)
  case (Cons op ops)
  have go_on: "case ebind (on_map (lookup s1) w1 ops) (\<lambda>(m, w, rs). Inr (m, w, x # rs)) of
       Inl e \<Rightarrow> ebind (run_registry get drop s1 w1 ops) (\<lambda>(s, w, rs). Inr (s, w, x # rs)) = Inl e
     | Inr (m, w', rs) \<Rightarrow> \<exists>s'. inv s' \<and> lookup s' = m \<and>
         ebind (run_registry get drop s1 w1 ops) (\<lambda>(s, w, rs). Inr (s, w, x # rs)) = Inr (s', w', rs)"
    if "inv s1" for s1 w1 x
    using Cons.IH [OF that, of w1] by (cases "on_map (lookup s1) w1 ops") auto
  show ?case
  proof (cases op)
    case (Get k a)
    consider "\<not> valid k" | h where "valid k" "lookup s k = Some h" | "valid k" "lookup s k = None" by fastforce
    then show ?thesis
    proof cases
      case 1
      then show ?thesis
        using go_on [OF Cons.prems, of w "Handle none"] Get get_invalid [OF Cons.prems 1]
        by (auto split: sum.splits)
    next
      case (2 h)
      then show ?thesis
        using go_on [OF Cons.prems, of w "Handle h"] Get get_hit [OF Cons.prems 2]
        by (auto split: sum.splits)
    next
      case 3
      show ?thesis
      proof (cases "new w k a")
        case (Inl e)
        then show ?thesis using get_miss [OF Cons.prems 3, of w a] 3 Get by simp
      next
        case (Inr r)
        obtain w1 h where r: "r = (w1, h)" by (rule prod.exhaust)
        from get_miss [OF Cons.prems 3, of w a] Inr r obtain s1 where
          s1: "get s w k a = Inr (s1, w1, h)" "inv s1" "lookup s1 = (lookup s)(k \<mapsto> h)" by auto
        then show ?thesis
          using go_on [OF s1(2), of w1 "Handle h"] Get 3 Inr r by (auto split: sum.splits)
      qed
    qed
  next
    case (Drop k a)
    show ?thesis
    proof (cases "lookup s k")
      case None
      then show ?thesis
        using go_on [OF Cons.prems, of w "Dropped False"] Drop drop_absent [OF Cons.prems None]
        by (auto split: sum.splits)
    next
      case (Some h)
      obtain w1 ok where r: "old w h = (w1, ok)" by (rule prod.exhaust)
      from drop_present [OF Cons.prems Some, of w a] r obtain s1 where
        s1: "drop s w k a = Inr (s1, w1, ok)" "inv s1"
          "lookup s1 = (if ok then (lookup s)(k := None) else lookup s)" by auto
      then show ?thesis
        using go_on [OF s1(2), of w1 "Dropped ok"] Drop Some r by (auto split: sum.splits)
    qed
  qed
qed simp

end

sublocale exact_registry \<subseteq> removable_registry
proof unfold_locales
  fix s s' and k and h and w w' and a
  show "get s w k a = Inr (s, w, h)" if "inv s" "valid k" "lookup s k = Some h"
    using get_hit that by blast
  show "inv s' \<and> lookup s' = (lookup s)(k \<mapsto> h)"
    if "inv s" "valid k" "lookup s k = None" "get s w k a = Inr (s', w', h)"
    using get_miss [OF that(1-3), of w a] that(4) by (auto split: sum.splits)
  show "drop s w k a = Inr (s, w, False)" if "inv s" "lookup s k = None"
    using drop_absent that by blast
  show "\<exists>s' w' ok. drop s w k a = Inr (s', w', ok) \<and> inv s' \<and>
      lookup s' = (if ok then (lookup s)(k := None) else lookup s)" if "inv s" "lookup s k = Some h"
    using drop_present [OF that, of w a] by (metis prod.collapse)
qed

section \<open>Codecs\<close>

locale codec =
  fixes enc :: "'v \<Rightarrow> 't" and dec :: "'t \<Rightarrow> 'v" and ok :: "'v \<Rightarrow> bool"
  assumes dec_ok: "ok (dec t)" and dec_enc: "ok v \<Longrightarrow> dec (enc v) = v" and enc_dec: "enc (dec t) = t"
begin

lemma enc_inj: "ok v \<Longrightarrow> ok v' \<Longrightarrow> enc v = enc v' \<longleftrightarrow> v = v'"
  using dec_enc by metis

lemma bij: "bij_betw dec UNIV {v. ok v}"
  using dec_ok dec_enc enc_dec by (auto simp: bij_betw_def inj_on_def image_def) metis+

end

section \<open>Systems with obligations\<close>

locale invariant_system =
  fixes step :: "'s \<Rightarrow> 's \<Rightarrow> bool" and inv :: "'s \<Rightarrow> bool"
  assumes step_inv: "inv s \<Longrightarrow> step s s' \<Longrightarrow> inv s'"
begin

lemma reach_inv: "step\<^sup>*\<^sup>* s s' \<Longrightarrow> inv s \<Longrightarrow> inv s'"
  by (induction rule: rtranclp_induct) (auto intro: step_inv)

end

text \<open>
  Threads that share a state: each has a condition of its own besides the common invariant; its
  steps keep both, and the steps of the others leave its condition alone.
\<close>

locale interference_free =
  fixes step :: "'a \<Rightarrow> 's \<Rightarrow> 's \<Rightarrow> bool" and inv :: "'s \<Rightarrow> bool" and ok :: "'a \<Rightarrow> 's \<Rightarrow> bool"
  assumes own: "inv s \<Longrightarrow> (\<forall>b. ok b s) \<Longrightarrow> step a s s' \<Longrightarrow> inv s' \<and> ok a s'"
    and others: "inv s \<Longrightarrow> (\<forall>b. ok b s) \<Longrightarrow> step a s s' \<Longrightarrow> b \<noteq> a \<Longrightarrow> ok b s'"

sublocale interference_free \<subseteq>
  together: invariant_system "\<lambda>s s'. \<exists>a. step a s s'" "\<lambda>s. inv s \<and> (\<forall>b. ok b s)"
  using own others by unfold_locales metis

text \<open>
  What the system owes it goes on owing until it is settled; what is settled and not touched
  stays settled.
\<close>

locale obligation_system = invariant_system +
  fixes owes :: "'a \<Rightarrow> 'b \<Rightarrow> bool" and settled :: "'a \<Rightarrow> 'b \<Rightarrow> bool"
  assumes owes_step: "inv s \<Longrightarrow> step s s' \<Longrightarrow> owes s r \<Longrightarrow> owes s' r \<or> settled s' r"
    and settled_step: "inv s \<Longrightarrow> step s s' \<Longrightarrow> settled s r \<Longrightarrow> settled s' r"
begin

lemma reach_owes:
  assumes "step\<^sup>*\<^sup>* s s'" and "inv s" and "owes s r \<or> settled s r"
  shows "owes s' r \<or> settled s' r"
  using assms
proof (induction rule: rtranclp_induct)
  case (step t u)
  then show ?case using owes_step settled_step reach_inv [OF step.hyps(1)] by blast
qed simp

end

end
