(* ===== verification/Clh_Protocol.thy ===== *)
theory Clh_Protocol
  imports Clh_Prelude Clh_Interfaces
begin

text \<open>
  protocol.h and protocol.c: the 64-bit tag that travels with every message. The top 8 bits are
  the channel, the next 24 the rank of the sender, the low 32 the tag the user gave. The theory
  defines both directions, shows on which values they are inverse, what encoding does to values
  that are too wide, and that the masked comparison used for matching compares the three fields.
\<close>

section \<open>The code\<close>

definition CHANNEL_OFFSET :: nat where
  "CHANNEL_OFFSET = 56"

definition SENDER_ID_OFFSET :: nat where
  "SENDER_ID_OFFSET = 32"

definition CHANNEL_MASK :: clh_u64 where
  "CHANNEL_MASK = 0xFF00000000000000"

definition SENDER_ID_MASK :: clh_u64 where
  "SENDER_ID_MASK = 0x00FFFFFF00000000"

text \<open>The cast of the signed sender id to 64 bits extends its sign.\<close>

definition clh_encode_tag :: "clh_u32 \<Rightarrow> clh_i32 \<Rightarrow> clh_u32 \<Rightarrow> clh_u64" where
  "clh_encode_tag channel sender_id sender_tag =
     (let tag = 0;
          tag = tag OR push_bit CHANNEL_OFFSET (ucast channel);
          tag = tag OR push_bit SENDER_ID_OFFSET (scast sender_id);
          tag = tag OR ucast sender_tag
      in tag)"

text \<open>The three out-parameters, in the order channel, sender id, sender tag.\<close>

definition clh_decode_tag :: "clh_u64 \<Rightarrow> clh_u32 \<times> clh_i32 \<times> clh_u32" where
  "clh_decode_tag tag =
     (let sender_tag = ucast tag;
          channel = ucast (drop_bit CHANNEL_OFFSET (tag AND CHANNEL_MASK));
          sender_id = ucast (drop_bit SENDER_ID_OFFSET (tag AND SENDER_ID_MASK))
      in (channel, sender_id, sender_tag))"

section \<open>Bits of the masks and of an encoded tag\<close>

text \<open>The values that fit the fields.\<close>

definition channel_ok :: "clh_u32 \<Rightarrow> bool" where
  "channel_ok c \<longleftrightarrow> unat c < 256"

definition sender_ok :: "clh_i32 \<Rightarrow> bool" where
  "sender_ok s \<longleftrightarrow> unat s < 2 ^ 24"

lemma mask_offsets:
  "CHANNEL_MASK = push_bit CHANNEL_OFFSET (mask 8)"
  "SENDER_ID_MASK = push_bit SENDER_ID_OFFSET (mask 24)"
  by (simp_all add: CHANNEL_MASK_def SENDER_ID_MASK_def CHANNEL_OFFSET_def SENDER_ID_OFFSET_def
      mask_eq_exp_minus_1)

lemma bit_CHANNEL_MASK [simp]: "bit CHANNEL_MASK n \<longleftrightarrow> 56 \<le> n \<and> n < 64"
  by (auto simp: mask_offsets CHANNEL_OFFSET_def bit_simps)

lemma bit_SENDER_ID_MASK [simp]: "bit SENDER_ID_MASK n \<longleftrightarrow> 32 \<le> n \<and> n < 56"
  by (auto simp: mask_offsets SENDER_ID_OFFSET_def bit_simps)

lemma bit_high_zero:
  fixes w :: "32 word"
  assumes "unat w < 2 ^ k" and "k \<le> n"
  shows "\<not> bit w n"
proof -
  from assms(1) have "take_bit k (unat w) = unat w"
    by (simp add: take_bit_nat_eq_self_iff)
  then have "take_bit k w = w"
    by (metis unsigned_take_bit_eq word_unat_eq_iff)
  then show ?thesis
    using assms(2) by (metis bit_take_bit_iff not_le)
qed

lemma channel_ok_bits: "channel_ok c \<Longrightarrow> 8 \<le> n \<Longrightarrow> \<not> bit c n"
  using bit_high_zero [of c 8 n] by (simp add: channel_ok_def)

lemma sender_ok_bits: "sender_ok s \<Longrightarrow> 24 \<le> n \<Longrightarrow> \<not> bit s n"
  using bit_high_zero [of s 24 n] by (simp add: sender_ok_def)

lemma bit_encode_tag:
  "bit (clh_encode_tag c s t) n \<longleftrightarrow>
     n < 64 \<and> (56 \<le> n \<and> bit c (n - 56) \<or>
               32 \<le> n \<and> bit s (min (n - 32) 31) \<or>
               n < 32 \<and> bit t n)"
  by (auto simp: clh_encode_tag_def CHANNEL_OFFSET_def SENDER_ID_OFFSET_def bit_simps min_def
      dest: bit_imp_le_length)


text \<open>The fields of a tag, each read bit by bit.\<close>

lemma bit_decode_channel [simp]:
  "bit (fst (clh_decode_tag f)) n \<longleftrightarrow> n < 8 \<and> bit f (n + 56)"
  by (auto simp: clh_decode_tag_def CHANNEL_OFFSET_def bit_simps ac_simps)

lemma bit_decode_sender [simp]:
  "bit (fst (snd (clh_decode_tag f))) n \<longleftrightarrow> n < 24 \<and> bit f (n + 32)"
  by (auto simp: clh_decode_tag_def SENDER_ID_OFFSET_def bit_simps ac_simps)

lemma bit_decode_tag [simp]:
  "bit (snd (snd (clh_decode_tag f))) n \<longleftrightarrow> n < 32 \<and> bit f n"
  by (auto simp: clh_decode_tag_def bit_simps)

section \<open>Ranges of decoded fields\<close>

lemma unat_less_of_bits:
  fixes w :: "32 word"
  assumes "\<And>n. k \<le> n \<Longrightarrow> \<not> bit w n"
  shows "unat w < 2 ^ k"
proof -
  have "take_bit k w = w"
    using assms by (intro bit_eqI) (auto simp: bit_simps not_le [symmetric])
  then have "take_bit k (unat w) = unat w"
    by (metis unsigned_take_bit_eq)
  then show ?thesis
    by (simp add: take_bit_nat_eq_self_iff)
qed

lemma decode_channel_ok: "channel_ok (fst (clh_decode_tag f))"
  using unat_less_of_bits [of 8 "fst (clh_decode_tag f)"] by (simp add: channel_ok_def)

lemma decode_sender_ok: "sender_ok (fst (snd (clh_decode_tag f)))"
  using unat_less_of_bits [of 24 "fst (snd (clh_decode_tag f))"] by (simp add: sender_ok_def)

section \<open>Round trips\<close>

lemma decode_encode:
  "clh_decode_tag (clh_encode_tag c s t) =
     (take_bit 8 (c OR signed_drop_bit 24 s), take_bit 24 s, t)"
proof (intro prod_eqI bit_word_eqI)
  fix n assume "n < LENGTH(32)"
  then show "bit (fst (clh_decode_tag (clh_encode_tag c s t))) n
      \<longleftrightarrow> bit (fst (take_bit 8 (c OR signed_drop_bit 24 s), take_bit 24 s, t)) n"
    by (auto simp: bit_encode_tag bit_simps min_def)
next
  fix n assume "n < LENGTH(32)"
  then show "bit (fst (snd (clh_decode_tag (clh_encode_tag c s t)))) n
      \<longleftrightarrow> bit (fst (snd (take_bit 8 (c OR signed_drop_bit 24 s), take_bit 24 s, t))) n"
    by (auto simp: bit_encode_tag bit_simps min_def)
next
  fix n assume "n < LENGTH(32)"
  then show "bit (snd (snd (clh_decode_tag (clh_encode_tag c s t)))) n
      \<longleftrightarrow> bit (snd (snd (take_bit 8 (c OR signed_drop_bit 24 s), take_bit 24 s, t))) n"
    by (auto simp: bit_encode_tag)
qed

lemma encode_decode:
  assumes "clh_decode_tag f = (c, s, t)"
  shows "clh_encode_tag c s t = f"
proof (rule bit_word_eqI)
  fix n assume n: "n < LENGTH(64)"
  have bits: "bit c k \<longleftrightarrow> k < 8 \<and> bit f (k + 56)" "bit s k \<longleftrightarrow> k < 24 \<and> bit f (k + 32)"
      "bit t k \<longleftrightarrow> k < 32 \<and> bit f k" for k
    using bit_decode_channel [of f k] bit_decode_sender [of f k] bit_decode_tag [of f k]
    by (simp_all add: assms)
  have min: "min (n - 32) 31 = n - 32" using n by simp
  have "bit (clh_encode_tag c s t) n \<longleftrightarrow>
      56 \<le> n \<and> bit c (n - 56) \<or> 32 \<le> n \<and> bit s (n - 32) \<or> n < 32 \<and> bit t n"
    using n by (simp only: bit_encode_tag min) simp
  also have "\<dots> \<longleftrightarrow> bit f n"
  proof (cases "56 \<le> n")
    case True
    then show ?thesis using n bits(1) [of "n - 56"] bits(2) [of "n - 32"] by auto
  next
    case False
    then show ?thesis using bits(2) [of "n - 32"] bits(3) [of n] by (cases "n < 32") auto
  qed
  finally show "bit (clh_encode_tag c s t) n \<longleftrightarrow> bit f n" .
qed

lemma take_bit_eq_iff_unat:
  fixes w :: "32 word"
  shows "take_bit k w = w \<longleftrightarrow> unat w < 2 ^ k"
proof -
  have "take_bit k w = w \<longleftrightarrow> take_bit k (unat w) = unat w"
    by (simp add: unsigned_take_bit_eq word_unat_eq_iff)
  then show ?thesis
    by (simp only: take_bit_nat_eq_self_iff)
qed

lemma sender_ok_signed_drop: "sender_ok s \<Longrightarrow> signed_drop_bit 24 s = 0"
  by (rule bit_word_eqI) (auto simp: bit_simps min_def sender_ok_bits)

lemma decode_encode_ok [simp]:
  "channel_ok c \<Longrightarrow> sender_ok s \<Longrightarrow> clh_decode_tag (clh_encode_tag c s t) = (c, s, t)"
  using take_bit_eq_iff_unat [of 8 c] take_bit_eq_iff_unat [of 24 s]
  by (simp add: decode_encode sender_ok_signed_drop channel_ok_def sender_ok_def)

lemma decode_encode_ok_iff:
  "clh_decode_tag (clh_encode_tag c s t) = (c, s, t) \<longleftrightarrow> channel_ok c \<and> sender_ok s"
proof
  assume "clh_decode_tag (clh_encode_tag c s t) = (c, s, t)"
  then show "channel_ok c \<and> sender_ok s"
    using decode_channel_ok [of "clh_encode_tag c s t"] decode_sender_ok [of "clh_encode_tag c s t"]
    by simp
qed simp

section \<open>Masked comparison\<close>

text \<open>
  The masks the receive and probe calls build, and what the comparison of \<open>message_search\<close>
  (and of the UCX tag matching) decides with them.
\<close>

definition tag_matches :: "clh_u64 \<Rightarrow> clh_u64 \<Rightarrow> clh_u64 \<Rightarrow> bool" where
  "tag_matches full_tag tag tag_mask \<longleftrightarrow> full_tag AND tag_mask = tag AND tag_mask"

lemma masked_eq_bits:
  fixes a b m :: "'a::len word"
  shows "a AND m = b AND m \<longleftrightarrow> (\<forall>n. bit m n \<longrightarrow> bit a n = bit b n)"
  by (auto simp: bit_eq_iff bit_and_iff possible_bit_def dest: bit_imp_le_length)

lemma tag_matches_or:
  "tag_matches f g (m OR m') \<longleftrightarrow> tag_matches f g m \<and> tag_matches f g m'"
  by (auto simp: tag_matches_def masked_eq_bits bit_or_iff)

lemma all_field_bits:
  fixes P :: "nat \<Rightarrow> bool"
  shows "(\<forall>n. k \<le> n \<and> n < k + l \<longrightarrow> P n) \<longleftrightarrow> (\<forall>n. n < l \<longrightarrow> P (n + k))"
  by (metis add.commute le_Suc_ex le_add2 nat_add_left_cancel_less)

lemma word_eq_bits: "v = w \<longleftrightarrow> (\<forall>n. bit v n \<longleftrightarrow> bit w n)" for v w :: "'a::len word"
  by (metis bit_eqI)

lemma conj_eq_iff: "(\<forall>n. (P n \<and> Q n) = (P n \<and> R n)) \<longleftrightarrow> (\<forall>n. P n \<longrightarrow> Q n = R n)"
  by auto

lemma tag_matches_channel:
  "tag_matches f g CHANNEL_MASK \<longleftrightarrow> fst (clh_decode_tag f) = fst (clh_decode_tag g)"
  unfolding tag_matches_def masked_eq_bits word_eq_bits [of "fst (clh_decode_tag f)"]
    bit_decode_channel conj_eq_iff bit_CHANNEL_MASK
  using all_field_bits [of 56 8 "\<lambda>n. bit f n = bit g n"] by simp

lemma tag_matches_sender:
  "tag_matches f g SENDER_ID_MASK
     \<longleftrightarrow> fst (snd (clh_decode_tag f)) = fst (snd (clh_decode_tag g))"
  unfolding tag_matches_def masked_eq_bits word_eq_bits [of "fst (snd (clh_decode_tag f))"]
    bit_decode_sender conj_eq_iff bit_SENDER_ID_MASK
  using all_field_bits [of 32 24 "\<lambda>n. bit f n = bit g n"] by simp

lemma bit_32_length: "bit m n \<Longrightarrow> n < 32" for m :: "32 word"
  using bit_imp_le_length [of m n] by simp

lemma tag_matches_user:
  "tag_matches f g (ucast m)
     \<longleftrightarrow> snd (snd (clh_decode_tag f)) AND m = snd (snd (clh_decode_tag g)) AND m"
proof -
  have "bit (ucast m :: clh_u64) n \<longleftrightarrow> bit m n" for n
    using bit_32_length [of m n] by (auto simp: bit_ucast_iff)
  then show ?thesis
    unfolding tag_matches_def masked_eq_bits bit_decode_tag using bit_32_length by auto
qed

text \<open>
  With a channel and a rank that fit, the masks of \<open>clh_recv\<close> and \<open>clh_probe\<close> ask for the
  channel and the selected bits of the tag, those of the variants with a source also for the
  source.
\<close>

lemma tag_matches_any:
  assumes "channel_ok c"
  shows "tag_matches f (clh_encode_tag c 0 t) (CHANNEL_MASK OR ucast m) \<longleftrightarrow>
           fst (clh_decode_tag f) = c \<and> snd (snd (clh_decode_tag f)) AND m = t AND m"
  using assms decode_encode_ok [of c 0 t]
  by (simp add: tag_matches_or tag_matches_channel tag_matches_user sender_ok_def)

lemma tag_matches_source:
  assumes "channel_ok c" and "sender_ok s"
  shows "tag_matches f (clh_encode_tag c s t) (CHANNEL_MASK OR SENDER_ID_MASK OR ucast m) \<longleftrightarrow>
           fst (clh_decode_tag f) = c \<and> fst (snd (clh_decode_tag f)) = s
           \<and> snd (snd (clh_decode_tag f)) AND m = t AND m"
  using assms
  by (auto simp add: tag_matches_or tag_matches_channel tag_matches_sender tag_matches_user)

lemma tag_matches_exact: "tag_matches f g (- 1) \<longleftrightarrow> f = g"
  by (simp add: tag_matches_def)

section \<open>Tags as a codec\<close>

definition encode_fields :: "clh_u32 \<times> clh_i32 \<times> clh_u32 \<Rightarrow> clh_u64" where
  "encode_fields v = (case v of (c, s, t) \<Rightarrow> clh_encode_tag c s t)"

definition fields_ok :: "clh_u32 \<times> clh_i32 \<times> clh_u32 \<Rightarrow> bool" where
  "fields_ok v \<longleftrightarrow> (case v of (c, s, t) \<Rightarrow> channel_ok c \<and> sender_ok s)"

interpretation tag: codec encode_fields clh_decode_tag fields_ok
proof unfold_locales
  fix f :: clh_u64 and v :: "clh_u32 \<times> clh_i32 \<times> clh_u32"
  obtain c s t where d: "clh_decode_tag f = (c, s, t)" by (rule prod_cases3)
  show "fields_ok (clh_decode_tag f)"
    using decode_channel_ok [of f] decode_sender_ok [of f] by (simp add: fields_ok_def d)
  show "encode_fields (clh_decode_tag f) = f" using encode_decode [OF d] by (simp add: encode_fields_def d)
  obtain c' s' t' where v: "v = (c', s', t')" by (rule prod_cases3)
  show "clh_decode_tag (encode_fields v) = v" if "fields_ok v"
    using that by (simp add: fields_ok_def encode_fields_def v)
qed

end
