(* ===== verification/Clh_List.thy ===== *)
theory Clh_List
  imports Clh_Prelude
begin

text \<open>
  list.h, list.c and the allocator of mem.h: the intrusive doubly linked list with a free list
  that holds requests and messages. Nodes live in a heap addressed by numbers, pointers are
  optional addresses, and every operation reads and writes the links the code reads and writes,
  under the lock regions the code has. This theory holds the code; Clh\_List\_Props relates
  it to lists of nodes.
\<close>

section \<open>Nodes, heap and allocator\<close>

type_synonym node_ptr = "nat option"

record 'a clh_list_node =
  node_prev :: node_ptr
  node_next :: node_ptr
  node_data :: 'a

text \<open>
  \<open>cells\<close> holds the allocated nodes and \<open>brk\<close> counts the allocations made so far; the next
  allocation returns that number, so an address is never used twice.
\<close>

record 'a node_heap =
  cells :: "nat \<Rightarrow> 'a clh_list_node option"
  brk :: nat

text \<open>
  An allocator is known by what a node it returns holds, which the list then only partly
  overwrites: for the system allocator whatever the memory held, for the request allocator of
  clh.c a request with a fresh mutex and condition variable and otherwise the same.
\<close>

type_synonym 'a clh_allocator = "nat \<Rightarrow> 'a clh_list_node"

definition hget :: "'a node_heap \<Rightarrow> nat \<Rightarrow> 'a clh_list_node res" where
  "hget H a = (case cells H a of None \<Rightarrow> Inl Dangling | Some nd \<Rightarrow> Inr nd)"

definition hput :: "'a node_heap \<Rightarrow> nat \<Rightarrow> 'a clh_list_node \<Rightarrow> 'a node_heap" where
  "hput H a nd = H\<lparr>cells := (cells H)(a \<mapsto> nd)\<rparr>"

definition hupd ::
  "'a node_heap \<Rightarrow> nat \<Rightarrow> ('a clh_list_node \<Rightarrow> 'a clh_list_node) \<Rightarrow> 'a node_heap res" where
  "hupd H a f = ebind (hget H a) (\<lambda>nd. Inr (hput H a (f nd)))"

text \<open>
  \<open>malloc\<close> and \<open>free\<close>, the functions of \<open>CLH_SYSTEM_ALLOCATOR\<close>: a node nobody had, with what its
  memory happens to hold.
\<close>

definition clh_system_allocator_allocate ::
  "'a clh_allocator \<Rightarrow> 'a node_heap \<Rightarrow> 'a node_heap \<times> nat" where
  [simp]: "clh_system_allocator_allocate junk H =
     (H\<lparr>cells := (cells H)(brk H \<mapsto> junk (brk H)), brk := Suc (brk H)\<rparr>, brk H)"

definition clh_system_allocator_free :: "'a node_heap \<Rightarrow> nat \<Rightarrow> 'a node_heap res" where
  [simp]: "clh_system_allocator_free H a =
     ebind (hget H a) (\<lambda>_. Inr (H\<lparr>cells := (cells H)(a := None)\<rparr>))"

text \<open>The calls through the pointers; the allocator of the requests sets up more in the node.\<close>

definition clh_allocator_allocate ::
  "'a clh_allocator \<Rightarrow> 'a node_heap \<Rightarrow> 'a node_heap \<times> nat" where
  "clh_allocator_allocate allocator H = clh_system_allocator_allocate allocator H"

definition clh_allocator_free :: "'a node_heap \<Rightarrow> nat \<Rightarrow> 'a node_heap res" where
  "clh_allocator_free H a = clh_system_allocator_free H a"

section \<open>The list\<close>

record 'a clh_list =
  list_head :: node_ptr
  list_tail :: node_ptr
  list_free_nodes :: node_ptr
  list_len :: clh_u64
  list_data_size :: clh_u64
  list_mutex :: clh_mutex
  list_allocator :: "'a clh_allocator"

record 'a clh_list_init_args =
  arg_data_size :: clh_u64
  arg_default_capacity :: nat
  arg_allocator :: "'a clh_allocator"

type_synonym 'a list_state = "'a node_heap \<times> 'a clh_list"

text \<open>\<open>CLH_LOCK_REGION(list->mutex)\<close> around a body that changes heap and list.\<close>

definition list_lock_region ::
  "'a list_state \<Rightarrow> ('a list_state \<Rightarrow> ('a list_state \<times> 'r) res) \<Rightarrow> ('a list_state \<times> 'r) res" where
  "list_lock_region S body =
     (case S of (H, L) \<Rightarrow>
        ebind (clh_lock_region_init (list_mutex L)) (\<lambda>m.
        ebind (body (H, L\<lparr>list_mutex := m\<rparr>)) (\<lambda>((H', L'), r).
        ebind (clh_lock_region_end (list_mutex L')) (\<lambda>m'.
        Inr ((H', L'\<lparr>list_mutex := m'\<rparr>), r)))))"

text \<open>The result of a \<open>void\<close> function is the state alone.\<close>

definition void :: "('s \<times> unit) res \<Rightarrow> 's res" where
  "void m = ebind m (\<lambda>(s, _). Inr s)"

section \<open>Creation and destruction\<close>

fun clh_list_init_loop :: "nat \<Rightarrow> 'a list_state \<Rightarrow> 'a list_state" where
  "clh_list_init_loop 0 S = S"
| "clh_list_init_loop (Suc i) (H, L) =
     (let (H1, node) = clh_allocator_allocate (list_allocator L) H;
          nd = (the (cells H1 node))\<lparr>node_prev := None, node_next := list_free_nodes L\<rparr>
      in clh_list_init_loop i (hput H1 node nd, L\<lparr>list_free_nodes := Some node\<rparr>))"

text \<open>With no data size the function only prints an error: the list is left as it was.\<close>

definition clh_list_init ::
  "'a list_state \<Rightarrow> 'a clh_list_init_args \<Rightarrow> 'a list_state" where
  "clh_list_init S args =
     (if arg_data_size args = 0 then S
      else clh_list_init_loop (arg_default_capacity args)
             (fst S, \<lparr>list_head = None, list_tail = None, list_free_nodes = None, list_len = 0,
                      list_data_size = arg_data_size args, list_mutex = clh_mutex_create,
                      list_allocator = arg_allocator args\<rparr>))"

text \<open>
  Loops that follow \<open>next\<close> pointers take fuel; the number of addresses handed out so far is
  enough for any list without a cycle. The loop frees every node from \<open>cur\<close> on and counts.
\<close>

fun free_loop :: "nat \<Rightarrow> 'a node_heap \<Rightarrow> node_ptr \<Rightarrow> nat \<Rightarrow> ('a node_heap \<times> nat) res" where
  "free_loop fuel H None count = Inr (H, count)"
| "free_loop 0 H (Some cur) count = Inl Diverges"
| "free_loop (Suc fuel) H (Some cur) count =
     ebind (hget H cur) (\<lambda>nd.
     ebind (clh_allocator_free H cur) (\<lambda>H.
     free_loop fuel H (node_next nd) (Suc count)))"

text \<open>The result carries the number of nodes that were still in the list, which is logged.\<close>

definition clh_list_destroy :: "'a list_state \<Rightarrow> ('a node_heap \<times> nat) res" where
  "clh_list_destroy S =
     (case S of (H, L) \<Rightarrow>
        ebind (free_loop (brk H) H (list_head L) 0) (\<lambda>(H, non_free_count).
        ebind (free_loop (brk H) H (list_free_nodes L) 0) (\<lambda>(H, _).
        ebind (clh_mutex_destroy (list_mutex L)) (\<lambda>_.
        Inr (H, non_free_count)))))"

section \<open>Nodes in and out of the list\<close>

definition clh_list_new_node :: "'a list_state \<Rightarrow> ('a list_state \<times> nat) res" where
  "clh_list_new_node S =
     list_lock_region S (\<lambda>(H, L).
       let (H, L) =
         (if list_free_nodes L = None then
            (let (H1, a) = clh_allocator_allocate (list_allocator L) H
             in (hput H1 a ((the (cells H1 a))\<lparr>node_prev := None, node_next := None\<rparr>),
                 L\<lparr>list_free_nodes := Some a\<rparr>))
          else (H, L))
       in ebind (deref (list_free_nodes L)) (\<lambda>node.
          ebind (hget H node) (\<lambda>nd.
          ebind (hupd H node (\<lambda>x. x\<lparr>node_next := None, node_prev := None\<rparr>)) (\<lambda>H.
          Inr ((H, L\<lparr>list_free_nodes := node_next nd\<rparr>), node)))))"

definition clh_list_push_node :: "'a list_state \<Rightarrow> nat \<Rightarrow> 'a list_state res" where
  "clh_list_push_node S node =
     void (list_lock_region S (\<lambda>(H, L).
       ebind (hupd H node (\<lambda>x. x\<lparr>node_prev := list_tail L, node_next := None\<rparr>)) (\<lambda>H.
       ebind (hget H node) (\<lambda>nd.
       ebind (case node_prev nd of
                Some p \<Rightarrow> ebind (hupd H p (\<lambda>x. x\<lparr>node_next := Some node\<rparr>)) (\<lambda>H. Inr (H, L))
              | None \<Rightarrow> ebind (c_assert (list_head L = None)) (\<lambda>_.
                         Inr (H, L\<lparr>list_head := Some node\<rparr>)))
         (\<lambda>(H, L).
       Inr ((H, L\<lparr>list_tail := Some node, list_len := list_len L + 1\<rparr>), ()))))))"

text \<open>\<open>memcpy(node->data, data, list->data_size)\<close> copies one whole item.\<close>

definition clh_list_push_data :: "'a list_state \<Rightarrow> 'a \<Rightarrow> 'a list_state res" where
  "clh_list_push_data S data =
     ebind (clh_list_new_node S) (\<lambda>((H, L), node).
     ebind (hupd H node (\<lambda>x. x\<lparr>node_data := data\<rparr>)) (\<lambda>H.
     clh_list_push_node (H, L) node))"

definition clh_list_pop_node :: "'a list_state \<Rightarrow> ('a list_state \<times> node_ptr) res" where
  "clh_list_pop_node S =
     (if list_tail (snd S) = None then Inr (S, None)
      else list_lock_region S (\<lambda>(H, L).
       ebind (deref (list_tail L)) (\<lambda>node.
       ebind (hget H node) (\<lambda>nd.
       let L = L\<lparr>list_tail := node_prev nd\<rparr> in
       ebind (case node_prev nd of
                Some p \<Rightarrow> ebind (hupd H p (\<lambda>x. x\<lparr>node_next := None\<rparr>)) (\<lambda>H.
                          ebind (hupd H node (\<lambda>x. x\<lparr>node_prev := None\<rparr>)) (\<lambda>H. Inr (H, L)))
              | None \<Rightarrow> ebind (c_assert (list_head L = Some node)) (\<lambda>_.
                         Inr (H, L\<lparr>list_head := node_next nd\<rparr>)))
         (\<lambda>(H, L).
       Inr ((H, L\<lparr>list_len := list_len L - 1\<rparr>), Some node))))))"

definition clh_list_remove_node :: "'a list_state \<Rightarrow> nat \<Rightarrow> 'a list_state res" where
  "clh_list_remove_node S node =
     void (list_lock_region S (\<lambda>(H, L).
       ebind (hget H node) (\<lambda>nd.
       ebind (case node_next nd of
                Some n \<Rightarrow> ebind (hupd H n (\<lambda>x. x\<lparr>node_prev := node_prev nd\<rparr>)) (\<lambda>H. Inr (H, L))
              | None \<Rightarrow> ebind (c_assert (list_tail L = Some node)) (\<lambda>_.
                         Inr (H, L\<lparr>list_tail := node_prev nd\<rparr>)))
         (\<lambda>(H, L).
       ebind (hget H node) (\<lambda>nd.
       ebind (case node_prev nd of
                Some p \<Rightarrow> ebind (hupd H p (\<lambda>x. x\<lparr>node_next := node_next nd\<rparr>)) (\<lambda>H. Inr (H, L))
              | None \<Rightarrow> ebind (c_assert (list_head L = Some node)) (\<lambda>_.
                         Inr (H, L\<lparr>list_head := node_next nd\<rparr>)))
         (\<lambda>(H, L).
       ebind (hupd H node (\<lambda>x. x\<lparr>node_prev := None, node_next := list_free_nodes L\<rparr>)) (\<lambda>H.
       Inr ((H, L\<lparr>list_len := list_len L - 1, list_free_nodes := Some node\<rparr>), ()))))))))"

text \<open>The two out-parameters \<open>begin\<close> and \<open>end\<close> are the result.\<close>

definition clh_list_get_all_nodes ::
  "'a list_state \<Rightarrow> ('a list_state \<times> (node_ptr \<times> node_ptr)) res" where
  "clh_list_get_all_nodes S =
     list_lock_region S (\<lambda>(H, L).
       Inr ((H, L\<lparr>list_head := None, list_tail := None, list_len := 0\<rparr>),
            (list_head L, list_tail L)))"

text \<open>
  The early \<open>return\<close> is inside the lock region and leaves it without the unlock.
\<close>

definition clh_list_release_nodes ::
  "'a list_state \<Rightarrow> node_ptr \<Rightarrow> node_ptr \<Rightarrow> 'a list_state res" where
  "clh_list_release_nodes S beg fin =
     (case S of (H, L) \<Rightarrow>
        ebind (clh_lock_region_init (list_mutex L)) (\<lambda>m.
        let L = L\<lparr>list_mutex := m\<rparr> in
        (if beg = None \<or> fin = None then Inr (H, L)
         else ebind (deref fin) (\<lambda>e.
              ebind (hupd H e (\<lambda>x. x\<lparr>node_next := list_free_nodes L\<rparr>)) (\<lambda>H.
              ebind (clh_lock_region_end (list_mutex L)) (\<lambda>m.
              Inr (H, L\<lparr>list_free_nodes := beg, list_mutex := m\<rparr>)))))))"

definition clh_list_release_node :: "'a list_state \<Rightarrow> nat \<Rightarrow> 'a list_state res" where
  "clh_list_release_node S node =
     void (list_lock_region S (\<lambda>(H, L).
       ebind (hupd H node (\<lambda>x. x\<lparr>node_prev := None, node_next := list_free_nodes L\<rparr>)) (\<lambda>H.
       Inr ((H, L\<lparr>list_free_nodes := Some node\<rparr>), ()))))"

text \<open>
  \<open>clh_list_node_from_data\<close> subtracts the size of the node header from the address of the
  data: a node and its data have one address here, so it is the identity.
\<close>

definition clh_list_node_from_data :: "nat \<Rightarrow> nat" where
  "clh_list_node_from_data data = data"

definition clh_list_release_data :: "'a list_state \<Rightarrow> nat \<Rightarrow> 'a list_state res" where
  "clh_list_release_data S data = clh_list_release_node S (clh_list_node_from_data data)"

text \<open>
  \<open>clh_list_foreach\<close> with a body that stops at the first item satisfying a test; the result is
  the node it stopped at.
\<close>

fun clh_list_foreach_find ::
  "nat \<Rightarrow> 'a node_heap \<Rightarrow> node_ptr \<Rightarrow> ('a \<Rightarrow> bool) \<Rightarrow> node_ptr res" where
  "clh_list_foreach_find fuel H None P = Inr None"
| "clh_list_foreach_find 0 H (Some cur) P = Inl Diverges"
| "clh_list_foreach_find (Suc fuel) H (Some cur) P =
     ebind (hget H cur) (\<lambda>nd.
     if P (node_data nd) then Inr (Some cur)
     else clh_list_foreach_find fuel H (node_next nd) P)"

end
