(* ===== verification/Clh_List_Props.thy ===== *)
theory Clh_List_Props
  imports Clh_List Clh_Interfaces
begin

text \<open>
  What the pointer operations of Clh\_List do to the sequence of nodes of a list. The
  invariant says that the links of a list spell a sequence \<open>xs\<close> of live nodes forwards and
  backwards, that its free list spells \<open>fs\<close>, and that the length field counts \<open>xs\<close>. Every
  operation is shown to return, to keep the invariant for the expected sequences, and to leave
  alone all nodes but those it names.
\<close>

section \<open>Segments of the heap\<close>

fun dseg ::
  "(nat \<Rightarrow> 'a clh_list_node option) \<Rightarrow> node_ptr \<Rightarrow> node_ptr \<Rightarrow> nat list \<Rightarrow> node_ptr \<Rightarrow> node_ptr \<Rightarrow> bool"
where
  "dseg h p c [] l n \<longleftrightarrow> p = l \<and> c = n"
| "dseg h p c (x # xs) l n \<longleftrightarrow> c = Some x \<and>
     (case h x of None \<Rightarrow> False
      | Some nd \<Rightarrow> node_prev nd = p \<and> dseg h (Some x) (node_next nd) xs l n)"

fun chain :: "(nat \<Rightarrow> 'a clh_list_node option) \<Rightarrow> node_ptr \<Rightarrow> nat list \<Rightarrow> bool" where
  "chain h c [] \<longleftrightarrow> c = None"
| "chain h c (x # xs) \<longleftrightarrow> c = Some x \<and>
     (case h x of None \<Rightarrow> False | Some nd \<Rightarrow> chain h (node_next nd) xs)"

lemma dseg_append:
  "dseg h p c (xs @ ys) l n \<longleftrightarrow> (\<exists>m k. dseg h p c xs m k \<and> dseg h m k ys l n)"
  by (induction xs arbitrary: p c) (auto split: option.splits)

lemma dseg_snoc:
  "dseg h p c (xs @ [y]) l n \<longleftrightarrow>
     l = Some y \<and> (case h y of None \<Rightarrow> False
       | Some nd \<Rightarrow> node_next nd = n \<and> dseg h p c xs (node_prev nd) (Some y))"
  by (auto simp: dseg_append split: option.splits)

lemma dseg_snoc2:
  "dseg h p c (xs @ [y, z]) l n \<longleftrightarrow>
     l = Some z \<and> (case h z of None \<Rightarrow> False
       | Some nd \<Rightarrow> node_next nd = n \<and> dseg h p c (xs @ [y]) (node_prev nd) (Some z))"
  using dseg_snoc [of h p c "xs @ [y]" z l n] by simp

lemma dseg_mid:
  "dseg h p c (xs @ y # ys) l n \<longleftrightarrow>
     (case h y of None \<Rightarrow> False
      | Some nd \<Rightarrow> dseg h p c xs (node_prev nd) (Some y) \<and>
                   dseg h (Some y) (node_next nd) ys l n)"
  by (auto simp: dseg_append split: option.splits)

lemma dseg_cong:
  "(\<And>a. a \<in> set xs \<Longrightarrow> h a = h' a) \<Longrightarrow> dseg h p c xs l n = dseg h' p c xs l n"
  by (induction xs arbitrary: p c) (auto split: option.splits)

lemma chain_cong:
  "(\<And>a. a \<in> set xs \<Longrightarrow> h a = h' a) \<Longrightarrow> chain h c xs = chain h' c xs"
  by (induction xs arbitrary: c) (auto split: option.splits)

lemma dseg_upd_other [simp]: "a \<notin> set xs \<Longrightarrow> dseg (h(a := v)) p c xs l n = dseg h p c xs l n"
  by (rule dseg_cong) auto

lemma chain_upd_other [simp]: "a \<notin> set xs \<Longrightarrow> chain (h(a := v)) c xs = chain h c xs"
  by (rule chain_cong) auto

lemma dseg_live: "dseg h p c xs l n \<Longrightarrow> x \<in> set xs \<Longrightarrow> h x \<noteq> None"
  by (induction xs arbitrary: p c) (auto split: option.splits)

lemma chain_live: "chain h c xs \<Longrightarrow> x \<in> set xs \<Longrightarrow> h x \<noteq> None"
  by (induction xs arbitrary: c) (auto split: option.splits)

lemma dseg_None_start: "dseg h p None xs l n \<Longrightarrow> xs = []"
  by (cases xs) auto

lemma dseg_chain: "dseg h p c xs l None \<Longrightarrow> chain h c xs"
  by (induction xs arbitrary: p c) (auto split: option.splits)

section \<open>The invariants\<close>

definition heap_inv :: "'a node_heap \<Rightarrow> bool" where
  "heap_inv H \<longleftrightarrow> (\<forall>a \<ge> brk H. cells H a = None)"

definition list_inv :: "'a node_heap \<Rightarrow> 'a clh_list \<Rightarrow> nat list \<Rightarrow> nat list \<Rightarrow> bool" where
  "list_inv H L xs fs \<longleftrightarrow>
     dseg (cells H) None (list_head L) xs (list_tail L) None \<and>
     chain (cells H) (list_free_nodes L) fs \<and>
     distinct (xs @ fs) \<and> list_len L = of_nat (length xs) \<and> \<not> list_mutex L"

text \<open>The data of a node, links aside.\<close>

definition data_at :: "'a node_heap \<Rightarrow> nat \<Rightarrow> 'a option" where
  "data_at H a = map_option node_data (cells H a)"

text \<open>Only the links of nodes in \<open>A\<close> changed.\<close>

definition relinks :: "nat set \<Rightarrow> 'a node_heap \<Rightarrow> 'a node_heap \<Rightarrow> bool" where
  "relinks A H H' \<longleftrightarrow>
     (\<forall>a. a \<notin> A \<longrightarrow> cells H' a = cells H a) \<and> data_at H' = data_at H \<and> brk H' = brk H"

text \<open>The fields a list keeps from its initialisation on.\<close>

definition same_config :: "'a clh_list \<Rightarrow> 'a clh_list \<Rightarrow> bool" where
  "same_config L L' \<longleftrightarrow>
     list_data_size L' = list_data_size L \<and> list_allocator L' = list_allocator L"

lemma same_config_refl [simp]: "same_config L L"
  by (simp add: same_config_def)

lemma same_config_trans: "same_config L L' \<Longrightarrow> same_config L' L'' \<Longrightarrow> same_config L L''"
  by (simp add: same_config_def)

lemma relinks_refl [simp]: "relinks A H H"
  by (simp add: relinks_def)

lemma relinks_mono: "relinks A H H' \<Longrightarrow> A \<subseteq> B \<Longrightarrow> relinks B H H'"
  by (auto simp: relinks_def)

lemma relinks_trans: "relinks A H H' \<Longrightarrow> relinks A H' H'' \<Longrightarrow> relinks A H H''"
  by (simp add: relinks_def)

lemma relinks_live: "relinks A H H' \<Longrightarrow> cells H' a = None \<longleftrightarrow> cells H a = None"
  by (metis data_at_def option.map_disc_iff relinks_def)

lemma relinks_heap_inv: "relinks A H H' \<Longrightarrow> heap_inv H \<Longrightarrow> heap_inv H'"
  by (metis heap_inv_def relinks_def relinks_live)

lemma relinks_data_at: "relinks A H H' \<Longrightarrow> data_at H' a = data_at H a"
  by (simp add: relinks_def)

lemma list_inv_cong:
  "(\<And>a. a \<in> set xs \<union> set fs \<Longrightarrow> cells H' a = cells H a) \<Longrightarrow>
     list_inv H' L xs fs = list_inv H L xs fs"
  unfolding list_inv_def
  using dseg_cong [of xs "cells H'" "cells H"] chain_cong [of fs "cells H'" "cells H"] by simp

text \<open>Lists on other nodes of the same heap do not notice.\<close>

lemma relinks_list_inv:
  "relinks A H H' \<Longrightarrow> A \<inter> (set xs \<union> set fs) = {} \<Longrightarrow> list_inv H L xs fs \<Longrightarrow> list_inv H' L xs fs"
  by (subst list_inv_cong [of xs fs H' H]) (auto simp: relinks_def)

lemma list_inv_live: "list_inv H L xs fs \<Longrightarrow> a \<in> set xs \<union> set fs \<Longrightarrow> cells H a \<noteq> None"
  unfolding list_inv_def by (metis Un_iff chain_live dseg_live)

lemma list_inv_bound:
  "list_inv H L xs fs \<Longrightarrow> heap_inv H \<Longrightarrow> a \<in> set xs \<union> set fs \<Longrightarrow> a < brk H"
  by (meson heap_inv_def list_inv_live not_le)

lemma list_inv_distinct: "list_inv H L xs fs \<Longrightarrow> distinct xs \<and> distinct fs \<and> set xs \<inter> set fs = {}"
  by (simp add: list_inv_def)

lemma list_inv_length:
  assumes "list_inv H L xs fs" and "heap_inv H"
  shows "length xs + length fs \<le> brk H"
proof -
  have "card (set (xs @ fs)) \<le> card {..<brk H}"
    using list_inv_bound [OF assms] by (intro card_mono) auto
  moreover have "card (set (xs @ fs)) = length (xs @ fs)"
    using assms(1) by (simp add: list_inv_def distinct_card del: set_append)
  ultimately show ?thesis by simp
qed

lemma list_inv_head: "list_inv H L xs fs \<Longrightarrow> list_head L = None \<longleftrightarrow> xs = []"
  by (cases xs) (auto simp: list_inv_def)

section \<open>Heap access\<close>

lemma hget_Some [simp]: "cells H a = Some nd \<Longrightarrow> hget H a = Inr nd"
  by (simp add: hget_def)

lemma hget_Inr [res_simps]: "hget H a = Inr nd \<longleftrightarrow> cells H a = Some nd"
  by (auto simp: hget_def split: option.splits)

lemma hupd_Some [simp]:
  "cells H a = Some nd \<Longrightarrow> hupd H a f = Inr (H\<lparr>cells := (cells H)(a \<mapsto> f nd)\<rparr>)"
  by (simp add: hupd_def hput_def)

lemma void_simps [simp]: "void (Inr (s, u)) = Inr s" "void (Inl e) = Inl e"
  by (simp_all add: void_def)

lemma list_lock_region_free:
  "\<not> list_mutex L \<Longrightarrow>
     list_lock_region (H, L) body =
       ebind (body (H, L\<lparr>list_mutex := True\<rparr>)) (\<lambda>((H', L'), r).
       ebind (clh_lock_region_end (list_mutex L')) (\<lambda>m'. Inr ((H', L'\<lparr>list_mutex := m'\<rparr>), r)))"
  by (simp add: list_lock_region_def)

lemma data_at_upd:
  "cells H a = Some nd \<Longrightarrow> node_data nd' = node_data nd \<Longrightarrow>
     data_at (H\<lparr>cells := (cells H)(a \<mapsto> nd')\<rparr>) = data_at H"
  by (auto simp: data_at_def fun_eq_iff)

lemma relinks_upd:
  "cells H a = Some nd \<Longrightarrow> node_data nd' = node_data nd \<Longrightarrow> a \<in> A \<Longrightarrow>
     relinks A H (H\<lparr>cells := (cells H)(a \<mapsto> nd')\<rparr>)"
  by (auto simp: relinks_def data_at_upd)

section \<open>Pushing\<close>

lemma push_node_spec:
  assumes inv: "list_inv H L xs fs" and live: "cells H n = Some nd"
    and new: "n \<notin> set xs" "n \<notin> set fs"
  shows "\<exists>H' L'. clh_list_push_node (H, L) n = Inr (H', L') \<and> list_inv H' L' (xs @ [n]) fs \<and>
           relinks (insert n (set xs)) H H' \<and> same_config L L'"
proof (cases xs rule: rev_cases)
  case Nil
  with inv live new show ?thesis
    by (auto simp: clh_list_push_node_def list_inv_def list_lock_region_free relinks_def
        data_at_def fun_eq_iff same_config_def)
next
  case (snoc ys p)
  with inv obtain ndp where p: "cells H p = Some ndp"
    by (auto simp: list_inv_def dseg_snoc split: option.splits)
  have neq: "p \<noteq> n" "n \<noteq> p" using new snoc by auto
  show ?thesis
    using inv live new snoc p neq
    by (auto simp: clh_list_push_node_def list_inv_def list_lock_region_free dseg_snoc dseg_snoc2
        relinks_def data_at_def fun_eq_iff same_config_def)
qed


section \<open>Popping takes the last node\<close>

lemma pop_node_empty:
  "list_inv H L [] fs \<Longrightarrow> clh_list_pop_node (H, L) = Inr ((H, L), None)"
  by (simp add: clh_list_pop_node_def list_inv_def)

lemma pop_node_spec:
  assumes inv: "list_inv H L (xs @ [n]) fs"
  shows "\<exists>H' L'. clh_list_pop_node (H, L) = Inr ((H', L'), Some n) \<and> list_inv H' L' xs fs \<and>
           relinks (insert n (set xs)) H H' \<and> same_config L L' \<and>
           list_free_nodes L' = list_free_nodes L"
proof -
  from inv obtain nd where n: "cells H n = Some nd" "list_tail L = Some n" "node_next nd = None"
    by (auto simp: list_inv_def dseg_snoc split: option.splits)
  show ?thesis
  proof (cases xs rule: rev_cases)
    case Nil
    with inv n show ?thesis
      by (auto simp: clh_list_pop_node_def list_inv_def list_lock_region_free same_config_def)
  next
    case (snoc ys p)
    with inv n obtain ndp where p: "cells H p = Some ndp" "node_prev nd = Some p"
      by (auto simp: list_inv_def dseg_snoc dseg_snoc2 split: option.splits)
    have neq: "p \<noteq> n" "n \<noteq> p" using inv snoc by (auto simp: list_inv_def)
    show ?thesis
      using inv n snoc p neq
      by (auto simp: clh_list_pop_node_def list_inv_def list_lock_region_free dseg_snoc dseg_snoc2
          relinks_def data_at_def fun_eq_iff same_config_def)
  qed
qed

section \<open>Removing any node\<close>

lemma remove_node_spec:
  assumes inv: "list_inv H L (as @ n # bs) fs"
  shows "\<exists>H' L'. clh_list_remove_node (H, L) n = Inr (H', L') \<and>
           list_inv H' L' (as @ bs) (n # fs) \<and>
           relinks (set (as @ n # bs)) H H' \<and> same_config L L'"
proof -
  from inv obtain nd where n: "cells H n = Some nd"
    by (auto simp: list_inv_def dseg_mid split: option.splits)
  from inv n have segs: "dseg (cells H) None (list_head L) as (node_prev nd) (Some n)"
      "dseg (cells H) (Some n) (node_next nd) bs (list_tail L) None"
      "distinct as" "distinct bs" "n \<notin> set as" "n \<notin> set bs" "set as \<inter> set bs = {}"
      "n \<notin> set fs" "set as \<inter> set fs = {}" "set bs \<inter> set fs = {}" "distinct fs"
    by (auto simp: list_inv_def dseg_mid)
  show ?thesis
  proof (cases bs)
    case Nil
    then show ?thesis
    proof (cases as rule: rev_cases)
      case as_Nil: Nil
      with Nil inv n segs show ?thesis
        by (auto simp: clh_list_remove_node_def list_inv_def list_lock_region_free relinks_def
          data_at_def fun_eq_iff same_config_def)
    next
      case (snoc as' a)
      with segs obtain nda where a: "cells H a = Some nda" "node_prev nd = Some a"
        by (auto simp: dseg_snoc split: option.splits)
      with snoc Nil inv n segs show ?thesis
        by (auto simp: clh_list_remove_node_def list_inv_def list_lock_region_free relinks_def
          data_at_def fun_eq_iff same_config_def dseg_snoc dseg_snoc2)
    qed
  next
    case (Cons b bs')
    with segs obtain ndb where b: "cells H b = Some ndb" "node_next nd = Some b"
      by (auto split: option.splits)
    show ?thesis
    proof (cases as rule: rev_cases)
      case Nil
      with Cons b inv n segs show ?thesis
        by (auto simp: clh_list_remove_node_def list_inv_def list_lock_region_free relinks_def
          data_at_def fun_eq_iff same_config_def)
    next
      case (snoc as' a)
      with segs obtain nda where a: "cells H a = Some nda" "node_prev nd = Some a"
        by (auto simp: dseg_snoc split: option.splits)
      with snoc Cons b inv n segs show ?thesis
        by (auto simp: clh_list_remove_node_def list_inv_def list_lock_region_free relinks_def
          data_at_def fun_eq_iff same_config_def dseg_snoc dseg_snoc2 dseg_mid)
    qed
  qed
qed

section \<open>Taking all nodes\<close>

lemma get_all_nodes_spec:
  assumes "list_inv H L xs fs"
  shows "\<exists>L'. clh_list_get_all_nodes (H, L) = Inr ((H, L'), (list_head L, list_tail L)) \<and>
           list_inv H L' [] fs \<and> chain (cells H) (list_head L) xs \<and> same_config L L'"
  using assms
  by (auto simp: clh_list_get_all_nodes_def list_lock_region_free list_inv_def same_config_def
      dseg_chain)

section \<open>The free list\<close>

lemma release_node_spec:
  assumes inv: "list_inv H L xs fs" and live: "cells H n = Some nd"
    and new: "n \<notin> set xs" "n \<notin> set fs"
  shows "\<exists>H' L'. clh_list_release_node (H, L) n = Inr (H', L') \<and> list_inv H' L' xs (n # fs) \<and>
           relinks {n} H H' \<and> same_config L L'"
  using assms
  by (auto simp: clh_list_release_node_def list_lock_region_free list_inv_def same_config_def
      relinks_def data_at_def fun_eq_iff)

lemma release_data_spec:
  assumes "list_inv H L xs fs" and "cells H n = Some nd" and "n \<notin> set xs" "n \<notin> set fs"
  shows "\<exists>H' L'. clh_list_release_data (H, L) n = Inr (H', L') \<and> list_inv H' L' xs (n # fs) \<and>
           relinks {n} H H' \<and> same_config L L'"
  using release_node_spec [OF assms]
  by (simp add: clh_list_release_data_def clh_list_node_from_data_def)

text \<open>
  A node comes from the free list, or is allocated when that is empty; either way every other
  node is as it was.
\<close>

definition takes_node ::
  "'a node_heap \<Rightarrow> 'a clh_list \<Rightarrow> nat list \<Rightarrow> nat \<Rightarrow> nat list \<Rightarrow> 'a node_heap \<Rightarrow> bool" where
  "takes_node H L fs n fs' H' \<longleftrightarrow>
     (\<forall>a. a \<noteq> n \<longrightarrow> cells H' a = cells H a) \<and> cells H' n \<noteq> None \<and>
     (fs = n # fs' \<and> brk H' = brk H \<and> data_at H' n = data_at H n \<or>
      fs = [] \<and> fs' = [] \<and> n = brk H \<and> brk H' = Suc (brk H) \<and>
      data_at H' n = Some (node_data (list_allocator L n)))"

lemma new_node_spec:
  assumes inv: "list_inv H L xs fs" and heap: "heap_inv H"
  shows "\<exists>H' L' n fs'. clh_list_new_node (H, L) = Inr ((H', L'), n) \<and> list_inv H' L' xs fs' \<and>
           takes_node H L fs n fs' H' \<and> n \<notin> set xs \<and> n \<notin> set fs' \<and> heap_inv H' \<and>
           same_config L L'"
proof (cases fs)
  case Nil
  have "brk H \<notin> set xs"
    using list_inv_bound [OF inv heap] by auto
  with Nil inv heap show ?thesis
    by (auto simp: clh_list_new_node_def list_lock_region_free list_inv_def same_config_def
        takes_node_def data_at_def clh_allocator_allocate_def hput_def heap_inv_def)
next
  case (Cons n fs')
  with inv obtain nd where n: "cells H n = Some nd"
    by (auto simp: list_inv_def split: option.splits)
  then have "n < brk H"
    using heap by (metis heap_inv_def not_le option.distinct(1))
  with n Cons inv heap show ?thesis
    by (auto simp: clh_list_new_node_def list_lock_region_free list_inv_def same_config_def
        takes_node_def data_at_def heap_inv_def)
qed

lemma takes_node_fresh:
  assumes "takes_node H L fs n fs' H'" and "heap_inv H" and "list_inv H L1 xs1 fs1"
    and "set fs \<inter> (set xs1 \<union> set fs1) = {}"
  shows "n \<notin> set xs1 \<union> set fs1" and "list_inv H' L1 xs1 fs1"
proof -
  show n: "n \<notin> set xs1 \<union> set fs1"
    using assms list_inv_bound [OF assms(3,2), of n] by (auto simp: takes_node_def)
  show "list_inv H' L1 xs1 fs1"
    using assms(1,3) n by (metis list_inv_cong takes_node_def)
qed

text \<open>
  Releasing a whole segment splices it in front of the free list; releasing nothing leaves the
  mutex held, and from then on every operation blocks for ever.
\<close>

lemma release_nodes_spec:
  assumes inv: "list_inv H L xs fs"
    and seg: "dseg (cells H) p (Some b) ys (Some e) q" "ys \<noteq> []"
    and new: "distinct ys" "set ys \<inter> (set xs \<union> set fs) = {}"
  shows "\<exists>H' L'. clh_list_release_nodes (H, L) (Some b) (Some e) = Inr (H', L') \<and>
           list_inv H' L' xs (ys @ fs) \<and> relinks {e} H H' \<and> same_config L L'"
proof -
  from seg obtain ys' where ys: "ys = ys' @ [e]"
    by (cases ys rule: rev_cases) (auto simp: dseg_snoc)
  with seg obtain nd where e: "cells H e = Some nd"
    by (auto simp: dseg_snoc split: option.splits)
  have splice: "chain (h(e \<mapsto> nd\<lparr>node_next := f\<rparr>)) c (zs @ e # fs)"
    if "dseg h p c (zs @ [e]) (Some e) q" "e \<notin> set zs" "e \<notin> set fs" "chain h f fs" for h p c zs f
    using that
    by (induction zs arbitrary: p c) (auto simp: dseg_snoc split: option.splits)
  have "chain ((cells H)(e \<mapsto> nd\<lparr>node_next := list_free_nodes L\<rparr>)) (Some b) (ys' @ e # fs)"
    using splice [of "cells H" p "Some b" ys' "list_free_nodes L"] seg inv new ys
    by (auto simp: list_inv_def)
  with inv seg new ys e show ?thesis
    by (auto simp: clh_list_release_nodes_def list_inv_def same_config_def relinks_def data_at_def
        fun_eq_iff)
qed

lemma release_nothing_keeps_lock:
  "\<not> list_mutex L \<Longrightarrow> beg = None \<or> fin = None \<Longrightarrow>
     clh_list_release_nodes (H, L) beg fin = Inr (H, L\<lparr>list_mutex := True\<rparr>)"
  by (auto simp: clh_list_release_nodes_def)

lemma locked_blocks:
  assumes "list_mutex L"
  shows "clh_list_push_node (H, L) n = Inl Deadlock"
    and "clh_list_new_node (H, L) = Inl Deadlock"
    and "clh_list_push_data (H, L) x = Inl Deadlock"
    and "clh_list_remove_node (H, L) n = Inl Deadlock"
    and "clh_list_get_all_nodes (H, L) = Inl Deadlock"
    and "clh_list_release_node (H, L) n = Inl Deadlock"
    and "clh_list_release_nodes (H, L) beg fin = Inl Deadlock"
  using assms
  by (simp_all add: clh_list_push_node_def clh_list_new_node_def clh_list_push_data_def
      clh_list_remove_node_def clh_list_get_all_nodes_def clh_list_release_node_def
      clh_list_release_nodes_def list_lock_region_def)

section \<open>Searching\<close>

lemma foreach_find_spec:
  assumes "chain (cells H) c xs" and "length xs \<le> fuel"
  shows "clh_list_foreach_find fuel H c P = Inr (List.find (\<lambda>a. P (the (data_at H a))) xs)"
  using assms
proof (induction xs arbitrary: c fuel)
  case Nil
  then show ?case by simp
next
  case (Cons x xs)
  then obtain k where "fuel = Suc k" by (cases fuel) auto
  with Cons show ?case by (auto simp: data_at_def split: option.splits)
qed

section \<open>Initialisation and destruction\<close>

lemma init_loop_spec:
  assumes "heap_inv H" and "list_inv H L [] fs"
  shows "\<exists>H' L'. clh_list_init_loop k (H, L) = (H', L') \<and> heap_inv H' \<and>
           list_inv H' L' [] (rev [brk H ..< brk H + k] @ fs) \<and> brk H' = brk H + k \<and>
           (\<forall>a < brk H. cells H' a = cells H a) \<and> same_config L L'"
  using assms
proof (induction k arbitrary: H L fs)
  case 0
  then show ?case by simp
next
  case (Suc k)
  let ?nd = "(list_allocator L (brk H))\<lparr>node_prev := None, node_next := list_free_nodes L\<rparr>"
  let ?H1 = "H\<lparr>brk := Suc (brk H), cells := (cells H)(brk H \<mapsto> ?nd)\<rparr>"
  let ?L1 = "L\<lparr>list_free_nodes := Some (brk H)\<rparr>"
  have "brk H \<notin> set fs"
    using list_inv_bound [OF Suc.prems(2,1)] by auto
  with Suc.prems have "heap_inv ?H1" "list_inv ?H1 ?L1 [] (brk H # fs)"
    by (auto simp: heap_inv_def list_inv_def)
  from Suc.IH [OF this] obtain H' L' where loop:
    "clh_list_init_loop k (?H1, ?L1) = (H', L')" "heap_inv H'"
    "list_inv H' L' [] (rev [Suc (brk H) ..< Suc (brk H) + k] @ brk H # fs)"
    "brk H' = Suc (brk H) + k" "\<forall>a < Suc (brk H). cells H' a = cells ?H1 a" "same_config ?L1 L'"
    by auto
  have "rev [Suc (brk H) ..< Suc (brk H) + k] @ brk H # fs = rev [brk H ..< brk H + Suc k] @ fs"
    by (simp add: upt_conv_Cons del: upt_Suc)
  with loop(3) have "list_inv H' L' [] (rev [brk H ..< brk H + Suc k] @ fs)"
    by (simp only:)
  moreover have "clh_list_init_loop (Suc k) (H, L) = clh_list_init_loop k (?H1, ?L1)"
    by (simp add: clh_allocator_allocate_def hput_def)
  ultimately show ?case
    using loop by (simp add: same_config_def del: upt_Suc clh_list_init_loop.simps)
qed

lemma init_spec:
  assumes "heap_inv H" and "arg_data_size args \<noteq> 0"
  shows "\<exists>H' L'. clh_list_init (H, L) args = (H', L') \<and> heap_inv H' \<and>
           list_inv H' L' [] (rev [brk H ..< brk H + arg_default_capacity args]) \<and>
           brk H' = brk H + arg_default_capacity args \<and>
           (\<forall>a < brk H. cells H' a = cells H a) \<and> list_allocator L' = arg_allocator args"
proof -
  let ?L = "\<lparr>list_head = None, list_tail = None, list_free_nodes = None, list_len = 0,
             list_data_size = arg_data_size args, list_mutex = clh_mutex_create,
             list_allocator = arg_allocator args\<rparr>"
  have "list_inv H ?L [] []" by (simp add: list_inv_def clh_mutex_create_def)
  from init_loop_spec [OF assms(1) this, of "arg_default_capacity args"] assms(2) show ?thesis
    by (auto simp: clh_list_init_def same_config_def)
qed

lemma free_loop_spec:
  assumes "chain (cells H) c xs" and "distinct xs" and "length xs \<le> fuel"
  shows "free_loop fuel H c k =
           Inr (H\<lparr>cells := (\<lambda>a. if a \<in> set xs then None else cells H a)\<rparr>, k + length xs)"
  using assms
proof (induction xs arbitrary: c fuel H k)
  case Nil
  then show ?case by simp
next
  case (Cons x xs)
  then obtain j nd where fuel: "fuel = Suc j" and x: "cells H x = Some nd"
    by (cases fuel) (auto split: option.splits)
  let ?H = "H\<lparr>cells := (cells H)(x := None)\<rparr>"
  have "free_loop j ?H (node_next nd) (Suc k) =
      Inr (?H\<lparr>cells := (\<lambda>a. if a \<in> set xs then None else cells ?H a)\<rparr>, Suc k + length xs)"
    using Cons.prems x fuel chain_upd_other [of x xs "cells H" None]
    by (intro Cons.IH) (simp_all add: fun_upd_def)
  moreover have "(\<lambda>a. if a \<in> set xs then None else cells ?H a)
      = (\<lambda>a. if a \<in> set (x # xs) then None else cells H a)"
    by auto
  ultimately show ?case
    using Cons.prems fuel x by (simp add: clh_allocator_free_def)
qed

lemma destroy_spec:
  assumes inv: "list_inv H L xs fs" and heap: "heap_inv H"
  shows "clh_list_destroy (H, L) =
     Inr (H\<lparr>cells := (\<lambda>a. if a \<in> set xs \<union> set fs then None else cells H a)\<rparr>, length xs)"
proof -
  let ?H = "H\<lparr>cells := (\<lambda>a. if a \<in> set xs then None else cells H a)\<rparr>"
  have len: "length xs \<le> brk H" "length fs \<le> brk H"
    using list_inv_length [OF inv heap] by auto
  have "chain (cells ?H) (list_free_nodes L) fs"
    using inv by (subst chain_cong [of fs _ "cells H"]) (auto simp: list_inv_def)
  then have "free_loop (brk H) ?H (list_free_nodes L) 0 =
      Inr (?H\<lparr>cells := (\<lambda>a. if a \<in> set fs then None else cells ?H a)\<rparr>, length fs)"
    using inv len free_loop_spec [of ?H "list_free_nodes L" fs "brk H" 0]
    by (auto simp: list_inv_def)
  moreover have "free_loop (brk H) H (list_head L) 0 = Inr (?H, length xs)"
    using inv len free_loop_spec [of H "list_head L" xs "brk H" 0]
    by (auto simp: list_inv_def dest: dseg_chain)
  ultimately show ?thesis
    using inv by (auto simp: clh_list_destroy_def list_inv_def fun_eq_iff)
qed

section \<open>Pushing data\<close>

lemma push_data_spec:
  assumes inv: "list_inv H L xs fs" and heap: "heap_inv H"
  shows "\<exists>H' L' n fs'. clh_list_push_data (H, L) x = Inr (H', L') \<and>
           list_inv H' L' (xs @ [n]) fs' \<and> heap_inv H' \<and> data_at H' n = Some x \<and>
           (fs = n # fs' \<or> fs = [] \<and> fs' = [] \<and> n = brk H) \<and> n \<notin> set xs \<and>
           (\<forall>a. a \<noteq> n \<longrightarrow> data_at H' a = data_at H a) \<and>
           (\<forall>a. a \<notin> insert n (set xs) \<longrightarrow> cells H' a = cells H a) \<and> brk H \<le> brk H' \<and>
           same_config L L'"
proof -
  from new_node_spec [OF inv heap] obtain H1 L1 n fs' where new:
    "clh_list_new_node (H, L) = Inr ((H1, L1), n)" "list_inv H1 L1 xs fs'"
    "takes_node H L fs n fs' H1" "n \<notin> set xs" "n \<notin> set fs'" "heap_inv H1" "same_config L L1"
    by blast
  then obtain nd where n: "cells H1 n = Some nd"
    by (auto simp: takes_node_def)
  let ?H2 = "H1\<lparr>cells := (cells H1)(n \<mapsto> nd\<lparr>node_data := x\<rparr>)\<rparr>"
  have inv2: "list_inv ?H2 L1 xs fs'"
    using new by (subst list_inv_cong [of xs fs' _ H1]) auto
  have heap2: "heap_inv ?H2"
    using new(6) n unfolding heap_inv_def by (auto intro: ccontr)
  have n2: "cells ?H2 n = Some (nd\<lparr>node_data := x\<rparr>)" by simp
  from push_node_spec [OF inv2 n2 new(4,5)] obtain H' L' where push:
    "clh_list_push_node (?H2, L1) n = Inr (H', L')" "list_inv H' L' (xs @ [n]) fs'"
    "relinks (insert n (set xs)) ?H2 H'" "same_config L1 L'"
    by blast
  have data: "data_at H' a = (if a = n then Some x else data_at H a)" for a
    using push(3) new(3) by (simp add: relinks_def takes_node_def data_at_def)
  have "clh_list_push_data (H, L) x = Inr (H', L')"
    using new(1) n push(1) by (simp add: clh_list_push_data_def)
  moreover have "heap_inv H'"
    by (rule relinks_heap_inv [OF push(3) heap2])
  moreover have "\<forall>a. a \<notin> insert n (set xs) \<longrightarrow> cells H' a = cells H a" "brk H \<le> brk H'"
    using push(3) new(3) by (auto simp: relinks_def takes_node_def)
  ultimately show ?thesis
    using push(2,4) new(3,4,7) data same_config_trans by (fastforce simp: takes_node_def)
qed

section \<open>A list as a queue of nodes\<close>

definition list_rep :: "'a list_state \<Rightarrow> nat list \<Rightarrow> nat list \<Rightarrow> bool" where
  "list_rep S xs fs \<longleftrightarrow> list_inv (fst S) (snd S) xs fs"

definition node_live :: "'a list_state \<Rightarrow> nat \<Rightarrow> bool" where
  "node_live S n \<longleftrightarrow> cells (fst S) n \<noteq> None"

lemma node_live_relinks: "relinks A H H' \<Longrightarrow> node_live (H', L') = node_live (H, L)"
  by (simp add: fun_eq_iff node_live_def relinks_live [of A H H'])

interpretation lq: node_queue list_rep node_live clh_list_push_node clh_list_pop_node
proof unfold_locales
  fix S :: "'a list_state" and xs fs and n
  obtain H L where S: "S = (H, L)" by (rule prod.exhaust)
  {
    assume "list_rep S xs fs" "node_live S n" "n \<notin> set xs \<union> set fs"
    then have inv: "list_inv H L xs fs" and live: "cells H n = Some (the (cells H n))"
      and new: "n \<notin> set xs" "n \<notin> set fs" by (auto simp: S list_rep_def node_live_def)
    from push_node_spec [OF inv live new] obtain H' L' where
      "clh_list_push_node (H, L) n = Inr (H', L')" "list_inv H' L' (xs @ [n]) fs"
      "relinks (insert n (set xs)) H H'" by blast
    then show "\<exists>S'. clh_list_push_node S n = Inr S' \<and> list_rep S' (xs @ [n]) fs \<and>
        node_live S' = node_live S"
      using node_live_relinks by (auto simp: S list_rep_def)
  next
    assume "list_rep S [] fs"
    then show "clh_list_pop_node S = Inr (S, None)"
      using pop_node_empty by (simp add: S list_rep_def)
  next
    assume "list_rep S (xs @ [n]) fs"
    then have "list_inv H L (xs @ [n]) fs" by (simp add: S list_rep_def)
    from pop_node_spec [OF this] obtain H' L' where
      "clh_list_pop_node (H, L) = Inr ((H', L'), Some n)" "list_inv H' L' xs fs"
      "relinks (insert n (set xs)) H H'" by blast
    then show "\<exists>S'. clh_list_pop_node S = Inr (S', Some n) \<and> list_rep S' xs fs \<and>
        node_live S' = node_live S"
      using node_live_relinks by (auto simp: S list_rep_def)
  }
qed

end
