(* ===== verification/Clh_Array.thy ===== *)
theory Clh_Array
  imports Clh_Prelude "HOL-Library.Multiset"
begin

text \<open>
  array.h: the growable array the macros implement. The memory behind \<open>ptr\<close> is a list of cells
  as long as the capacity, a cell nobody wrote is \<open>None\<close>, and an access outside is a fault. The
  abstraction reads the first \<open>len\<close> cells.
\<close>

section \<open>The code\<close>

record 'a clh_array =
  arr_ptr :: "'a option list"
  arr_cap :: nat
  arr_len :: nat

definition array_create :: "nat \<Rightarrow> 'a clh_array" where
  "array_create capacity =
     \<lparr>arr_ptr = replicate capacity None, arr_cap = capacity, arr_len = 0\<rparr>"

text \<open>The memory is freed; any later access is outside.\<close>

definition array_destroy :: "'a clh_array \<Rightarrow> 'a clh_array" where
  "array_destroy arr = arr\<lparr>arr_ptr := []\<rparr>"

text \<open>\<open>realloc\<close> keeps the contents up to the smaller of the two sizes.\<close>

definition c_realloc :: "'a option list \<Rightarrow> nat \<Rightarrow> 'a option list" where
  "c_realloc p n = take n p @ replicate (n - length p) None"

definition array_append :: "'a clh_array \<Rightarrow> 'a \<Rightarrow> 'a clh_array res" where
  "array_append arr elt =
     ebind (if arr_len arr + 1 \<ge> arr_cap arr then
              ebind (c_assert (arr_cap arr > 0)) (\<lambda>_.
              Inr (arr\<lparr>arr_cap := arr_cap arr * 2,
                       arr_ptr := c_realloc (arr_ptr arr) (arr_cap arr * 2)\<rparr>))
            else Inr arr) (\<lambda>arr.
     ebind (update_res (arr_ptr arr) (arr_len arr) (Some elt)) (\<lambda>p.
     Inr (arr\<lparr>arr_ptr := p, arr_len := arr_len arr + 1\<rparr>)))"

text \<open>The last element takes the place of the removed one.\<close>

definition array_remove :: "'a clh_array \<Rightarrow> nat \<Rightarrow> 'a clh_array res" where
  "array_remove arr idx =
     (if arr_len arr > 0 \<or> idx < arr_len arr then
        (let len = arr_len arr - 1 in
         ebind (nth_res (arr_ptr arr) len) (\<lambda>e.
         ebind (update_res (arr_ptr arr) idx e) (\<lambda>p.
         Inr (arr\<lparr>arr_ptr := p, arr_len := len\<rparr>))))
      else Inr arr)"

text \<open>The result is \<open>dest\<close> when \<open>ok\<close> is set.\<close>

definition array_pop :: "'a clh_array \<Rightarrow> ('a clh_array \<times> 'a option) res" where
  "array_pop arr =
     (if arr_len arr > 0 then
        (let arr = arr\<lparr>arr_len := arr_len arr - 1\<rparr> in
         ebind (nth_res (arr_ptr arr) (arr_len arr)) (\<lambda>e.
         ebind (initialised e) (\<lambda>x. Inr (arr, Some x))))
      else Inr (arr, None))"

definition array_resize :: "'a clh_array \<Rightarrow> nat \<Rightarrow> 'a clh_array" where
  "array_resize arr n =
     (let arr = (if arr_cap arr < n then arr\<lparr>arr_cap := n, arr_ptr := c_realloc (arr_ptr arr) n\<rparr>
                 else arr)
      in (if arr_len arr < n then arr\<lparr>arr_len := n\<rparr> else arr))"

text \<open>Reading \<open>ptr[idx]\<close>.\<close>

definition array_get :: "'a clh_array \<Rightarrow> nat \<Rightarrow> 'a res" where
  "array_get arr idx = ebind (nth_res (arr_ptr arr) idx) initialised"

section \<open>Invariant and contents\<close>

definition array_inv :: "'a clh_array \<Rightarrow> bool" where
  "array_inv arr \<longleftrightarrow> length (arr_ptr arr) = arr_cap arr \<and> 0 < arr_cap arr \<and>
     arr_len arr \<le> arr_cap arr \<and> (\<forall>i < arr_len arr. arr_ptr arr ! i \<noteq> None)"

definition array_list :: "'a clh_array \<Rightarrow> 'a list" where
  "array_list arr = map the (take (arr_len arr) (arr_ptr arr))"

lemma length_array_list: "array_inv arr \<Longrightarrow> length (array_list arr) = arr_len arr"
  by (simp add: array_inv_def array_list_def)

lemma array_list_nth:
  "array_inv arr \<Longrightarrow> i < arr_len arr \<Longrightarrow> arr_ptr arr ! i = Some (array_list arr ! i)"
  by (auto simp: array_inv_def array_list_def)

lemma array_create_inv: "0 < n \<Longrightarrow> array_inv (array_create n) \<and> array_list (array_create n) = []"
  by (simp add: array_inv_def array_create_def array_list_def)

lemma array_get_spec:
  "array_inv arr \<Longrightarrow> i < arr_len arr \<Longrightarrow> array_get arr i = Inr (array_list arr ! i)"
  using array_list_nth [of arr i] by (simp add: array_get_def array_inv_def)

lemma array_append_spec:
  assumes "array_inv arr"
  shows "\<exists>arr'. array_append arr x = Inr arr' \<and> array_inv arr' \<and>
           array_list arr' = array_list arr @ [x] \<and> arr_len arr' = Suc (arr_len arr)"
proof -
  define arr1 where "arr1 = (if arr_len arr + 1 \<ge> arr_cap arr
      then arr\<lparr>arr_cap := arr_cap arr * 2, arr_ptr := c_realloc (arr_ptr arr) (arr_cap arr * 2)\<rparr>
      else arr)"
  have inv1: "array_inv arr1" and room: "arr_len arr1 < arr_cap arr1"
    and len1: "arr_len arr1 = arr_len arr" and list1: "array_list arr1 = array_list arr"
    using assms by (auto simp: arr1_def array_inv_def c_realloc_def nth_append array_list_def)
  have "array_append arr x =
      Inr (arr1\<lparr>arr_ptr := (arr_ptr arr1)[arr_len arr1 := Some x], arr_len := arr_len arr1 + 1\<rparr>)"
    using assms inv1 room by (auto simp: array_append_def arr1_def array_inv_def)
  moreover have "take (Suc (arr_len arr1)) ((arr_ptr arr1)[arr_len arr1 := Some x])
      = take (arr_len arr1) (arr_ptr arr1) @ [Some x]"
    using inv1 room by (simp add: take_Suc_conv_app_nth array_inv_def)
  ultimately show ?thesis
    using inv1 room len1 list1
    by (auto simp: array_inv_def array_list_def nth_list_update)
qed

lemma array_remove_spec:
  assumes inv: "array_inv arr" and idx: "idx < arr_len arr"
  shows "\<exists>arr'. array_remove arr idx = Inr arr' \<and> array_inv arr' \<and>
           array_list arr' = butlast ((array_list arr)[idx := last (array_list arr)]) \<and>
           arr_len arr' = arr_len arr - 1"
proof -
  let ?n = "arr_len arr - 1" and ?p = "arr_ptr arr"
  have n: "?n < length ?p" "idx < length ?p" using inv idx by (auto simp: array_inv_def)
  have run: "array_remove arr idx = Inr (arr\<lparr>arr_ptr := ?p[idx := ?p ! ?n], arr_len := ?n\<rparr>)"
    using n idx by (simp add: array_remove_def Let_def)
  let ?xs = "array_list arr"
  have len: "length ?xs = arr_len arr" by (rule length_array_list [OF inv])
  have "last ?xs = ?xs ! ?n"
    using idx len last_conv_nth [of ?xs] by force
  then have "map the (take ?n (?p[idx := ?p ! ?n])) = butlast (?xs[idx := last ?xs])"
    using len n idx array_list_nth [OF inv]
    by (intro nth_equalityI) (auto simp: nth_butlast nth_list_update)
  then show ?thesis
    using run inv idx n by (auto simp: array_inv_def array_list_def nth_list_update)
qed

lemma mset_swap_remove:
  assumes "idx < length xs"
  shows "mset (butlast (xs[idx := last xs])) = mset xs - {#xs ! idx#}"
proof (cases xs rule: rev_cases)
  case (snoc ys y)
  with assms show ?thesis
    by (cases "idx < length ys")
      (auto simp: list_update_append mset_update nth_append less_Suc_eq not_less)
qed (use assms in simp)

lemma array_remove_mset:
  assumes "array_inv arr" and "idx < arr_len arr"
  shows "\<exists>arr'. array_remove arr idx = Inr arr' \<and> array_inv arr' \<and>
           mset (array_list arr') = mset (array_list arr) - {#array_list arr ! idx#} \<and>
           arr_len arr' = arr_len arr - 1"
  using array_remove_spec [OF assms] mset_swap_remove [of idx "array_list arr"] assms
  by (auto simp: length_array_list)

lemma array_pop_spec:
  assumes "array_inv arr"
  shows "array_pop arr =
           (if array_list arr = [] then Inr (arr, None)
            else Inr (arr\<lparr>arr_len := arr_len arr - 1\<rparr>, Some (last (array_list arr))))"
proof (cases "arr_len arr = 0")
  case False
  then have "array_list arr \<noteq> []" and "arr_len arr - 1 < arr_len arr"
    using length_array_list [OF assms] by auto
  then show ?thesis
    using array_list_nth [OF assms, of "arr_len arr - 1"] assms length_array_list [OF assms]
    by (simp add: array_pop_def array_inv_def last_conv_nth)
qed (use length_array_list [OF assms] in \<open>simp add: array_pop_def\<close>)

text \<open>
  The guard of the removal is a disjunction, so an index past the end does not stop it: the last
  element is dropped and a cell outside the contents, or outside the memory, is written.
\<close>

lemma array_remove_past_end:
  assumes "array_inv arr" and "0 < arr_len arr" and "arr_len arr \<le> idx"
  shows "array_remove arr idx =
           (if idx < arr_cap arr then
              Inr (arr\<lparr>arr_ptr := (arr_ptr arr)[idx := arr_ptr arr ! (arr_len arr - 1)],
                       arr_len := arr_len arr - 1\<rparr>)
            else Inl Out_Of_Bounds)"
  using assms by (auto simp: array_remove_def array_inv_def update_res_def Let_def)

end
