(* ===== verification/Clh_Ucp.thy ===== *)
theory Clh_Ucp
  imports Clh_Prelude
begin

text \<open>
  The interface of the UCP library the code calls. The library is not part of the sources: it is
  a parameter, a record of functions over a state \<open>'u\<close> that holds everything the library and
  the network keep (context, worker, matching queues, requests in flight). What the code relies
  on is stated as named predicates on that record where it is needed.
\<close>

datatype ucs_status = UCS_OK | UCS_INPROGRESS | UCS_ERR nat

text \<open>
  The three kinds of a \<open>ucs_status_ptr_t\<close>, told apart by the macros \<open>UCS_PTR_IS_ERR\<close> and
  \<open>UCS_PTR_IS_PTR\<close>: no request because the operation is complete, an error, a request.
\<close>

type_synonym ucp_request = nat

datatype ucs_status_ptr = Status_Complete | Status_Error nat | Status_Request ucp_request

fun UCS_PTR_IS_ERR :: "ucs_status_ptr \<Rightarrow> bool" where
  "UCS_PTR_IS_ERR (Status_Error e) = True"
| "UCS_PTR_IS_ERR _ = False"

fun UCS_PTR_IS_PTR :: "ucs_status_ptr \<Rightarrow> bool" where
  "UCS_PTR_IS_PTR (Status_Request r) = True"
| "UCS_PTR_IS_PTR _ = False"

record ucp_tag_recv_info =
  info_sender_tag :: clh_u64
  info_length :: clh_u64

type_synonym ucp_ep = nat
type_synonym bytes = "clh_u8 list"

record 'u ucp =
  ucp_mem_map :: "'u \<Rightarrow> mem_addr \<Rightarrow> clh_u64 \<Rightarrow> ucs_status \<times> ucp_mem_h \<times> 'u"
  ucp_mem_unmap :: "'u \<Rightarrow> ucp_mem_h \<Rightarrow> ucs_status \<times> 'u"
  ucp_tag_send_nbx ::
    "'u \<Rightarrow> ucp_ep \<Rightarrow> mem_addr \<Rightarrow> clh_u64 \<Rightarrow> clh_u64 \<Rightarrow> ucp_mem_h \<Rightarrow> ucs_status_ptr \<times> 'u"
  ucp_tag_recv_nbx ::
    "'u \<Rightarrow> mem_addr \<Rightarrow> clh_u64 \<Rightarrow> clh_u64 \<Rightarrow> clh_u64 \<Rightarrow> ucp_mem_h \<Rightarrow> ucs_status_ptr \<times> 'u"
  ucp_tag_msg_recv_nbx ::
    "'u \<Rightarrow> mem_addr \<Rightarrow> clh_u64 \<Rightarrow> ucp_tag_message_h \<Rightarrow> ucp_mem_h \<Rightarrow> ucs_status_ptr \<times> 'u"
  ucp_tag_probe_nb ::
    "'u \<Rightarrow> clh_u64 \<Rightarrow> clh_u64 \<Rightarrow> bool \<Rightarrow> ucp_tag_message_h \<times> ucp_tag_recv_info \<times> 'u"
  ucp_request_check_status :: "'u \<Rightarrow> ucp_request \<Rightarrow> ucs_status"
  ucp_tag_recv_request_test ::
    "'u \<Rightarrow> ucp_request \<Rightarrow> ucp_tag_recv_info option \<Rightarrow> ucs_status \<times> ucp_tag_recv_info option"
  ucp_request_free :: "'u \<Rightarrow> ucp_request \<Rightarrow> 'u"
  ucp_worker_progress :: "'u \<Rightarrow> clh_u64 \<times> 'u"
  ucp_config_read :: "'u \<Rightarrow> ucs_status \<times> nat \<times> 'u"
  ucp_config_release :: "'u \<Rightarrow> nat \<Rightarrow> 'u"
  ucp_init :: "'u \<Rightarrow> nat \<Rightarrow> clh_u32 \<Rightarrow> ucs_status \<times> 'u"
  ucp_worker_create :: "'u \<Rightarrow> ucs_status \<times> 'u"
  ucp_worker_get_address :: "'u \<Rightarrow> ucs_status \<times> bytes \<times> 'u"
  ucp_ep_create :: "'u \<Rightarrow> bytes \<Rightarrow> ucs_status \<times> ucp_ep \<times> 'u"
  ucp_ep_close_nbx :: "'u \<Rightarrow> ucp_ep \<Rightarrow> ucs_status_ptr \<times> 'u"
  ucp_worker_release_address :: "'u \<Rightarrow> 'u"
  ucp_worker_destroy :: "'u \<Rightarrow> 'u"
  ucp_cleanup :: "'u \<Rightarrow> 'u"

text \<open>log.c: \<open>check_ucx_\<close> is true for \<open>UCS_OK\<close> alone and otherwise prints the status.\<close>

definition check_ucx :: "ucs_status \<Rightarrow> bool" where
  "check_ucx status \<longleftrightarrow> status = UCS_OK"

end
