(* ===== verification/Clh_Buffer.thy ===== *)
theory Clh_Buffer
  imports Clh_Prelude
begin

text \<open>
  buffer.h and buffer.c: a buffer is an address and a length; the builder appends bytes to the
  memory of a buffer. Memory is a map from addresses to bytes, so that the address arithmetic of
  \<open>clh_bb_append\<close> is the code's.
\<close>

section \<open>The code\<close>

record clh_buffer =
  buf_mem :: mem_addr
  buf_len :: clh_u64

type_synonym memory = "mem_addr \<Rightarrow> clh_u8"

text \<open>
  A builder points to a buffer: \<open>bb_buffer\<close> is the address of the \<open>CLH_Buffer\<close> structure.
\<close>

record clh_buffer_builder =
  bb_buffer :: mem_addr
  bb_pos :: clh_u64

text \<open>\<open>malloc\<close> chose the address.\<close>

definition clh_buf_create :: "mem_addr \<Rightarrow> clh_u64 \<Rightarrow> clh_buffer" where
  "clh_buf_create malloc_result len = \<lparr>buf_mem = malloc_result, buf_len = len\<rparr>"

definition clh_bb_create :: "mem_addr \<Rightarrow> clh_buffer_builder" where
  "clh_bb_create buffer = \<lparr>bb_buffer = buffer, bb_pos = 0\<rparr>"

text \<open>
  A \<open>CLH_Buffer\<close> in memory: the address in the first eight bytes, the length in the next eight,
  little-endian (the layout of an LP64 machine).
\<close>

definition load64 :: "memory \<Rightarrow> mem_addr \<Rightarrow> clh_u64" where
  "load64 M a = word_rcat (map (\<lambda>i. M (a + of_nat i)) (rev [0..<8]))"

definition sizeof_clh_buffer :: clh_u64 where
  "sizeof_clh_buffer = 16"

definition load_buffer :: "memory \<Rightarrow> mem_addr \<Rightarrow> clh_buffer" where
  "load_buffer M a = \<lparr>buf_mem = load64 M a, buf_len = load64 M (a + 8)\<rparr>"

fun memcpy :: "memory \<Rightarrow> mem_addr \<Rightarrow> clh_u8 list \<Rightarrow> memory" where
  "memcpy M dest [] = M"
| "memcpy M dest (b # bs) = memcpy (M(dest := b)) (dest + 1) bs"

text \<open>
  The bytes appended are \<open>data[0..count)\<close>, so \<open>count\<close> is their number; the sum and the
  comparison are those of \<open>size_t\<close>. The destination is \<open>&bb->buffer[bb->pos]\<close>, which indexes an
  array of \<open>CLH_Buffer\<close> structures at \<open>bb->buffer\<close>.
\<close>

definition clh_bb_append ::
  "memory \<Rightarrow> clh_buffer_builder \<Rightarrow> clh_u8 list \<Rightarrow> memory \<times> clh_buffer_builder \<times> bool" where
  "clh_bb_append M bb data =
     (let count = of_nat (length data) in
      if bb_pos bb + count \<ge> buf_len (load_buffer M (bb_buffer bb)) then (M, bb, False)
      else (memcpy M (bb_buffer bb + bb_pos bb * sizeof_clh_buffer) data,
            bb\<lparr>bb_pos := bb_pos bb + count\<rparr>, True))"

section \<open>What the builder does\<close>

lemma memcpy_spec:
  "length bs \<le> 2 ^ 64 \<Longrightarrow>
     memcpy M d bs a = (if unat (a - d) < length bs then bs ! unat (a - d) else M a)"
proof (induction bs arbitrary: M d)
  case (Cons b bs)
  define M1 where "M1 = M(d := b)"
  have M1: "M1 d = b" "a \<noteq> d \<Longrightarrow> M1 a = M a" by (simp_all add: M1_def)
  have step: "memcpy M d (b # bs) = memcpy M1 (d + 1) bs" by (simp add: M1_def)
  note ih = Cons.IH [of M1 "d + 1"]
  show ?case
  proof (cases "a = d")
    case True
    have "unat (a - (d + 1)) = 2 ^ 64 - 1" using True by (simp add: unsigned_minus_1_eq_mask mask_eq_exp_minus_1)
    then show ?thesis using ih Cons.prems True M1 unfolding step by simp
  next
    case False
    then have nz: "a - d \<noteq> 0" by simp
    then have "unat (a - d) \<noteq> 0" by (simp only: unsigned_eq_0_iff not_False_eq_True)
    then have "unat (a - d) = Suc (unat (a - d - 1))"
      unfolding unat_minus_one [OF nz] by simp
    moreover have "a - (d + 1) = a - d - 1" by simp
    ultimately obtain k where k: "unat (a - (d + 1)) = k" "unat (a - d) = Suc k"
      by metis
    have "memcpy M1 (d + 1) bs a = (if k < length bs then bs ! k else M a)"
      using ih Cons.prems M1(2) [OF False] unfolding k by simp
    then show ?thesis unfolding step k by simp
  qed
qed simp

text \<open>An append that would fill the buffer to its last byte is refused.\<close>

lemma append_refused:
  "buf_len (load_buffer M (bb_buffer bb)) \<le> bb_pos bb + of_nat (length data) \<Longrightarrow>
     clh_bb_append M bb data = (M, bb, False)"
  by (simp add: clh_bb_append_def Let_def)

text \<open>
  An append that is accepted writes its bytes at \<open>pos\<close> structures past the address of the
  \<open>CLH_Buffer\<close> the builder points to; every other byte of memory stays, among them the bytes of
  the buffer's own memory unless they lie there too.
\<close>

lemma append_accepted:
  assumes "bb_pos bb + of_nat (length data) < buf_len (load_buffer M (bb_buffer bb))"
    and "length data \<le> 2 ^ 64"
  shows "\<exists>M'. clh_bb_append M bb data = (M', bb\<lparr>bb_pos := bb_pos bb + of_nat (length data)\<rparr>, True) \<and>
     (\<forall>a. let i = unat (a - (bb_buffer bb + bb_pos bb * 16)) in
        M' a = (if i < length data then data ! i else M a))"
proof -
  have "clh_bb_append M bb data =
      (memcpy M (bb_buffer bb + bb_pos bb * sizeof_clh_buffer) data,
       bb\<lparr>bb_pos := bb_pos bb + of_nat (length data)\<rparr>, True)"
    using assms(1) by (simp add: clh_bb_append_def Let_def)
  then show ?thesis by (simp add: memcpy_spec [OF assms(2)] sizeof_clh_buffer_def Let_def)
qed

text \<open>The first eight bytes appended replace the pointer to the buffer's memory.\<close>

lemma append_overwrites_pointer:
  assumes "bb_pos bb = 0" and "length data = 8" and "8 < buf_len (load_buffer M (bb_buffer bb))"
  shows "\<exists>M' bb'. clh_bb_append M bb data = (M', bb', True) \<and>
     buf_mem (load_buffer M' (bb_buffer bb)) = word_rcat (rev data)"
proof -
  from append_accepted [of bb data M] assms obtain M' where
    run: "clh_bb_append M bb data = (M', bb\<lparr>bb_pos := bb_pos bb + of_nat (length data)\<rparr>, True)" and
    M': "\<forall>a. let i = unat (a - (bb_buffer bb + bb_pos bb * 16)) in
        M' a = (if i < length data then data ! i else M a)"
    by auto
  have "M' (bb_buffer bb + of_nat i) = data ! i" if "i < 8" for i
    using M' assms that by (simp add: Let_def unsigned_of_nat take_bit_nat_eq_self)
  then have "map (\<lambda>i. M' (bb_buffer bb + of_nat i)) (rev [0..<8]) = map (\<lambda>i. data ! i) (rev [0..<8])"
    by (intro map_cong) auto
  also have "\<dots> = rev (map (\<lambda>i. data ! i) [0..<length data])" using assms(2) by (simp add: rev_map)
  also have "\<dots> = rev data" by (simp add: map_nth)
  finally show ?thesis using run by (simp add: load_buffer_def load64_def)
qed

end
