(* ===== verification/Clh_Cache.thy ===== *)
theory Clh_Cache
  imports Clh_Ucp Clh_Buffer "HOL-Library.Tree"
begin

text \<open>
  cache.h and cache.c: the cache of registered memory, a binary search tree of nodes keyed by
  the address of a buffer, whose nodes come from an arena of blocks. The code walks the tree with
  a pointer to the link it is about to follow; here such a pointer is a \<open>slot\<close>. The modelled
  configuration is the one the sources select (\<open>CONF_USE_BUFFER_CACHE_NODE_ALLOCATOR\<close>).
\<close>

section \<open>Data\<close>

record clh_buffer_cache_entry =
  entry_memh :: ucp_mem_h
  entry_mem :: mem_addr

text \<open>A node is the element \<open>mem[i]\<close> of the block number \<open>b\<close> of the arena.\<close>

type_synonym cnode_addr = "nat \<times> nat"

record clh_buffer_cache_node =
  node_value :: clh_buffer_cache_entry
  node_left :: "cnode_addr option"
  node_right :: "cnode_addr option"

text \<open>
  The arena: the chain of blocks from \<open>first_block\<close> to \<open>last_block\<close>, of which only the counts
  are kept, and what has been written to the nodes.
\<close>

record clh_buffer_cache_node_allocator =
  block_counts :: "nat list"
  block_size :: nat

record clh_buffer_cache =
  cache_data :: "cnode_addr option"
  cache_size :: clh_u64
  cache_capacity :: clh_u64
  cache_mutex :: clh_mutex
  cache_allocator :: clh_buffer_cache_node_allocator
  cache_nodes :: "cnode_addr \<Rightarrow> clh_buffer_cache_node option"

section \<open>The arena\<close>

definition buffer_cache_node_allocator_create ::
  "nat \<Rightarrow> clh_buffer_cache_node_allocator" where
  "buffer_cache_node_allocator_create bsize = \<lparr>block_counts = [0], block_size = bsize\<rparr>"

text \<open>A new block is chained behind the last one when that is full.\<close>

definition buffer_cache_node_allocator_create_node ::
  "clh_buffer_cache_node_allocator \<Rightarrow> cnode_addr \<times> clh_buffer_cache_node_allocator" where
  "buffer_cache_node_allocator_create_node A =
     (let cs = (if last (block_counts A) \<ge> block_size A then block_counts A @ [0]
                else block_counts A)
      in ((length cs - 1, last cs), A\<lparr>block_counts := butlast cs @ [Suc (last cs)]\<rparr>))"

text \<open>
  Destruction unmaps the handle of every node the arena ever gave out, block by block; a failing
  unmap is only printed.
\<close>

fun unmap_nodes ::
  "'u ucp \<Rightarrow> (cnode_addr \<Rightarrow> clh_buffer_cache_node option) \<Rightarrow> cnode_addr list \<Rightarrow> 'u \<Rightarrow> 'u res" where
  "unmap_nodes U N [] u = Inr u"
| "unmap_nodes U N (a # as) u =
     ebind (initialised (N a)) (\<lambda>nd.
     unmap_nodes U N as (snd (ucp_mem_unmap U u (entry_memh (node_value nd)))))"

definition arena_nodes :: "clh_buffer_cache_node_allocator \<Rightarrow> cnode_addr list" where
  "arena_nodes A =
     concat (map (\<lambda>b. map (Pair b) [0..<block_counts A ! b]) [0..<length (block_counts A)])"

definition buffer_cache_node_allocator_destroy ::
  "'u ucp \<Rightarrow> clh_buffer_cache_node_allocator \<Rightarrow>
     (cnode_addr \<Rightarrow> clh_buffer_cache_node option) \<Rightarrow> 'u \<Rightarrow> 'u res" where
  "buffer_cache_node_allocator_destroy U A N u = unmap_nodes U N (arena_nodes A) u"

section \<open>Creation and destruction\<close>

definition CACHE_BLOCK_SIZE :: nat where
  "CACHE_BLOCK_SIZE = 8192"

definition clh_buffer_cache_create :: "clh_u64 \<Rightarrow> clh_buffer_cache" where
  "clh_buffer_cache_create capacity =
     \<lparr>cache_data = None, cache_size = 0, cache_capacity = 0, cache_mutex = clh_mutex_create,
      cache_allocator = buffer_cache_node_allocator_create CACHE_BLOCK_SIZE,
      cache_nodes = (\<lambda>_. None)\<rparr>"

definition clh_buffer_cache_destroy ::
  "'u ucp \<Rightarrow> clh_buffer_cache \<Rightarrow> 'u \<Rightarrow> (bool \<times> 'u) res" where
  "clh_buffer_cache_destroy U C u =
     ebind (clh_mutex_destroy (cache_mutex C)) (\<lambda>_.
     ebind (buffer_cache_node_allocator_destroy U (cache_allocator C) (cache_nodes C) u) (\<lambda>u.
     Inr (True, u)))"

section \<open>Slots\<close>

datatype slot = Slot_Root | Slot_Left cnode_addr | Slot_Right cnode_addr

definition cnode_get :: "clh_buffer_cache \<Rightarrow> cnode_addr \<Rightarrow> clh_buffer_cache_node res" where
  "cnode_get C a = (case cache_nodes C a of None \<Rightarrow> Inl Dangling | Some nd \<Rightarrow> Inr nd)"

definition cnode_put ::
  "clh_buffer_cache \<Rightarrow> cnode_addr \<Rightarrow> clh_buffer_cache_node \<Rightarrow> clh_buffer_cache" where
  "cnode_put C a nd = C\<lparr>cache_nodes := (cache_nodes C)(a \<mapsto> nd)\<rparr>"

fun slot_read :: "clh_buffer_cache \<Rightarrow> slot \<Rightarrow> cnode_addr option res" where
  "slot_read C Slot_Root = Inr (cache_data C)"
| "slot_read C (Slot_Left a) = ebind (cnode_get C a) (\<lambda>nd. Inr (node_left nd))"
| "slot_read C (Slot_Right a) = ebind (cnode_get C a) (\<lambda>nd. Inr (node_right nd))"

fun slot_write :: "clh_buffer_cache \<Rightarrow> slot \<Rightarrow> cnode_addr option \<Rightarrow> clh_buffer_cache res" where
  "slot_write C Slot_Root p = Inr (C\<lparr>cache_data := p\<rparr>)"
| "slot_write C (Slot_Left a) p =
     ebind (cnode_get C a) (\<lambda>nd. Inr (cnode_put C a (nd\<lparr>node_left := p\<rparr>)))"
| "slot_write C (Slot_Right a) p =
     ebind (cnode_get C a) (\<lambda>nd. Inr (cnode_put C a (nd\<lparr>node_right := p\<rparr>)))"

text \<open>Fuel for the walks: the number of nodes the arena gave out.\<close>

definition cache_fuel :: "clh_buffer_cache \<Rightarrow> nat" where
  "cache_fuel C = sum_list (block_counts (cache_allocator C))"

section \<open>Search\<close>

fun buffer_cache_search_loop ::
  "nat \<Rightarrow> clh_buffer_cache \<Rightarrow> slot \<Rightarrow> mem_addr \<Rightarrow> slot res" where
  "buffer_cache_search_loop fuel C cur mem =
     ebind (slot_read C cur) (\<lambda>p.
     case p of
       None \<Rightarrow> Inr cur
     | Some a \<Rightarrow>
        (case fuel of
           0 \<Rightarrow> Inl Diverges
         | Suc k \<Rightarrow>
            ebind (cnode_get C a) (\<lambda>nd.
            if mem < entry_mem (node_value nd) then
              buffer_cache_search_loop k C (Slot_Left a) mem
            else if mem > entry_mem (node_value nd) then
              buffer_cache_search_loop k C (Slot_Right a) mem
            else ebind (c_assert (mem = entry_mem (node_value nd))) (\<lambda>_. Inr cur))))"

declare buffer_cache_search_loop.simps [simp del]

definition buffer_cache_search :: "clh_buffer_cache \<Rightarrow> clh_buffer \<Rightarrow> slot res" where
  "buffer_cache_search C buffer =
     buffer_cache_search_loop (cache_fuel C) C Slot_Root (buf_mem buffer)"

definition cache_lock_region ::
  "clh_buffer_cache \<Rightarrow> (clh_buffer_cache \<Rightarrow> (clh_buffer_cache \<times> 'r) res) \<Rightarrow>
     (clh_buffer_cache \<times> 'r) res" where
  "cache_lock_region C body =
     ebind (clh_lock_region_init (cache_mutex C)) (\<lambda>m.
     ebind (body (C\<lparr>cache_mutex := m\<rparr>)) (\<lambda>(C, r).
     ebind (clh_lock_region_end (cache_mutex C)) (\<lambda>m.
     Inr (C\<lparr>cache_mutex := m\<rparr>, r))))"

section \<open>Registration\<close>

definition null_entry :: clh_buffer_cache_entry where
  "null_entry = \<lparr>entry_memh = 0, entry_mem = 0\<rparr>"

definition clh_buffer_cache_register_or_get ::
  "'u ucp \<Rightarrow> clh_buffer_cache \<Rightarrow> 'u \<Rightarrow> clh_buffer \<Rightarrow>
     (clh_buffer_cache \<times> 'u \<times> clh_buffer_cache_entry) res" where
  "clh_buffer_cache_register_or_get U C u buffer =
     (if buf_mem buffer = 0 then Inr (C, u, null_entry)
      else
       ebind (cache_lock_region C (\<lambda>C.
         ebind (buffer_cache_search C buffer) (\<lambda>node.
         ebind (slot_read C node) (\<lambda>p.
         case p of
           None \<Rightarrow>
             (case ucp_mem_map U u (buf_mem buffer) (buf_len buffer) of
                (status, memh, u) \<Rightarrow>
                  if check_ucx status then
                    (let (a, A) = buffer_cache_node_allocator_create_node (cache_allocator C);
                         value = \<lparr>entry_memh = memh, entry_mem = buf_mem buffer\<rparr>;
                         C = C\<lparr>cache_allocator := A\<rparr>
                     in ebind (slot_write C node (Some a)) (\<lambda>C.
                        let C = cnode_put C a
                                  \<lparr>node_value = value, node_left = None, node_right = None\<rparr>
                        in ebind (c_assert (entry_mem value = buf_mem buffer)) (\<lambda>_.
                           Inr (C, u, value))))
                  else Inr (C, u, null_entry))
         | Some a \<Rightarrow>
             ebind (cnode_get C a) (\<lambda>nd.
             ebind (c_assert (entry_mem (node_value nd) = buf_mem buffer)) (\<lambda>_.
             Inr (C, u, node_value nd)))))))
       (\<lambda>(C, u, result).
       ebind (c_assert (entry_mem result = buf_mem buffer)) (\<lambda>_.
       Inr (C, u, result))))"

section \<open>Removal\<close>

fun leftmost_loop :: "nat \<Rightarrow> clh_buffer_cache \<Rightarrow> slot \<Rightarrow> slot res" where
  "leftmost_loop fuel C node =
     ebind (slot_read C node) (\<lambda>p.
     case p of
       None \<Rightarrow> Inr node
     | Some a \<Rightarrow> (case fuel of 0 \<Rightarrow> Inl Diverges | Suc k \<Rightarrow> leftmost_loop k C (Slot_Left a)))"

declare leftmost_loop.simps [simp del]

text \<open>The node itself stays in the arena.\<close>

definition remove_node :: "clh_buffer_cache \<Rightarrow> slot \<Rightarrow> clh_buffer_cache res" where
  "remove_node C node =
     ebind (slot_read C node) (\<lambda>p.
     ebind (deref p) (\<lambda>a.
     ebind (cnode_get C a) (\<lambda>nd.
     let left = node_left nd; right = node_right nd in
     ebind (slot_write C node right) (\<lambda>C.
     ebind (leftmost_loop (cache_fuel C) C node) (\<lambda>node.
     slot_write C node left)))))"

definition clh_buffer_cache_unregister ::
  "'u ucp \<Rightarrow> clh_buffer_cache \<Rightarrow> 'u \<Rightarrow> clh_buffer \<Rightarrow> (clh_buffer_cache \<times> 'u \<times> bool) res" where
  "clh_buffer_cache_unregister U C u buffer =
     cache_lock_region C (\<lambda>C.
       ebind (buffer_cache_search C buffer) (\<lambda>node.
       ebind (slot_read C node) (\<lambda>p.
       case p of
         None \<Rightarrow> Inr (C, u, False)
       | Some a \<Rightarrow>
           ebind (cnode_get C a) (\<lambda>nd.
           case ucp_mem_unmap U u (entry_memh (node_value nd)) of
             (status, u) \<Rightarrow>
               if \<not> check_ucx status then Inr (C, u, False)
               else ebind (remove_node C node) (\<lambda>C. Inr (C, u, True))))))"

text \<open>The lock region has already unlocked when the explicit unlock runs.\<close>

definition clh_buffer_cache_is_registered ::
  "clh_buffer_cache \<Rightarrow> clh_buffer \<Rightarrow> (clh_buffer_cache \<times> bool) res" where
  "clh_buffer_cache_is_registered C buffer =
     ebind (cache_lock_region C (\<lambda>C.
       ebind (buffer_cache_search C buffer) (\<lambda>node. Inr (C, node)))) (\<lambda>(C, node).
     ebind (clh_mutex_unlock (cache_mutex C)) (\<lambda>m.
     ebind (slot_read (C\<lparr>cache_mutex := m\<rparr>) node) (\<lambda>p.
     Inr (C\<lparr>cache_mutex := m\<rparr>, p \<noteq> None))))"

end
