(* ===== verification/Clh_Pmi.thy ===== *)
theory Clh_Pmi
  imports Clh_Prelude
begin

text \<open>
  pmi.h and pmi.c: the wrapper over PMIx that tells a process its rank and the number of
  processes and that publishes and fetches the worker addresses. PMIx itself is not part of the
  sources and is a parameter: a record of functions over the state \<open>'u\<close> of everything outside
  the program.
\<close>

section \<open>The PMIx interface\<close>

datatype pmix_status = PMIX_SUCCESS | PMIX_ERR int

record pmix_proc =
  proc_nspace :: string
  proc_rank :: clh_u32

text \<open>The two arms of \<open>pmix_value_t\<close> the code reads or writes.\<close>

datatype pmix_value = Pmix_Uint32 clh_u32 | Pmix_Byte_Object "clh_u8 list"

record 'u pmix =
  PMIX_RANK_WILDCARD :: clh_u32
  PMIX_JOB_SIZE :: string
  PMIx_Init :: "'u \<Rightarrow> pmix_status \<times> pmix_proc \<times> 'u"
  PMIx_Get :: "'u \<Rightarrow> pmix_proc \<Rightarrow> string \<Rightarrow> pmix_status \<times> pmix_value \<times> 'u"
  PMIx_Put :: "'u \<Rightarrow> string \<Rightarrow> pmix_value \<Rightarrow> pmix_status \<times> 'u"
  PMIx_Commit :: "'u \<Rightarrow> pmix_status \<times> 'u"
  PMIx_Fence :: "'u \<Rightarrow> pmix_proc \<Rightarrow> bool \<Rightarrow> pmix_status \<times> 'u"
  PMIx_Finalize :: "'u \<Rightarrow> pmix_status \<times> 'u"

section \<open>The code\<close>

datatype clh_pmi_status = CLH_PMI_STATUS_SUCCESS | CLH_PMI_STATUS_ERROR

record clh_pmi =
  pmi_node_id :: clh_i32
  pmi_nb_nodes :: clh_u32
  pmi_proc :: pmix_proc
  pmi_proc_wild :: pmix_proc

text \<open>A failing status is printed.\<close>

definition check_pmi :: "pmix_status \<Rightarrow> bool" where
  "check_pmi status \<longleftrightarrow> status = PMIX_SUCCESS"

definition pmi_result :: "pmix_status \<Rightarrow> clh_pmi_status" where
  "pmi_result status =
     (if \<not> check_pmi status then CLH_PMI_STATUS_ERROR else CLH_PMI_STATUS_SUCCESS)"

text \<open>\<open>pmi0\<close> is what the fresh structure holds.\<close>

definition clh_pmi_init ::
  "'u pmix \<Rightarrow> clh_pmi \<Rightarrow> 'u \<Rightarrow> (clh_pmi \<times> 'u \<times> clh_pmi_status) res" where
  "clh_pmi_init P pmi0 u =
     (case PMIx_Init P u of (status, proc, u) \<Rightarrow>
        let pmi = pmi0\<lparr>pmi_proc := proc\<rparr> in
        if \<not> check_pmi status then Inr (pmi, u, CLH_PMI_STATUS_ERROR)
        else
          let pmi = pmi\<lparr>pmi_proc_wild := \<lparr>proc_nspace = proc_nspace proc,
                                           proc_rank = PMIX_RANK_WILDCARD P\<rparr>,
                        pmi_node_id := proc_rank proc\<rparr> in
          (case PMIx_Get P u (pmi_proc_wild pmi) (PMIX_JOB_SIZE P) of (status, value, u) \<Rightarrow>
             if \<not> check_pmi status then Inr (pmi, u, CLH_PMI_STATUS_ERROR)
             else (case value of
                     Pmix_Uint32 n \<Rightarrow>
                       Inr (pmi\<lparr>pmi_nb_nodes := n\<rparr>, u, CLH_PMI_STATUS_SUCCESS)
                   | Pmix_Byte_Object _ \<Rightarrow> Inl Wrong_Union_Arm)))"

definition clh_pmi_finalize :: "'u pmix \<Rightarrow> clh_pmi \<Rightarrow> 'u \<Rightarrow> 'u \<times> clh_pmi_status" where
  "clh_pmi_finalize P pmi u =
     (case PMIx_Finalize P u of (status, u) \<Rightarrow> (u, pmi_result status))"

definition clh_pmi_put ::
  "'u pmix \<Rightarrow> 'u \<Rightarrow> string \<Rightarrow> clh_u8 list \<Rightarrow> nat \<Rightarrow> ('u \<times> clh_pmi_status) res" where
  "clh_pmi_put P u key value len =
     (if len \<le> length value then
        (case PMIx_Put P u key (Pmix_Byte_Object (take len value)) of (status, u) \<Rightarrow>
           Inr (u, pmi_result status))
      else Inl Out_Of_Bounds)"

text \<open>
  The value is copied into the caller's buffer, given and returned as a list of bytes; a value
  longer than the buffer runs over its end. The rank is left in \<open>proc\<close>.
\<close>

definition clh_pmi_get ::
  "'u pmix \<Rightarrow> clh_pmi \<Rightarrow> 'u \<Rightarrow> clh_i32 \<Rightarrow> string \<Rightarrow> clh_u8 list \<Rightarrow>
     (clh_pmi \<times> 'u \<times> clh_u8 list \<times> nat \<times> clh_pmi_status) res" where
  "clh_pmi_get P pmi u node_id key value =
     (let pmi = pmi\<lparr>pmi_proc := \<lparr>proc_nspace = proc_nspace (pmi_proc pmi),
                                 proc_rank = node_id\<rparr>\<rparr> in
      case PMIx_Get P u (pmi_proc pmi) key of (status, pmi_value, u) \<Rightarrow>
        if \<not> check_pmi status then Inr (pmi, u, value, 0, CLH_PMI_STATUS_ERROR)
        else (case pmi_value of
                Pmix_Byte_Object bs \<Rightarrow>
                  (if length bs \<le> length value then
                     Inr (pmi, u, bs @ drop (length bs) value, length bs, CLH_PMI_STATUS_SUCCESS)
                   else Inl Out_Of_Bounds)
              | Pmix_Uint32 _ \<Rightarrow> Inl Wrong_Union_Arm))"

definition clh_pmi_fence :: "'u pmix \<Rightarrow> clh_pmi \<Rightarrow> 'u \<Rightarrow> 'u \<times> clh_pmi_status" where
  "clh_pmi_fence P pmi u =
     (case PMIx_Fence P u (pmi_proc_wild pmi) False of (status, u) \<Rightarrow> (u, pmi_result status))"

definition clh_pmi_sync :: "'u pmix \<Rightarrow> clh_pmi \<Rightarrow> 'u \<Rightarrow> 'u \<times> clh_pmi_status" where
  "clh_pmi_sync P pmi u =
     (case PMIx_Commit P u of (status, u) \<Rightarrow>
        if \<not> check_pmi status then (u, CLH_PMI_STATUS_ERROR)
        else (case PMIx_Fence P u (pmi_proc_wild pmi) True of (status, u) \<Rightarrow>
                (u, pmi_result status)))"

text \<open>Decimal output, as \<open>%d\<close> prints it.\<close>

fun decimal_nat :: "nat \<Rightarrow> string" where
  "decimal_nat n =
     (if n < 10 then [char_of (48 + n)]
      else decimal_nat (n div 10) @ [char_of (48 + n mod 10)])"

declare decimal_nat.simps [simp del]

definition decimal_int :: "int \<Rightarrow> string" where
  "decimal_int i = (if i < 0 then ''-'' @ decimal_nat (nat (- i)) else decimal_nat (nat i))"

definition clh_pmi_make_key :: "clh_i32 \<Rightarrow> string" where
  "clh_pmi_make_key node_id = ''CLH_AV_'' @ decimal_int (sint node_id)"

definition PMI_VALUE_SIZE :: nat where
  "PMI_VALUE_SIZE = 1024"

text \<open>The static buffer \<open>value\<close> is an argument and the result.\<close>

definition clh_pmi_make_value ::
  "clh_u8 list \<Rightarrow> clh_u8 list \<Rightarrow> nat \<Rightarrow> clh_u8 list res" where
  "clh_pmi_make_value value mem len =
     ebind (c_assert (len < PMI_VALUE_SIZE)) (\<lambda>_.
     if len \<le> length mem then Inr (take len mem @ 0 # drop (Suc len) value)
     else Inl Out_Of_Bounds)"

definition clh_pmi_nb_nodes :: "clh_pmi \<Rightarrow> clh_u32" where
  [simp]: "clh_pmi_nb_nodes pmi = pmi_nb_nodes pmi"

definition clh_pmi_node_id :: "clh_pmi \<Rightarrow> clh_i32" where
  [simp]: "clh_pmi_node_id pmi = pmi_node_id pmi"

section \<open>Keys of different ranks differ\<close>

fun parse_decimal :: "string \<Rightarrow> nat" where
  "parse_decimal cs = foldl (\<lambda>n c. 10 * n + (of_char c - 48)) 0 cs"

lemma parse_decimal_nat: "parse_decimal (decimal_nat n) = n"
proof (induction n rule: decimal_nat.induct)
  case (1 n)
  then show ?case
    by (cases "n < 10") (simp_all add: decimal_nat.simps [of n] of_char_of)
qed

lemma decimal_nat_inj: "decimal_nat m = decimal_nat n \<Longrightarrow> m = n"
  by (metis parse_decimal_nat)

lemma decimal_nat_digits: "c \<in> set (decimal_nat n) \<Longrightarrow> 48 \<le> (of_char c :: nat)"
proof (induction n rule: decimal_nat.induct)
  case (1 n)
  then show ?case
    by (cases "n < 10") (auto simp: decimal_nat.simps [of n] of_char_of)
qed

lemma decimal_nat_no_sign: "decimal_nat n \<noteq> CHR ''-'' # cs"
proof
  assume "decimal_nat n = CHR ''-'' # cs"
  then have "48 \<le> (of_char (CHR ''-'') :: nat)"
    using decimal_nat_digits [of "CHR ''-''" n] by simp
  then show False by simp
qed

lemma decimal_int_inj: "decimal_int i = decimal_int j \<Longrightarrow> i = j"
  using decimal_nat_inj [of "nat (- i)" "nat (- j)"] decimal_nat_inj [of "nat i" "nat j"]
    decimal_nat_no_sign [of "nat i"] decimal_nat_no_sign [of "nat j"]
  by (auto simp: decimal_int_def split: if_splits) metis+

lemma make_key_inj: "clh_pmi_make_key m = clh_pmi_make_key n \<Longrightarrow> m = n"
  by (auto simp: clh_pmi_make_key_def dest!: decimal_int_inj intro: signed_word_eqI)

end
