(* ===== verification/Clh_Handle.thy ===== *)
theory Clh_Handle
  imports Clh_Protocol Clh_List_Props Clh_Array Clh_Cache Clh_Pmi
begin

text \<open>
  The data of clh.h: requests, messages, operations in flight and the handle that holds
  everything the library keeps, with the accessors of a request.
\<close>

section \<open>Requests\<close>

datatype clh_request_type =
  CLH_REQUEST_TYPE_SEND | CLH_REQUEST_TYPE_RECV | CLH_REQUEST_TYPE_PROBE

text \<open>The request types are an enumeration, so families of queues are finite and can be listed.\<close>

instantiation clh_request_type :: enum
begin

definition enum_clh_request_type :: "clh_request_type list" where
  "enum_clh_request_type =
     [CLH_REQUEST_TYPE_SEND, CLH_REQUEST_TYPE_RECV, CLH_REQUEST_TYPE_PROBE]"

definition enum_all_clh_request_type :: "(clh_request_type \<Rightarrow> bool) \<Rightarrow> bool" where
  "enum_all_clh_request_type P \<longleftrightarrow>
     P CLH_REQUEST_TYPE_SEND \<and> P CLH_REQUEST_TYPE_RECV \<and> P CLH_REQUEST_TYPE_PROBE"

definition enum_ex_clh_request_type :: "(clh_request_type \<Rightarrow> bool) \<Rightarrow> bool" where
  "enum_ex_clh_request_type P \<longleftrightarrow>
     P CLH_REQUEST_TYPE_SEND \<or> P CLH_REQUEST_TYPE_RECV \<or> P CLH_REQUEST_TYPE_PROBE"

instance
proof
  show types: "(UNIV :: clh_request_type set) = set enum_class.enum"
    by (auto simp: enum_clh_request_type_def intro: clh_request_type.exhaust)
  show "distinct (enum_class.enum :: clh_request_type list)"
    by (simp add: enum_clh_request_type_def)
  show "enum_class.enum_all P \<longleftrightarrow> Ball UNIV P" for P :: "clh_request_type \<Rightarrow> bool"
    unfolding types by (simp add: enum_all_clh_request_type_def enum_clh_request_type_def)
  show "enum_class.enum_ex P \<longleftrightarrow> Bex UNIV P" for P :: "clh_request_type \<Rightarrow> bool"
    unfolding types by (simp add: enum_ex_clh_request_type_def enum_clh_request_type_def)
qed

end

text \<open>
  The three arms of the union in \<open>CLH_Request\<close>. A member the code does not assign when it fills
  an arm is optional and \<open>None\<close> until it is assigned.
\<close>

record clh_probe_data =
  probe_result :: bool
  probe_remove :: bool
  probe_tag :: clh_u64
  probe_tag_mask :: clh_u64
  probe_sender_tag :: "clh_u64 option"
  probe_buffer_len :: "clh_u64 option"
  probe_msg :: ucp_tag_message_h

record clh_send_data =
  send_buffer :: clh_buffer
  send_tag :: clh_u64
  send_dest :: clh_u32

record clh_recv_data =
  recv_buffer :: clh_buffer
  recv_tag :: clh_u64
  recv_tag_mask :: clh_u64
  recv_infos :: "ucp_tag_recv_info option"
  recv_msg :: ucp_tag_message_h

datatype clh_request_data =
  Probe_Data clh_probe_data | Send_Data clh_send_data | Recv_Data clh_recv_data

text \<open>
  Reading an arm other than the one last filled yields the bytes of that other arm; it is a
  fault here.
\<close>

fun probe_arm :: "clh_request_data \<Rightarrow> clh_probe_data res" where
  "probe_arm (Probe_Data d) = Inr d"
| "probe_arm _ = Inl Wrong_Union_Arm"

fun send_arm :: "clh_request_data \<Rightarrow> clh_send_data res" where
  "send_arm (Send_Data d) = Inr d"
| "send_arm _ = Inl Wrong_Union_Arm"

fun recv_arm :: "clh_request_data \<Rightarrow> clh_recv_data res" where
  "recv_arm (Recv_Data d) = Inr d"
| "recv_arm _ = Inl Wrong_Union_Arm"

text \<open>
  The mutex and the condition variable of a request serve \<open>clh_wait\<close> and the completion; they
  are modelled with these in Clh\_Wait.
\<close>

record clh_request =
  req_type :: clh_request_type
  req_completed :: bool
  req_channel :: clh_u32
  req_source :: clh_i32
  req_tag :: clh_u32
  req_data :: clh_request_data

section \<open>Messages and operations\<close>

record clh_message =
  msg_channel :: clh_u32
  msg_sender_id :: clh_i32
  msg_sender_tag :: clh_u32
  msg_full_tag :: clh_u64
  msg_buffer_len :: clh_u64
  msg_msg :: ucp_tag_message_h

text \<open>A request is known by the address of its node.\<close>

record clh_op =
  op_status_ptr :: ucs_status_ptr
  op_request :: nat

definition CLH_MAX_CHANNELS :: nat where
  "CLH_MAX_CHANNELS = 256"

datatype clh_status =
    CLH_STATUS_SUCCESS
  | CLH_STATUS_PMI_ERROR
  | CLH_STATUS_MEMORY_REGISTRATION_ERROR
  | CLH_STATUS_REQUEST_FAILURE
  | CLH_STATUS_ERROR

section \<open>The handle\<close>

text \<open>
  \<open>h_world\<close> is the state of everything outside the program: the UCP context and worker, PMIx
  and the other processes. All request queues share the heap \<open>h_requests\<close> and all message lists
  the heap \<open>h_messages\<close>. An endpoint not yet created is \<open>None\<close>.
\<close>

record 'u clh_handle =
  h_pmi :: clh_pmi
  h_world :: 'u
  h_address :: bytes
  h_endpoints :: "ucp_ep option list"
  h_buffer_cache :: clh_buffer_cache
  h_run :: bool
  h_requests :: "clh_request node_heap"
  h_request_queues :: "clh_request_type \<Rightarrow> clh_request clh_list"
  h_ops_queue :: "clh_op clh_array"
  h_messages :: "clh_message node_heap"
  h_recv_list :: "clh_message clh_list list"
  h_send_count :: clh_u64

definition clh_node_id :: "'u clh_handle \<Rightarrow> clh_i32" where
  "clh_node_id h = clh_pmi_node_id (h_pmi h)"

definition clh_nb_nodes :: "'u clh_handle \<Rightarrow> clh_u32" where
  "clh_nb_nodes h = clh_pmi_nb_nodes (h_pmi h)"

text \<open>A queue operation within the handle.\<close>

definition queue_state :: "'u clh_handle \<Rightarrow> clh_request_type \<Rightarrow> clh_request list_state" where
  "queue_state h ty = (h_requests h, h_request_queues h ty)"

definition set_queue ::
  "'u clh_handle \<Rightarrow> clh_request_type \<Rightarrow> clh_request list_state \<Rightarrow> 'u clh_handle" where
  "set_queue h ty S =
     h\<lparr>h_requests := fst S, h_request_queues := (h_request_queues h)(ty := snd S)\<rparr>"

definition get_request :: "'u clh_handle \<Rightarrow> nat \<Rightarrow> clh_request res" where
  "get_request h r = ebind (hget (h_requests h) r) (\<lambda>nd. Inr (node_data nd))"

definition upd_request ::
  "'u clh_handle \<Rightarrow> nat \<Rightarrow> (clh_request \<Rightarrow> clh_request) \<Rightarrow> 'u clh_handle res" where
  "upd_request h r f =
     ebind (hupd (h_requests h) r (\<lambda>nd. nd\<lparr>node_data := f (node_data nd)\<rparr>)) (\<lambda>H.
     Inr (h\<lparr>h_requests := H\<rparr>))"

section \<open>Accessors\<close>

definition clh_request_completed :: "'u clh_handle \<Rightarrow> nat \<Rightarrow> bool res" where
  "clh_request_completed h r = ebind (get_request h r) (\<lambda>q. Inr (req_completed q))"

definition clh_request_buffer_len :: "'u clh_handle \<Rightarrow> nat \<Rightarrow> clh_u64 res" where
  "clh_request_buffer_len h r =
     ebind (get_request h r) (\<lambda>q.
     ebind (probe_arm (req_data q)) (\<lambda>d. initialised (probe_buffer_len d)))"

definition clh_request_channel :: "'u clh_handle \<Rightarrow> nat \<Rightarrow> clh_u32 res" where
  "clh_request_channel h r = ebind (get_request h r) (\<lambda>q. Inr (req_channel q))"

definition clh_request_source :: "'u clh_handle \<Rightarrow> nat \<Rightarrow> clh_i32 res" where
  "clh_request_source h r = ebind (get_request h r) (\<lambda>q. Inr (req_source q))"

definition clh_request_tag :: "'u clh_handle \<Rightarrow> nat \<Rightarrow> clh_u32 res" where
  "clh_request_tag h r = ebind (get_request h r) (\<lambda>q. Inr (req_tag q))"

definition clh_probe_result :: "'u clh_handle \<Rightarrow> nat \<Rightarrow> bool res" where
  "clh_probe_result h r =
     ebind (get_request h r) (\<lambda>q.
     ebind (probe_arm (req_data q)) (\<lambda>d. Inr (probe_result d)))"

section \<open>Searching the received messages\<close>

text \<open>The first message, oldest first, whose tag agrees with the pattern under the mask.\<close>

definition message_search ::
  "clh_message list_state \<Rightarrow> clh_u64 \<Rightarrow> clh_u64 \<Rightarrow> (clh_message list_state \<times> node_ptr) res" where
  "message_search S tag tag_mask =
     list_lock_region S (\<lambda>(H, L).
       ebind (clh_list_foreach_find (brk H) H (list_head L)
                (\<lambda>msg. msg_full_tag msg AND tag_mask = tag AND tag_mask)) (\<lambda>result.
       Inr ((H, L), result)))"

end
