(* ===== verification/Clh_Ucx.thy ===== *)
theory Clh_Ucx
  imports Clh_Handle
begin

text \<open>
  ucx.c: the set-up and tear-down of the UCP context, worker and endpoints, the blocking wait on
  a UCP request, and the posting of sends and receives.
\<close>

section \<open>Initialisation\<close>

text \<open>The context and worker are part of the world; a status is returned with each step.\<close>

definition init_ucp_context ::
  "'u ucp \<Rightarrow> 'u clh_handle \<Rightarrow> 'u clh_handle \<times> clh_status" where
  "init_ucp_context U h =
     (case ucp_config_read U (h_world h) of (status, config, u) \<Rightarrow>
        if \<not> check_ucx status then (h\<lparr>h_world := u\<rparr>, CLH_STATUS_ERROR)
        else (case ucp_init U u config (clh_nb_nodes h) of (status, u) \<Rightarrow>
                if \<not> check_ucx status then
                  (h\<lparr>h_world := ucp_config_release U u config\<rparr>, CLH_STATUS_ERROR)
                else (h\<lparr>h_world := ucp_config_release U u config\<rparr>, CLH_STATUS_SUCCESS)))"

definition init_ucp_worker ::
  "'u ucp \<Rightarrow> 'u clh_handle \<Rightarrow> 'u clh_handle \<times> clh_status" where
  "init_ucp_worker U h =
     (case ucp_worker_create U (h_world h) of (status, u) \<Rightarrow>
        if \<not> check_ucx status then (h\<lparr>h_world := u\<rparr>, CLH_STATUS_ERROR)
        else (h\<lparr>h_world := u\<rparr>, CLH_STATUS_SUCCESS))"

definition PEER_ADDR_SIZE :: nat where
  "PEER_ADDR_SIZE = 1024"

text \<open>
  The loop over the ranks. The own rank is compared as a \<open>size_t\<close>. The address of a peer is
  fetched twice and only the second status is looked at.
\<close>

fun init_endpoints_loop ::
  "'u ucp \<Rightarrow> 'u pmix \<Rightarrow> clh_i32 \<Rightarrow> nat list \<Rightarrow> 'u clh_handle \<Rightarrow> ('u clh_handle \<times> clh_status) res"
where
  "init_endpoints_loop U P this_node_id [] h = Inr (h, CLH_STATUS_SUCCESS)"
| "init_endpoints_loop U P this_node_id (node_id # ns) h =
     (if node_id = unat (scast this_node_id :: clh_u64)
      then init_endpoints_loop U P this_node_id ns h
      else
        let peer_addr = replicate PEER_ADDR_SIZE 0;
            key = clh_pmi_make_key (of_nat node_id) in
        ebind (clh_pmi_get P (h_pmi h) (h_world h) (of_nat node_id) key peer_addr)
          (\<lambda>(pmi, u, peer_addr, _, _).
        ebind (clh_pmi_get P pmi u (of_nat node_id) key peer_addr)
          (\<lambda>(pmi, u, peer_addr, _, status).
        if status \<noteq> CLH_PMI_STATUS_SUCCESS then
          Inr (h\<lparr>h_pmi := pmi, h_world := u\<rparr>, CLH_STATUS_ERROR)
        else
          (case ucp_ep_create U u peer_addr of (status, ep, u) \<Rightarrow>
             if \<not> check_ucx status then
               Inr (h\<lparr>h_pmi := pmi, h_world := u\<rparr>, CLH_STATUS_ERROR)
             else
               ebind (update_res (h_endpoints h) node_id (Some ep)) (\<lambda>eps.
               init_endpoints_loop U P this_node_id ns
                 (h\<lparr>h_pmi := pmi, h_world := u, h_endpoints := eps\<rparr>))))))"

definition init_ucp_endpoints ::
  "'u ucp \<Rightarrow> 'u pmix \<Rightarrow> 'u clh_handle \<Rightarrow> ('u clh_handle \<times> clh_status) res" where
  "init_ucp_endpoints U P h =
     (case ucp_worker_get_address U (h_world h) of (status, address, u) \<Rightarrow>
        let h = h\<lparr>h_world := u, h_address := address\<rparr> in
        if \<not> check_ucx status then Inr (h, CLH_STATUS_ERROR)
        else
          let this_node_id = clh_node_id h; nb_nodes = unat (clh_nb_nodes h);
              key = clh_pmi_make_key this_node_id in
          ebind (clh_pmi_make_value (replicate PMI_VALUE_SIZE 0) address (length address))
            (\<lambda>value.
          ebind (clh_pmi_put P (h_world h) key value (length address)) (\<lambda>(u, status).
          let h = h\<lparr>h_world := u\<rparr> in
          if status \<noteq> CLH_PMI_STATUS_SUCCESS then Inr (h, CLH_STATUS_ERROR)
          else
            let h = h\<lparr>h_world := fst (clh_pmi_sync P (h_pmi h) (h_world h)),
                      h_endpoints := replicate nb_nodes None\<rparr> in
            init_endpoints_loop U P this_node_id [0..<nb_nodes] h)))"

definition init_cache :: "'u clh_handle \<Rightarrow> 'u clh_handle \<times> clh_status" where
  "init_cache h = (h\<lparr>h_buffer_cache := clh_buffer_cache_create 8\<rparr>, CLH_STATUS_SUCCESS)"

definition ucx_init ::
  "'u ucp \<Rightarrow> 'u pmix \<Rightarrow> 'u clh_handle \<Rightarrow> ('u clh_handle \<times> clh_status) res" where
  "ucx_init U P h =
     (case init_ucp_context U h of (h, status) \<Rightarrow>
      if status \<noteq> CLH_STATUS_SUCCESS then Inr (h, status)
      else (case init_ucp_worker U h of (h, status) \<Rightarrow>
      if status \<noteq> CLH_STATUS_SUCCESS then Inr (h, status)
      else ebind (init_ucp_endpoints U P h) (\<lambda>(h, status).
      if status \<noteq> CLH_STATUS_SUCCESS then Inr (h, status)
      else (case init_cache h of (h, status) \<Rightarrow>
      if status \<noteq> CLH_STATUS_SUCCESS then Inr (h, status)
      else Inr (h, status)))))"

section \<open>Waiting on a request, tear-down\<close>

text \<open>The loop polls for as long as the request is in progress; \<open>fuel\<close> bounds the polls.\<close>

fun ucx_wait_loop :: "nat \<Rightarrow> 'u ucp \<Rightarrow> 'u \<Rightarrow> ucp_request \<Rightarrow> ('u \<times> clh_status) res" where
  "ucx_wait_loop fuel U u r =
     (case ucp_request_check_status U u r of
        UCS_INPROGRESS \<Rightarrow>
          (case fuel of 0 \<Rightarrow> Inl Diverges
           | Suc k \<Rightarrow> ucx_wait_loop k U (snd (ucp_worker_progress U u)) r)
      | UCS_OK \<Rightarrow> Inr (ucp_request_free U u r, CLH_STATUS_SUCCESS)
      | UCS_ERR e \<Rightarrow> Inr (u, CLH_STATUS_REQUEST_FAILURE))"

declare ucx_wait_loop.simps [simp del]

definition ucx_wait ::
  "nat \<Rightarrow> 'u ucp \<Rightarrow> 'u clh_handle \<Rightarrow> ucs_status_ptr \<Rightarrow> ('u clh_handle \<times> clh_status) res" where
  "ucx_wait fuel U h status_ptr =
     (case status_ptr of
        Status_Error e \<Rightarrow> Inr (h, CLH_STATUS_REQUEST_FAILURE)
      | Status_Complete \<Rightarrow> Inr (h, CLH_STATUS_SUCCESS)
      | Status_Request r \<Rightarrow>
          ebind (ucx_wait_loop fuel U (h_world h) r) (\<lambda>(u, status).
          Inr (h\<lparr>h_world := u\<rparr>, status)))"

fun close_endpoints_loop ::
  "nat \<Rightarrow> 'u ucp \<Rightarrow> clh_i32 \<Rightarrow> nat list \<Rightarrow> 'u clh_handle \<Rightarrow> ('u clh_handle \<times> clh_status) res"
where
  "close_endpoints_loop fuel U this_node_id [] h = Inr (h, CLH_STATUS_SUCCESS)"
| "close_endpoints_loop fuel U this_node_id (node_id # ns) h =
     (if node_id = unat (scast this_node_id :: clh_u64)
      then close_endpoints_loop fuel U this_node_id ns h
      else
        ebind (nth_res (h_endpoints h) node_id) (\<lambda>ep.
        ebind (initialised ep) (\<lambda>ep.
        case ucp_ep_close_nbx U (h_world h) ep of (status_ptr, u) \<Rightarrow>
          let h = h\<lparr>h_world := u\<rparr> in
          if UCS_PTR_IS_ERR status_ptr then Inr (h, CLH_STATUS_ERROR)
          else ebind (ucx_wait fuel U h status_ptr) (\<lambda>(h, _).
               close_endpoints_loop fuel U this_node_id ns h))))"

definition ucx_finalize ::
  "nat \<Rightarrow> 'u ucp \<Rightarrow> 'u clh_handle \<Rightarrow> ('u clh_handle \<times> clh_status) res" where
  "ucx_finalize fuel U h =
     ebind (clh_buffer_cache_destroy U (h_buffer_cache h) (h_world h)) (\<lambda>(ok, u).
     let h = h\<lparr>h_world := u\<rparr> in
     if \<not> ok then Inr (h, CLH_STATUS_ERROR)
     else
       ebind (close_endpoints_loop fuel U (clh_node_id h) [0..<unat (clh_nb_nodes h)] h)
         (\<lambda>(h, status).
       if status \<noteq> CLH_STATUS_SUCCESS then Inr (h, status)
       else
         Inr (h\<lparr>h_endpoints := [],
                h_world := ucp_cleanup U (ucp_worker_destroy U
                             (ucp_worker_release_address U (h_world h)))\<rparr>,
              CLH_STATUS_SUCCESS)))"

section \<open>Posting\<close>

definition ucx_send ::
  "'u ucp \<Rightarrow> 'u clh_handle \<Rightarrow> nat \<Rightarrow> ucp_mem_h \<Rightarrow> ('u clh_handle \<times> ucs_status_ptr) res" where
  "ucx_send U h request memh =
     ebind (get_request h request) (\<lambda>q.
     ebind (send_arm (req_data q)) (\<lambda>d.
     ebind (nth_res (h_endpoints h) (unat (send_dest d))) (\<lambda>ep.
     ebind (initialised ep) (\<lambda>ep.
     case ucp_tag_send_nbx U (h_world h) ep (buf_mem (send_buffer d)) (buf_len (send_buffer d))
            (send_tag d) memh of
       (status_ptr, u) \<Rightarrow> Inr (h\<lparr>h_world := u\<rparr>, status_ptr)))))"

definition ucx_recv ::
  "'u ucp \<Rightarrow> 'u clh_handle \<Rightarrow> nat \<Rightarrow> ucp_mem_h \<Rightarrow> ('u clh_handle \<times> ucs_status_ptr) res" where
  "ucx_recv U h request memh =
     ebind (get_request h request) (\<lambda>q.
     ebind (recv_arm (req_data q)) (\<lambda>d.
     case (if recv_msg d \<noteq> 0 then
             ucp_tag_msg_recv_nbx U (h_world h) (buf_mem (recv_buffer d))
               (buf_len (recv_buffer d)) (recv_msg d) memh
           else
             ucp_tag_recv_nbx U (h_world h) (buf_mem (recv_buffer d))
               (buf_len (recv_buffer d)) (recv_tag d) (recv_tag_mask d) memh) of
       (status_ptr, u) \<Rightarrow> Inr (h\<lparr>h_world := u\<rparr>, status_ptr)))"

end
