(* ===== verification/Clh_Run.thy ===== *)
theory Clh_Run
  imports Clh_Ucx
begin

text \<open>
  The worker of clh.c: the thread that owns the UCP worker, probes for incoming messages, posts
  the queued sends and receives, drives progress and completes operations. The configuration is
  the one the sources select: \<open>CONF_SEND_THRESH\<close>, \<open>CONF_PROBE_THRESH\<close> and
  \<open>CONF_PROGRESS_COUNT\<close> defined, \<open>CONF_WORKER_WAIT\<close> not. A \<open>TRACER\<close> region runs its body.
\<close>

definition CONF_PROGRESS_COUNT :: nat where "CONF_PROGRESS_COUNT = 1"
definition CONF_PROBE_THRESH :: nat where "CONF_PROBE_THRESH = 1"
definition CONF_SEND_THRESH :: nat where "CONF_SEND_THRESH = 1024"

section \<open>Completion\<close>

text \<open>\<open>CLH_COMPLETE_REQUEST\<close>; the signalling it does is modelled in Clh\_Wait.\<close>

definition complete_request :: "'u clh_handle \<Rightarrow> nat \<Rightarrow> 'u clh_handle res" where
  "complete_request h r = upd_request h r (\<lambda>q. q\<lparr>req_completed := True\<rparr>)"

definition validate_status_ptr ::
  "'u clh_handle \<Rightarrow> clh_op \<Rightarrow> ('u clh_handle \<times> bool) res" where
  "validate_status_ptr h op =
     (if UCS_PTR_IS_ERR (op_status_ptr op) then Inr (h, False)
      else if \<not> UCS_PTR_IS_PTR (op_status_ptr op) then
        ebind (complete_request h (op_request op)) (\<lambda>h. Inr (h, True))
      else
        ebind (array_append (h_ops_queue h) op) (\<lambda>ops. Inr (h\<lparr>h_ops_queue := ops\<rparr>, True)))"

section \<open>The send queue\<close>

text \<open>The body of the loop for one popped node, up to the increment of the counter.\<close>

definition process_send_one ::
  "'u ucp \<Rightarrow> 'u clh_handle \<Rightarrow> nat \<Rightarrow> ('u clh_handle \<times> clh_status) res" where
  "process_send_one U h node =
     ebind (get_request h node) (\<lambda>q.
     ebind (send_arm (req_data q)) (\<lambda>d.
     ebind (clh_buffer_cache_register_or_get U (h_buffer_cache h) (h_world h) (send_buffer d))
       (\<lambda>(C, u, bce).
     let h = h\<lparr>h_buffer_cache := C, h_world := u\<rparr> in
     if entry_mem bce \<noteq> buf_mem (send_buffer d) then
       Inr (h, CLH_STATUS_MEMORY_REGISTRATION_ERROR)
     else
       ebind (ucx_send U h node (entry_memh bce)) (\<lambda>(h, status_ptr).
       ebind (validate_status_ptr h \<lparr>op_status_ptr = status_ptr, op_request = node\<rparr>) (\<lambda>(h, ok).
       if \<not> ok then Inr (h, CLH_STATUS_REQUEST_FAILURE)
       else Inr (h\<lparr>h_send_count := h_send_count h + 1\<rparr>, CLH_STATUS_SUCCESS))))))"

fun process_send_loop ::
  "nat \<Rightarrow> 'u ucp \<Rightarrow> 'u clh_handle \<Rightarrow> ('u clh_handle \<times> clh_status) res" where
  "process_send_loop fuel U h =
     (if \<not> h_send_count h < of_nat CONF_SEND_THRESH then Inr (h, CLH_STATUS_SUCCESS)
      else
        (case fuel of
           0 \<Rightarrow> Inl Diverges
         | Suc k \<Rightarrow>
             ebind (clh_list_pop_node (queue_state h CLH_REQUEST_TYPE_SEND)) (\<lambda>(S, node).
             let h = set_queue h CLH_REQUEST_TYPE_SEND S in
             (case node of
                None \<Rightarrow> Inr (h, CLH_STATUS_SUCCESS)
              | Some node \<Rightarrow>
                  ebind (process_send_one U h node) (\<lambda>(h, status).
                  if status \<noteq> CLH_STATUS_SUCCESS then Inr (h, status)
                  else process_send_loop k U h)))))"

declare process_send_loop.simps [simp del]

text \<open>At most \<open>CONF_SEND_THRESH\<close> iterations fit below the threshold.\<close>

definition process_send_queue ::
  "'u ucp \<Rightarrow> 'u clh_handle \<Rightarrow> ('u clh_handle \<times> clh_status) res" where
  "process_send_queue U h =
     (if list_head (h_request_queues h CLH_REQUEST_TYPE_SEND) = None
      then Inr (h, CLH_STATUS_SUCCESS)
      else process_send_loop CONF_SEND_THRESH U h)"

section \<open>The receive queue\<close>

text \<open>
  A receive that carries no message looks among the received messages of the channel its request
  records, and takes the message it finds.
\<close>

definition match_received ::
  "'u clh_handle \<Rightarrow> nat \<Rightarrow> 'u clh_handle res" where
  "match_received h cur =
     ebind (get_request h cur) (\<lambda>q.
     ebind (recv_arm (req_data q)) (\<lambda>d.
     ebind (nth_res (h_recv_list h) (unat (req_channel q))) (\<lambda>L.
     ebind (message_search (h_messages h, L) (recv_tag d) (recv_tag_mask d)) (\<lambda>((H, L), node).
     let h = h\<lparr>h_messages := H, h_recv_list := (h_recv_list h)[unat (req_channel q) := L]\<rparr> in
     (case node of
        None \<Rightarrow> Inr h
      | Some n \<Rightarrow>
          ebind (hget (h_messages h) n) (\<lambda>nd.
          let msg = node_data nd in
          ebind (upd_request h cur (\<lambda>q. q\<lparr>req_data := Recv_Data (d\<lparr>recv_msg := msg_msg msg\<rparr>),
                   req_channel := msg_channel msg, req_source := msg_sender_id msg,
                   req_tag := msg_sender_tag msg\<rparr>)) (\<lambda>h.
          ebind (nth_res (h_recv_list h) (unat (msg_channel msg))) (\<lambda>L.
          ebind (clh_list_remove_node (h_messages h, L) n) (\<lambda>(H, L).
          Inr (h\<lparr>h_messages := H,
                 h_recv_list := (h_recv_list h)[unat (msg_channel msg) := L]\<rparr>))))))))))"

definition process_recv_one ::
  "'u ucp \<Rightarrow> 'u clh_handle \<Rightarrow> nat \<Rightarrow> ('u clh_handle \<times> clh_status) res" where
  "process_recv_one U h cur =
     ebind (get_request h cur) (\<lambda>q.
     ebind (recv_arm (req_data q)) (\<lambda>d.
     ebind (clh_buffer_cache_register_or_get U (h_buffer_cache h) (h_world h) (recv_buffer d))
       (\<lambda>(C, u, bce).
     let h = h\<lparr>h_buffer_cache := C, h_world := u\<rparr> in
     if entry_mem bce \<noteq> buf_mem (recv_buffer d) then
       Inr (h, CLH_STATUS_MEMORY_REGISTRATION_ERROR)
     else
       ebind (if recv_msg d = 0 then match_received h cur else Inr h) (\<lambda>h.
       ebind (ucx_recv U h cur (entry_memh bce)) (\<lambda>(h, status_ptr).
       ebind (validate_status_ptr h \<lparr>op_status_ptr = status_ptr, op_request = cur\<rparr>) (\<lambda>(h, ok).
       if \<not> ok then Inr (h, CLH_STATUS_REQUEST_FAILURE)
       else Inr (h, CLH_STATUS_SUCCESS)))))))"

text \<open>The link to the next node is read after the node has been processed.\<close>

fun process_recv_loop ::
  "nat \<Rightarrow> 'u ucp \<Rightarrow> 'u clh_handle \<Rightarrow> node_ptr \<Rightarrow> ('u clh_handle \<times> clh_status) res" where
  "process_recv_loop fuel U h None = Inr (h, CLH_STATUS_SUCCESS)"
| "process_recv_loop 0 U h (Some cur) = Inl Diverges"
| "process_recv_loop (Suc k) U h (Some cur) =
     ebind (process_recv_one U h cur) (\<lambda>(h, status).
     if status \<noteq> CLH_STATUS_SUCCESS then Inr (h, status)
     else ebind (hget (h_requests h) cur) (\<lambda>nd. process_recv_loop k U h (node_next nd)))"

definition process_recv_queue ::
  "'u ucp \<Rightarrow> 'u clh_handle \<Rightarrow> ('u clh_handle \<times> clh_status) res" where
  "process_recv_queue U h =
     (if list_head (h_request_queues h CLH_REQUEST_TYPE_RECV) = None
      then Inr (h, CLH_STATUS_SUCCESS)
      else
        ebind (clh_list_get_all_nodes (queue_state h CLH_REQUEST_TYPE_RECV)) (\<lambda>(S, (beg, fin)).
        process_recv_loop (brk (h_requests h)) U (set_queue h CLH_REQUEST_TYPE_RECV S) beg))"

definition process_shared_queues ::
  "'u ucp \<Rightarrow> 'u clh_handle \<Rightarrow> ('u clh_handle \<times> clh_status) res" where
  "process_shared_queues U h =
     ebind (process_send_queue U h) (\<lambda>(h, status).
     ebind (c_assert (status = CLH_STATUS_SUCCESS)) (\<lambda>_.
     ebind (process_recv_queue U h) (\<lambda>(h, status).
     ebind (c_assert (status = CLH_STATUS_SUCCESS)) (\<lambda>_.
     Inr (h, CLH_STATUS_SUCCESS)))))"

section \<open>Operations in flight\<close>

text \<open>Asking UCP for the state of an operation; a receive also gets its infos filled in.\<close>

definition test_op ::
  "'u ucp \<Rightarrow> 'u clh_handle \<Rightarrow> clh_op \<Rightarrow> ('u clh_handle \<times> ucs_status \<times> ucp_request) res" where
  "test_op U h op =
     (case op_status_ptr op of
        Status_Request ur \<Rightarrow>
          ebind (get_request h (op_request op)) (\<lambda>q.
          if req_type q = CLH_REQUEST_TYPE_RECV then
            ebind (recv_arm (req_data q)) (\<lambda>d.
            case ucp_tag_recv_request_test U (h_world h) ur (recv_infos d) of (status, infos) \<Rightarrow>
              ebind (upd_request h (op_request op)
                       (\<lambda>q. q\<lparr>req_data := Recv_Data (d\<lparr>recv_infos := infos\<rparr>)\<rparr>)) (\<lambda>h.
              Inr (h, status, ur)))
          else Inr (h, ucp_request_check_status U (h_world h) ur, ur))
      | _ \<Rightarrow> Inl Assert_Failed)"

text \<open>The branch for a completed operation.\<close>

definition finish_op ::
  "'u ucp \<Rightarrow> 'u clh_handle \<Rightarrow> nat \<Rightarrow> ucp_request \<Rightarrow> nat \<Rightarrow> 'u clh_handle res" where
  "finish_op U h idx ur r =
     ebind (get_request h r) (\<lambda>q.
     ebind (if req_type q = CLH_REQUEST_TYPE_RECV then
              ebind (recv_arm (req_data q)) (\<lambda>d.
              ebind (initialised (recv_infos d)) (\<lambda>infos.
              case clh_decode_tag (info_sender_tag infos) of (channel, source, tag) \<Rightarrow>
                upd_request h r (\<lambda>q. q\<lparr>req_channel := channel, req_source := source,
                                      req_tag := tag\<rparr>)))
            else Inr h) (\<lambda>h.
     let h = h\<lparr>h_world := ucp_request_free U (h_world h) ur\<rparr> in
     ebind (array_remove (h_ops_queue h) idx) (\<lambda>ops.
     let h = h\<lparr>h_ops_queue := ops\<rparr>;
         h = (if req_type q = CLH_REQUEST_TYPE_SEND
              then h\<lparr>h_send_count := h_send_count h - 1\<rparr> else h)
     in complete_request h r)))"

fun process_ops_loop ::
  "nat \<Rightarrow> 'u ucp \<Rightarrow> 'u clh_handle \<Rightarrow> nat \<Rightarrow> ('u clh_handle \<times> clh_status) res" where
  "process_ops_loop fuel U h idx =
     (if \<not> idx < arr_len (h_ops_queue h) then Inr (h, CLH_STATUS_SUCCESS)
      else
        (case fuel of
           0 \<Rightarrow> Inl Diverges
         | Suc k \<Rightarrow>
             ebind (array_get (h_ops_queue h) idx) (\<lambda>op.
             ebind (test_op U h op) (\<lambda>(h, status, ur).
             (case status of
                UCS_INPROGRESS \<Rightarrow> process_ops_loop k U h (idx + 1)
              | UCS_OK \<Rightarrow>
                  ebind (finish_op U h idx ur (op_request op)) (\<lambda>h. process_ops_loop k U h idx)
              | UCS_ERR e \<Rightarrow>
                  ebind (array_remove (h_ops_queue h) idx) (\<lambda>ops.
                  Inr (h\<lparr>h_ops_queue := ops\<rparr>, CLH_STATUS_ERROR)))))))"

declare process_ops_loop.simps [simp del]

text \<open>Every iteration advances the index or shortens the queue.\<close>

definition process_ops_queue ::
  "'u ucp \<Rightarrow> 'u clh_handle \<Rightarrow> ('u clh_handle \<times> clh_status) res" where
  "process_ops_queue U h = process_ops_loop (arr_len (h_ops_queue h)) U h 0"

section \<open>The loop\<close>

definition queues_empty :: "'u clh_handle \<Rightarrow> bool" where
  "queues_empty h \<longleftrightarrow> arr_len (h_ops_queue h) = 0 \<and>
     list_len (h_request_queues h CLH_REQUEST_TYPE_SEND) = 0 \<and>
     list_len (h_request_queues h CLH_REQUEST_TYPE_RECV) = 0 \<and>
     list_len (h_request_queues h CLH_REQUEST_TYPE_PROBE) = 0"

text \<open>Any message at all is probed for, and taken out of UCP's matching queue.\<close>

fun probe_incoming_loop ::
  "nat \<Rightarrow> 'u ucp \<Rightarrow> 'u clh_handle \<Rightarrow> 'u clh_handle res" where
  "probe_incoming_loop 0 U h = Inr h"
| "probe_incoming_loop (Suc i) U h =
     (case ucp_tag_probe_nb U (h_world h) 0 0 True of (m, infos, u) \<Rightarrow>
        let h = h\<lparr>h_world := u\<rparr> in
        if m = 0 then Inr h
        else
          (case clh_decode_tag (info_sender_tag infos) of (channel, sender_id, sender_tag) \<Rightarrow>
             let msg = \<lparr>msg_channel = channel, msg_sender_id = sender_id,
                        msg_sender_tag = sender_tag, msg_full_tag = info_sender_tag infos,
                        msg_buffer_len = info_length infos, msg_msg = m\<rparr> in
             ebind (nth_res (h_recv_list h) (unat channel)) (\<lambda>L.
             ebind (clh_list_push_data (h_messages h, L) msg) (\<lambda>(H, L).
             probe_incoming_loop i U
               (h\<lparr>h_messages := H, h_recv_list := (h_recv_list h)[unat channel := L]\<rparr>)))))"

definition probe_incomming_messages :: "'u ucp \<Rightarrow> 'u clh_handle \<Rightarrow> 'u clh_handle res" where
  "probe_incomming_messages U h = probe_incoming_loop CONF_PROBE_THRESH U h"

fun worker_progress_loop ::
  "nat \<Rightarrow> 'u ucp \<Rightarrow> 'u clh_handle \<Rightarrow> clh_u64 \<Rightarrow> 'u clh_handle \<times> clh_u64" where
  "worker_progress_loop 0 U h n = (h, n)"
| "worker_progress_loop (Suc i) U h n =
     (case ucp_worker_progress U (h_world h) of (progress, u) \<Rightarrow>
        let h = h\<lparr>h_world := u\<rparr> in
        if progress = 0 then (h, n)
        else worker_progress_loop i U h (n + progress))"

text \<open>One iteration of the loop of \<open>run_\<close>.\<close>

definition run_body :: "'u ucp \<Rightarrow> 'u clh_handle \<Rightarrow> 'u clh_handle res" where
  "run_body U h =
     ebind (probe_incomming_messages U h) (\<lambda>h.
     ebind (process_shared_queues U h) (\<lambda>(h, _).
     case worker_progress_loop CONF_PROGRESS_COUNT U h 0 of (h, progress_count) \<Rightarrow>
     ebind (process_ops_queue U h) (\<lambda>(h, status).
     ebind (c_assert (status = CLH_STATUS_SUCCESS)) (\<lambda>_.
     Inr h))))"

text \<open>
  The loop itself, with nobody else changing \<open>run\<close>: it goes on until the flag is cleared and the
  queues are empty.
\<close>

fun run_loop :: "nat \<Rightarrow> 'u ucp \<Rightarrow> 'u clh_handle \<Rightarrow> 'u clh_handle res" where
  "run_loop fuel U h =
     (if \<not> (h_run h \<or> \<not> queues_empty h) then Inr h
      else (case fuel of 0 \<Rightarrow> Inl Diverges
            | Suc k \<Rightarrow> ebind (run_body U h) (\<lambda>h. run_loop k U h)))"

declare run_loop.simps [simp del]

text \<open>Before the loop the thread initialises UCX, raises the flag and signals \<open>init_cv\<close>.\<close>

definition run_prologue :: "'u ucp \<Rightarrow> 'u pmix \<Rightarrow> 'u clh_handle \<Rightarrow> 'u clh_handle res" where
  "run_prologue U P h =
     ebind (ucx_init U P h) (\<lambda>(h, status).
     ebind (c_assert (status = CLH_STATUS_SUCCESS)) (\<lambda>_.
     Inr (h\<lparr>h_run := True\<rparr>)))"

definition run_epilogue :: "nat \<Rightarrow> 'u ucp \<Rightarrow> 'u clh_handle \<Rightarrow> 'u clh_handle res" where
  "run_epilogue fuel U h =
     ebind (ucx_finalize fuel U h) (\<lambda>(h, status).
     ebind (c_assert (status = CLH_STATUS_SUCCESS)) (\<lambda>_. Inr h))"

end
