(* ===== verification/Clh_Api.thy ===== *)
theory Clh_Api
  imports Clh_Run
begin

text \<open>
  The functions of clh.c the user calls: posting sends and receives, probing, receiving a probed
  message, releasing requests; and the creation and destruction of a handle.
\<close>

section \<open>Send\<close>

definition clh_send ::
  "'u clh_handle \<Rightarrow> clh_u32 \<Rightarrow> clh_u32 \<Rightarrow> clh_u32 \<Rightarrow> clh_buffer \<Rightarrow> ('u clh_handle \<times> nat) res" where
  "clh_send h channel dest tag buffer =
     ebind (clh_list_new_node (queue_state h CLH_REQUEST_TYPE_SEND)) (\<lambda>(S, node).
     let h = set_queue h CLH_REQUEST_TYPE_SEND S; source = clh_node_id h in
     ebind (upd_request h node (\<lambda>q. q\<lparr>
       req_type := CLH_REQUEST_TYPE_SEND,
       req_completed := False,
       req_channel := channel,
       req_tag := tag,
       req_source := source,
       req_data := Send_Data \<lparr>send_buffer = buffer,
                              send_tag = clh_encode_tag channel source tag,
                              send_dest = dest\<rparr>\<rparr>)) (\<lambda>h.
     ebind (clh_list_push_node (queue_state h CLH_REQUEST_TYPE_SEND) node) (\<lambda>S.
     Inr (set_queue h CLH_REQUEST_TYPE_SEND S, node))))"

section \<open>Receive\<close>

text \<open>
  The channel, source and tag of the request are not assigned: they keep what the node held.
\<close>

definition clh_recv_post ::
  "'u clh_handle \<Rightarrow> clh_u64 \<Rightarrow> clh_u64 \<Rightarrow> clh_buffer \<Rightarrow> ('u clh_handle \<times> nat) res" where
  "clh_recv_post h tag tag_mask buffer =
     ebind (clh_list_new_node (queue_state h CLH_REQUEST_TYPE_RECV)) (\<lambda>(S, node).
     let h = set_queue h CLH_REQUEST_TYPE_RECV S in
     ebind (upd_request h node (\<lambda>q. q\<lparr>
       req_type := CLH_REQUEST_TYPE_RECV,
       req_completed := False,
       req_data := Recv_Data \<lparr>recv_buffer = buffer, recv_tag = tag, recv_tag_mask = tag_mask,
                              recv_infos = None, recv_msg = 0\<rparr>\<rparr>)) (\<lambda>h.
     ebind (clh_list_push_node (queue_state h CLH_REQUEST_TYPE_RECV) node) (\<lambda>S.
     Inr (set_queue h CLH_REQUEST_TYPE_RECV S, node))))"

definition clh_recv ::
  "'u clh_handle \<Rightarrow> clh_u32 \<Rightarrow> clh_u32 \<Rightarrow> clh_u32 \<Rightarrow> clh_buffer \<Rightarrow> ('u clh_handle \<times> nat) res" where
  "clh_recv h channel tag tag_mask buffer =
     (let clh_tag = clh_encode_tag channel 0 tag;
          clh_tag_mask = CHANNEL_MASK OR ucast tag_mask
      in clh_recv_post h clh_tag clh_tag_mask buffer)"

definition clh_recv_from ::
  "'u clh_handle \<Rightarrow> clh_u32 \<Rightarrow> clh_u32 \<Rightarrow> clh_u32 \<Rightarrow> clh_u32 \<Rightarrow> clh_buffer \<Rightarrow>
     ('u clh_handle \<times> nat) res" where
  "clh_recv_from h channel source tag tag_mask buffer =
     (let clh_tag = clh_encode_tag channel source tag;
          clh_tag_mask = CHANNEL_MASK OR SENDER_ID_MASK OR ucast tag_mask
      in clh_recv_post h clh_tag clh_tag_mask buffer)"

text \<open>The type of the request stays that of the probe it comes from.\<close>

definition clh_request_recv ::
  "'u clh_handle \<Rightarrow> nat \<Rightarrow> clh_buffer \<Rightarrow> ('u clh_handle \<times> nat) res" where
  "clh_request_recv h request buffer =
     ebind (get_request h request) (\<lambda>q.
     ebind (probe_arm (req_data q)) (\<lambda>d.
     ebind (initialised (probe_sender_tag d)) (\<lambda>tag.
     let remove = probe_remove d; msg = probe_msg d in
     ebind (upd_request h request (\<lambda>q. q\<lparr>
       req_completed := False,
       req_data := Recv_Data \<lparr>recv_buffer = buffer, recv_tag = tag,
                              recv_tag_mask = 0xFFFFFFFFFFFFFFFF, recv_infos = None,
                              recv_msg = (if remove then msg else 0)\<rparr>\<rparr>)) (\<lambda>h.
     ebind (clh_list_push_node (queue_state h CLH_REQUEST_TYPE_RECV)
              (clh_list_node_from_data request)) (\<lambda>S.
     Inr (set_queue h CLH_REQUEST_TYPE_RECV S, request))))))"

section \<open>Probe\<close>

definition clh_probe_channel ::
  "'u clh_handle \<Rightarrow> clh_u32 \<Rightarrow> clh_u64 \<Rightarrow> clh_u64 \<Rightarrow> bool \<Rightarrow> ('u clh_handle \<times> nat) res" where
  "clh_probe_channel h channel tag tag_mask remove =
     ebind (clh_list_new_node (queue_state h CLH_REQUEST_TYPE_PROBE)) (\<lambda>(S, request).
     let h = set_queue h CLH_REQUEST_TYPE_PROBE S;
         d = \<lparr>probe_result = False, probe_remove = remove, probe_tag = tag,
              probe_tag_mask = tag_mask, probe_sender_tag = None, probe_buffer_len = None,
              probe_msg = 0\<rparr> in
     ebind (upd_request h request (\<lambda>q. q\<lparr>
       req_type := CLH_REQUEST_TYPE_PROBE,
       req_completed := True,
       req_data := Probe_Data d\<rparr>)) (\<lambda>h.
     ebind (nth_res (h_recv_list h) (unat channel)) (\<lambda>L.
     ebind (message_search (h_messages h, L) tag tag_mask) (\<lambda>((H, L), node).
     let h = h\<lparr>h_messages := H, h_recv_list := (h_recv_list h)[unat channel := L]\<rparr> in
     (case node of
        None \<Rightarrow> Inr (h, request)
      | Some n \<Rightarrow>
          ebind (hget (h_messages h) n) (\<lambda>nd.
          let msg = node_data nd in
          ebind (upd_request h request (\<lambda>q. q\<lparr>
            req_data := Probe_Data (d\<lparr>probe_result := True,
                                      probe_sender_tag := Some (msg_full_tag msg),
                                      probe_buffer_len := Some (msg_buffer_len msg),
                                      probe_msg := msg_msg msg\<rparr>),
            req_channel := msg_channel msg,
            req_source := msg_sender_id msg,
            req_tag := msg_sender_tag msg\<rparr>)) (\<lambda>h.
          if remove then
            ebind (clh_list_remove_node (h_messages h, L) n) (\<lambda>(H, L).
            Inr (h\<lparr>h_messages := H, h_recv_list := (h_recv_list h)[unat channel := L]\<rparr>,
                 request))
          else Inr (h, request))))))))"

definition clh_probe ::
  "'u clh_handle \<Rightarrow> clh_u32 \<Rightarrow> clh_u32 \<Rightarrow> clh_u32 \<Rightarrow> bool \<Rightarrow> ('u clh_handle \<times> nat) res" where
  "clh_probe h channel tag tag_mask remove =
     (let clh_tag = clh_encode_tag channel 0 tag;
          clh_tag_mask = CHANNEL_MASK OR ucast tag_mask
      in clh_probe_channel h channel clh_tag clh_tag_mask remove)"

definition clh_probe_source ::
  "'u clh_handle \<Rightarrow> clh_u32 \<Rightarrow> clh_u32 \<Rightarrow> clh_u32 \<Rightarrow> clh_u32 \<Rightarrow> bool \<Rightarrow>
     ('u clh_handle \<times> nat) res" where
  "clh_probe_source h channel source tag tag_mask remove =
     (let clh_tag = clh_encode_tag channel source tag;
          clh_tag_mask = CHANNEL_MASK OR SENDER_ID_MASK OR ucast tag_mask
      in clh_probe_channel h channel clh_tag clh_tag_mask remove)"

section \<open>Release\<close>

definition clh_request_release :: "'u clh_handle \<Rightarrow> nat \<Rightarrow> 'u clh_handle res" where
  "clh_request_release h request =
     ebind (get_request h request) (\<lambda>q.
     ebind (clh_list_release_data (queue_state h (req_type q)) request) (\<lambda>S.
     Inr (set_queue h (req_type q) S)))"

text \<open>Cancelling is not implemented: the body is a comment.\<close>

definition clh_cancel :: "'u clh_handle \<Rightarrow> nat \<Rightarrow> 'u clh_handle" where
  "clh_cancel h request = h"

section \<open>Creation and destruction of the handle\<close>

text \<open>
  The sizes of a request and of a message only matter for not being zero; \<open>ra\<close> and \<open>ma\<close> are the
  allocators of requests and messages.
\<close>

definition sizeof_request :: clh_u64 where "sizeof_request = 208"
definition sizeof_message :: clh_u64 where "sizeof_message = 40"

definition request_queue_init ::
  "clh_request clh_allocator \<Rightarrow> clh_request_type \<Rightarrow> 'u clh_handle \<Rightarrow> 'u clh_handle" where
  "request_queue_init ra ty h =
     set_queue h ty (clh_list_init (queue_state h ty)
       \<lparr>arg_data_size = sizeof_request, arg_default_capacity = 10, arg_allocator = ra\<rparr>)"

text \<open>
  \<open>start_\<close> up to the spawn of the worker thread; the hand-shake that follows is modelled in
  Clh\_Wait.
\<close>

definition start_queues :: "clh_request clh_allocator \<Rightarrow> 'u clh_handle \<Rightarrow> 'u clh_handle" where
  "start_queues ra h =
     (request_queue_init ra CLH_REQUEST_TYPE_PROBE
       (request_queue_init ra CLH_REQUEST_TYPE_RECV
         (request_queue_init ra CLH_REQUEST_TYPE_SEND h)))
     \<lparr>h_ops_queue := array_create 1024, h_run := False\<rparr>"

fun init_recv_lists ::
  "clh_message clh_allocator \<Rightarrow> nat list \<Rightarrow> 'u clh_handle \<Rightarrow> 'u clh_handle" where
  "init_recv_lists ma [] h = h"
| "init_recv_lists ma (i # is) h =
     (case clh_list_init (h_messages h, h_recv_list h ! i)
             \<lparr>arg_data_size = sizeof_message, arg_default_capacity = 10, arg_allocator = ma\<rparr> of
        (H, L) \<Rightarrow>
          init_recv_lists ma is
            (h\<lparr>h_messages := H, h_recv_list := (h_recv_list h)[i := L]\<rparr>))"

end
