(* ===== verification/Clh_Init.thy ===== *)
theory Clh_Init
  imports Clh_Api
begin

text \<open>
  The life of a handle: \<open>clh_init\<close> with the start of the worker and the warm-up, and
  \<open>clh_finalize\<close> with its end. The worker thread and the calling thread take turns here in the
  one way the code forces: the caller goes on when the worker has announced itself or has
  completed the request waited for, and joins it at the end. The hand-shakes themselves are the
  subject of Clh\_Wait.
\<close>

section \<open>Start\<close>

text \<open>
  \<open>start_\<close> returns once \<open>init_cv\<close> is signalled, that is after the worker has initialised UCX and
  raised the flag.
\<close>

definition start_worker ::
  "'u ucp \<Rightarrow> 'u pmix \<Rightarrow> clh_request clh_allocator \<Rightarrow> 'u clh_handle \<Rightarrow> 'u clh_handle res" where
  "start_worker U P ra h = run_prologue U P (start_queues ra h)"

section \<open>Waiting while the worker runs\<close>

text \<open>The caller of \<open>clh_wait\<close> sleeps; the worker iterates until the request is completed.\<close>

fun clh_wait_served :: "nat \<Rightarrow> 'u ucp \<Rightarrow> 'u clh_handle \<Rightarrow> nat \<Rightarrow> 'u clh_handle res" where
  "clh_wait_served fuel U h r =
     ebind (clh_request_completed h r) (\<lambda>completed.
     if completed then Inr h
     else (case fuel of 0 \<Rightarrow> Inl Diverges
           | Suc k \<Rightarrow> ebind (run_body U h) (\<lambda>h. clh_wait_served k U h r)))"

declare clh_wait_served.simps [simp del]

section \<open>Warm-up\<close>

definition CONF_WARMUP_LOOP_COUNT :: nat where "CONF_WARMUP_LOOP_COUNT = 10"
definition WARMUP_MSG_SIZE :: nat where "WARMUP_MSG_SIZE = 1024 * 1024"

text \<open>
  The buffers: \<open>send_mem\<close> is one address, \<open>recv_mem\<close> an array of blocks from one address on. The
  pairs of iteration and rank, in the order of the nested loops, without the own rank.
\<close>

definition warmup_index :: "clh_u64 \<Rightarrow> nat \<Rightarrow> (nat \<times> nat) list" where
  "warmup_index node_id nb_nodes =
     filter (\<lambda>(i, rank). rank \<noteq> unat node_id)
       (List.product [0..<CONF_WARMUP_LOOP_COUNT] [0..<nb_nodes])"

fun warmup_post ::
  "mem_addr \<Rightarrow> mem_addr \<Rightarrow> nat \<Rightarrow> (nat \<times> nat) list \<Rightarrow> 'u clh_handle \<Rightarrow> nat option list \<Rightarrow>
     nat option list \<Rightarrow> ('u clh_handle \<times> nat option list \<times> nat option list) res" where
  "warmup_post send_mem recv_mem nb_nodes [] h send_requests recv_requests =
     Inr (h, send_requests, recv_requests)"
| "warmup_post send_mem recv_mem nb_nodes ((i, rank) # is) h send_requests recv_requests =
     (let idx = i * nb_nodes + rank;
          send_buf = \<lparr>buf_mem = send_mem, buf_len = of_nat WARMUP_MSG_SIZE\<rparr>;
          recv_buf = \<lparr>buf_mem = recv_mem + of_nat (idx * WARMUP_MSG_SIZE),
                      buf_len = of_nat WARMUP_MSG_SIZE\<rparr>
      in
      ebind (clh_send h 0 (of_nat rank) 0 send_buf) (\<lambda>(h, s).
      ebind (update_res send_requests idx (Some s)) (\<lambda>send_requests.
      ebind (clh_recv_from h 0 (of_nat rank) 0 0xFFFFFFFF recv_buf) (\<lambda>(h, r).
      ebind (update_res recv_requests idx (Some r)) (\<lambda>recv_requests.
      warmup_post send_mem recv_mem nb_nodes is h send_requests recv_requests)))))"

fun warmup_wait ::
  "nat \<Rightarrow> 'u ucp \<Rightarrow> nat \<Rightarrow> ('u \<Rightarrow> nat \<Rightarrow> nat \<Rightarrow> bool) \<Rightarrow> (nat \<times> nat) list \<Rightarrow> nat option list \<Rightarrow>
     'u clh_handle \<Rightarrow> 'u clh_handle res" where
  "warmup_wait fuel U nb_nodes check [] requests h = Inr h"
| "warmup_wait fuel U nb_nodes check ((i, rank) # is) requests h =
     (let idx = i * nb_nodes + rank in
      ebind (nth_res requests idx) (\<lambda>r.
      ebind (initialised r) (\<lambda>r.
      ebind (clh_wait_served fuel U h r) (\<lambda>h.
      ebind (clh_request_release h r) (\<lambda>h.
      ebind (c_assert (check (h_world h) idx rank)) (\<lambda>_.
      warmup_wait fuel U nb_nodes check is requests h))))))"

text \<open>
  \<open>text_ok u idx rank\<close> stands for the \<open>strcmp\<close> on the memory UCP wrote: block \<open>idx\<close> of the
  receive memory holds the greeting of \<open>rank\<close>.
\<close>

definition clh_warmup ::
  "nat \<Rightarrow> 'u ucp \<Rightarrow> ('u \<Rightarrow> nat \<Rightarrow> nat \<Rightarrow> bool) \<Rightarrow> mem_addr \<Rightarrow> mem_addr \<Rightarrow> 'u clh_handle \<Rightarrow>
     ('u clh_handle \<times> clh_status) res" where
  "clh_warmup fuel U text_ok send_mem recv_mem h =
     (let node_id = scast (clh_node_id h) :: clh_u64;
          nb_nodes = unat (clh_nb_nodes h);
          is = warmup_index node_id nb_nodes;
          requests = replicate (CONF_WARMUP_LOOP_COUNT * nb_nodes) None
      in
      ebind (warmup_post send_mem recv_mem nb_nodes is h requests requests)
        (\<lambda>(h, send_requests, recv_requests).
      ebind (warmup_wait fuel U nb_nodes (\<lambda>_ _ _. True) is send_requests h) (\<lambda>h.
      ebind (warmup_wait fuel U nb_nodes text_ok is recv_requests h) (\<lambda>h.
      Inr (h, CLH_STATUS_SUCCESS)))))"

section \<open>Initialisation\<close>

definition clh_barrier :: "'u pmix \<Rightarrow> 'u clh_handle \<Rightarrow> 'u clh_handle" where
  "clh_barrier P h = h\<lparr>h_world := fst (clh_pmi_fence P (h_pmi h) (h_world h))\<rparr>"

text \<open>
  \<open>h\<close> is the handle \<open>calloc\<close> returned; the status of the warm-up and of the barrier is ignored.
\<close>

definition clh_init ::
  "nat \<Rightarrow> 'u ucp \<Rightarrow> 'u pmix \<Rightarrow> clh_pmi \<Rightarrow> clh_message clh_allocator \<Rightarrow> clh_request clh_allocator \<Rightarrow>
     ('u \<Rightarrow> nat \<Rightarrow> nat \<Rightarrow> bool) \<Rightarrow> mem_addr \<Rightarrow> mem_addr \<Rightarrow> 'u clh_handle \<Rightarrow>
     ('u clh_handle \<times> clh_status) res" where
  "clh_init fuel U P pmi0 ma ra text_ok send_mem recv_mem h =
     ebind (clh_pmi_init P pmi0 (h_world h)) (\<lambda>(pmi, u, status).
     let h = h\<lparr>h_pmi := pmi, h_world := u\<rparr> in
     if status \<noteq> CLH_PMI_STATUS_SUCCESS then Inr (h, CLH_STATUS_PMI_ERROR)
     else
       let h = init_recv_lists ma [0..<CLH_MAX_CHANNELS] h in
       ebind (start_worker U P ra h) (\<lambda>h.
       ebind (clh_warmup fuel U text_ok send_mem recv_mem h) (\<lambda>(h, _).
       Inr (clh_barrier P h, CLH_STATUS_SUCCESS))))"

section \<open>Finalisation\<close>

text \<open>Clearing the flag, joining the worker, destroying the queues.\<close>

definition destroy_queue :: "clh_request_type \<Rightarrow> 'u clh_handle \<Rightarrow> 'u clh_handle res" where
  "destroy_queue ty h =
     ebind (clh_list_destroy (queue_state h ty)) (\<lambda>(H, _). Inr (h\<lparr>h_requests := H\<rparr>))"

definition terminate_queues :: "'u clh_handle \<Rightarrow> 'u clh_handle res" where
  "terminate_queues h =
     ebind (destroy_queue CLH_REQUEST_TYPE_SEND h) (\<lambda>h.
     ebind (destroy_queue CLH_REQUEST_TYPE_RECV h) (\<lambda>h.
     ebind (destroy_queue CLH_REQUEST_TYPE_PROBE h) (\<lambda>h.
     Inr (h\<lparr>h_ops_queue := array_destroy (h_ops_queue h)\<rparr>))))"

definition terminate ::
  "nat \<Rightarrow> 'u ucp \<Rightarrow> 'u clh_handle \<Rightarrow> 'u clh_handle res" where
  "terminate fuel U h =
     ebind (run_loop fuel U (h\<lparr>h_run := False\<rparr>)) (\<lambda>h.
     ebind (run_epilogue fuel U h) terminate_queues)"

fun destroy_recv_lists :: "nat list \<Rightarrow> 'u clh_handle \<Rightarrow> 'u clh_handle res" where
  "destroy_recv_lists [] h = Inr h"
| "destroy_recv_lists (i # is) h =
     ebind (nth_res (h_recv_list h) i) (\<lambda>L.
     ebind (clh_list_destroy (h_messages h, L)) (\<lambda>(H, _).
     destroy_recv_lists is (h\<lparr>h_messages := H\<rparr>)))"

definition clh_finalize ::
  "nat \<Rightarrow> 'u ucp \<Rightarrow> 'u pmix \<Rightarrow> 'u clh_handle \<Rightarrow> ('u clh_handle \<times> clh_status) res" where
  "clh_finalize fuel U P h =
     (let h = h\<lparr>h_world := fst (clh_pmi_sync P (h_pmi h) (h_world h))\<rparr> in
      ebind (terminate fuel U h) (\<lambda>h.
      let h = h\<lparr>h_world := fst (clh_pmi_finalize P (h_pmi h) (h_world h))\<rparr> in
      ebind (destroy_recv_lists [0..<CLH_MAX_CHANNELS] h) (\<lambda>h.
      Inr (h, CLH_STATUS_SUCCESS))))"

end
