(* ===== verification/Clh_Pool.thy ===== *)
theory Clh_Pool
  imports Clh_List_Props
begin

text \<open>
  The library keeps several lists in one heap: the three request queues, whose nodes move from
  one to another, and the received messages of every channel. A pool is such a family; each list
  operation on one member keeps the whole family in order. The theory also has the rules for
  computations that either meet a postcondition or abort in an assertion.
\<close>

section \<open>Outcomes\<close>

text \<open>
  \<open>outcome b m P\<close>: the computation returns a value satisfying \<open>P\<close>, or, when \<open>b\<close> allows it,
  aborts in an \<open>assert\<close>. No other fault is possible.
\<close>

definition outcome :: "bool \<Rightarrow> 'a res \<Rightarrow> ('a \<Rightarrow> bool) \<Rightarrow> bool" where
  "outcome b m P \<longleftrightarrow> (case m of Inl e \<Rightarrow> b \<and> e = Assert_Failed | Inr x \<Rightarrow> P x)"

lemma outcome_Inr [simp]: "outcome b (Inr x) P \<longleftrightarrow> P x"
  by (simp add: outcome_def)

lemma outcome_Inl [simp]: "outcome b (Inl e) P \<longleftrightarrow> b \<and> e = Assert_Failed"
  by (simp add: outcome_def)

lemma outcome_bind:
  "outcome b m Q \<Longrightarrow> (\<And>x. Q x \<Longrightarrow> outcome b (f x) P) \<Longrightarrow> outcome b (ebind m f) P"
  by (cases m) auto

lemma outcome_mono: "outcome b m Q \<Longrightarrow> (\<And>x. Q x \<Longrightarrow> P x) \<Longrightarrow> outcome b m P"
  by (cases m) auto

lemma outcome_assert: "(\<not> c \<Longrightarrow> b) \<Longrightarrow> (c \<Longrightarrow> outcome b m P) \<Longrightarrow> outcome b (ebind (c_assert c) (\<lambda>_. m)) P"
  by (cases c) auto

lemma outcome_False: "outcome False m P \<longleftrightarrow> (\<exists>x. m = Inr x \<and> P x)"
  by (cases m) auto

section \<open>Pools\<close>

definition pool_inv ::
  "'i set \<Rightarrow> 'a node_heap \<Rightarrow> ('i \<Rightarrow> 'a clh_list) \<Rightarrow> ('i \<Rightarrow> nat list) \<Rightarrow> ('i \<Rightarrow> nat list) \<Rightarrow> bool"
where
  "pool_inv I H Q qs fs \<longleftrightarrow>
     heap_inv H \<and> (\<forall>i \<in> I. list_inv H (Q i) (qs i) (fs i)) \<and>
     (\<forall>i \<in> I. \<forall>j \<in> I. i \<noteq> j \<longrightarrow> (set (qs i) \<union> set (fs i)) \<inter> (set (qs j) \<union> set (fs j)) = {})"

text \<open>The nodes in some list or free list of the pool.\<close>

definition pooled :: "'i set \<Rightarrow> ('i \<Rightarrow> nat list) \<Rightarrow> ('i \<Rightarrow> nat list) \<Rightarrow> nat set" where
  "pooled I qs fs = (\<Union>i \<in> I. set (qs i) \<union> set (fs i))"

lemma pooledI: "i \<in> I \<Longrightarrow> a \<in> set (qs i) \<union> set (fs i) \<Longrightarrow> a \<in> pooled I qs fs"
  by (auto simp: pooled_def)

lemma pooledE: "a \<in> pooled I qs fs \<Longrightarrow> (\<And>i. i \<in> I \<Longrightarrow> a \<in> set (qs i) \<union> set (fs i) \<Longrightarrow> P) \<Longrightarrow> P"
  by (auto simp: pooled_def)

lemma pooled_mono:
  "(\<And>i. i \<in> I \<Longrightarrow> set (qs' i) \<union> set (fs' i) \<subseteq> set (qs i) \<union> set (fs i)) \<Longrightarrow>
     pooled I qs' fs' \<subseteq> pooled I qs fs"
  unfolding pooled_def by (rule UN_mono) auto

lemma pool_inv_list: "pool_inv I H Q qs fs \<Longrightarrow> i \<in> I \<Longrightarrow> list_inv H (Q i) (qs i) (fs i)"
  by (simp add: pool_inv_def)

lemma pool_inv_heap: "pool_inv I H Q qs fs \<Longrightarrow> heap_inv H"
  by (simp add: pool_inv_def)

lemma pool_inv_cong:
  "(\<And>i. i \<in> I \<Longrightarrow> Q i = Q' i \<and> qs i = qs' i \<and> fs i = fs' i) \<Longrightarrow>
     pool_inv I H Q qs fs = pool_inv I H Q' qs' fs'"
  by (simp add: pool_inv_def)

lemma pooled_live: "pool_inv I H Q qs fs \<Longrightarrow> a \<in> pooled I qs fs \<Longrightarrow> cells H a \<noteq> None"
  unfolding pooled_def pool_inv_def using list_inv_live by blast

lemma pool_upd:
  assumes pool: "pool_inv I H Q qs fs" and i: "i \<in> I" and heap: "heap_inv H'"
    and list: "list_inv H' L' xs' fs'"
    and frame: "\<And>j a. j \<in> I \<Longrightarrow> j \<noteq> i \<Longrightarrow> a \<in> set (qs j) \<union> set (fs j) \<Longrightarrow> cells H' a = cells H a"
    and disj: "\<And>j. j \<in> I \<Longrightarrow> j \<noteq> i \<Longrightarrow> (set xs' \<union> set fs') \<inter> (set (qs j) \<union> set (fs j)) = {}"
  shows "pool_inv I H' (Q(i := L')) (qs(i := xs')) (fs(i := fs'))"
proof -
  have "list_inv H' (Q j) (qs j) (fs j)" if "j \<in> I" "j \<noteq> i" for j
    using pool_inv_list [OF pool that(1)] frame [OF that] by (subst list_inv_cong) auto
  moreover have "(set (qs j) \<union> set (fs j)) \<inter> (set (qs k) \<union> set (fs k)) = {}"
    if "j \<in> I" "k \<in> I" "j \<noteq> k" for j k
    using pool that by (auto simp: pool_inv_def)
  moreover have "(set (qs j) \<union> set (fs j)) \<inter> (set xs' \<union> set fs') = {}" if "j \<in> I" "j \<noteq> i" for j
    using disj [OF that] by blast
  ultimately show ?thesis
    using heap list disj by (simp add: pool_inv_def)
qed

lemma pool_other:
  "pool_inv I H Q qs fs \<Longrightarrow> i \<in> I \<Longrightarrow> j \<in> I \<Longrightarrow> i \<noteq> j \<Longrightarrow>
     (set (qs i) \<union> set (fs i)) \<inter> (set (qs j) \<union> set (fs j)) = {}"
  by (simp add: pool_inv_def)

text \<open>The nodes of one list, taken away from the pool.\<close>

lemma pool_detach:
  assumes pool: "pool_inv I H Q qs fs" and i: "i \<in> I"
  shows "set (qs i) \<inter> pooled I (qs(i := [])) fs = {}"
proof -
  have "set (qs i) \<inter> (set ((qs(i := [])) j) \<union> set (fs j)) = {}" if "j \<in> I" for j
    using pool_other [OF pool i that] list_inv_distinct [OF pool_inv_list [OF pool i]]
    by (cases "j = i") auto
  then show ?thesis unfolding pooled_def by blast
qed

lemma pool_relinks:
  assumes pool: "pool_inv I H Q qs fs" and i: "i \<in> I" and re: "relinks A H H'"
    and list: "list_inv H' L' xs' fs'"
    and A: "A \<subseteq> set (qs i) \<union> set (fs i) \<union> (- pooled I qs fs)"
    and sub: "set xs' \<union> set fs' \<subseteq> set (qs i) \<union> set (fs i) \<union> (- pooled I qs fs)"
  shows "pool_inv I H' (Q(i := L')) (qs(i := xs')) (fs(i := fs'))"
proof (rule pool_upd [OF pool i relinks_heap_inv [OF re pool_inv_heap [OF pool]] list])
  fix j a assume j: "j \<in> I" "j \<noteq> i" and a: "a \<in> set (qs j) \<union> set (fs j)"
  have "a \<in> pooled I qs fs" using j a by (auto simp: pooled_def)
  then have "a \<notin> A" using A a pool_other [OF pool i j(1)] j(2) by blast
  then show "cells H' a = cells H a" using re by (simp add: relinks_def)
next
  fix j assume j: "j \<in> I" "j \<noteq> i"
  have "set (qs j) \<union> set (fs j) \<subseteq> pooled I qs fs" using j by (auto simp: pooled_def)
  then show "(set xs' \<union> set fs') \<inter> (set (qs j) \<union> set (fs j)) = {}"
    using sub pool_other [OF pool i j(1)] j(2) by blast
qed

lemma pool_push:
  assumes pool: "pool_inv I H Q qs fs" and i: "i \<in> I"
    and live: "cells H n \<noteq> None" and n: "n \<notin> pooled I qs fs"
  shows "\<exists>H' L'. clh_list_push_node (H, Q i) n = Inr (H', L') \<and>
           pool_inv I H' (Q(i := L')) (qs(i := qs i @ [n])) fs \<and>
           data_at H' = data_at H \<and> same_config (Q i) L' \<and> brk H' = brk H \<and>
           relinks (insert n (set (qs i))) H H'"
proof -
  from live obtain nd where nd: "cells H n = Some nd" by auto
  have "n \<notin> set (qs i)" "n \<notin> set (fs i)" using n i by (auto simp: pooled_def)
  from push_node_spec [OF pool_inv_list [OF pool i] nd this] obtain H' L' where
    run: "clh_list_push_node (H, Q i) n = Inr (H', L')" and
    list: "list_inv H' L' (qs i @ [n]) (fs i)" and
    re: "relinks (insert n (set (qs i))) H H'" and conf: "same_config (Q i) L'"
    by blast
  have "pool_inv I H' (Q(i := L')) (qs(i := qs i @ [n])) (fs(i := fs i))"
    by (rule pool_relinks [OF pool i re list]) (use n in auto)
  with run re conf show ?thesis by (auto simp: relinks_def)
qed

lemma pool_pop_empty:
  assumes "pool_inv I H Q qs fs" and "i \<in> I" and "qs i = []"
  shows "clh_list_pop_node (H, Q i) = Inr ((H, Q i), None)"
  using pool_inv_list [OF assms(1,2)] assms(3) pop_node_empty by simp

lemma pool_pop:
  assumes pool: "pool_inv I H Q qs fs" and i: "i \<in> I" and qs: "qs i = xs @ [n]"
  shows "\<exists>H' L'. clh_list_pop_node (H, Q i) = Inr ((H', L'), Some n) \<and>
           pool_inv I H' (Q(i := L')) (qs(i := xs)) fs \<and> n \<notin> pooled I (qs(i := xs)) fs \<and>
           data_at H' = data_at H \<and> same_config (Q i) L' \<and> brk H' = brk H \<and>
           relinks (set (qs i)) H H'"
proof -
  have list_i: "list_inv H (Q i) (xs @ [n]) (fs i)" using pool_inv_list [OF pool i] qs by simp
  from pop_node_spec [OF this] obtain H' L' where
    run: "clh_list_pop_node (H, Q i) = Inr ((H', L'), Some n)" and
    list: "list_inv H' L' xs (fs i)" and
    re: "relinks (insert n (set xs)) H H'" and conf: "same_config (Q i) L'"
    by blast
  have "pool_inv I H' (Q(i := L')) (qs(i := xs)) (fs(i := fs i))"
    by (rule pool_relinks [OF pool i re list]) (use qs in auto)
  moreover have "n \<notin> pooled I (qs(i := xs)) fs"
    using list_inv_distinct [OF list_i] pool_other [OF pool i] qs
    by (auto simp: pooled_def split: if_splits)
  ultimately show ?thesis using run re conf qs by (auto simp: relinks_def)
qed

lemma pool_remove:
  assumes pool: "pool_inv I H Q qs fs" and i: "i \<in> I" and qs: "qs i = as @ n # bs"
  shows "\<exists>H' L'. clh_list_remove_node (H, Q i) n = Inr (H', L') \<and>
           pool_inv I H' (Q(i := L')) (qs(i := as @ bs)) (fs(i := n # fs i)) \<and>
           data_at H' = data_at H \<and> same_config (Q i) L' \<and> brk H' = brk H"
proof -
  have list_i: "list_inv H (Q i) (as @ n # bs) (fs i)" using pool_inv_list [OF pool i] qs by simp
  from remove_node_spec [OF this] obtain H' L' where
    run: "clh_list_remove_node (H, Q i) n = Inr (H', L')" and
    list: "list_inv H' L' (as @ bs) (n # fs i)" and
    re: "relinks (set (as @ n # bs)) H H'" and conf: "same_config (Q i) L'"
    by blast
  have "pool_inv I H' (Q(i := L')) (qs(i := as @ bs)) (fs(i := n # fs i))"
    by (rule pool_relinks [OF pool i re list]) (use qs in auto)
  then show ?thesis using run re conf by (auto simp: relinks_def)
qed

lemma pool_get_all:
  assumes pool: "pool_inv I H Q qs fs" and i: "i \<in> I"
  shows "\<exists>L'. clh_list_get_all_nodes (H, Q i) = Inr ((H, L'), (list_head (Q i), list_tail (Q i))) \<and>
           pool_inv I H (Q(i := L')) (qs(i := [])) fs \<and>
           chain (cells H) (list_head (Q i)) (qs i) \<and> same_config (Q i) L'"
proof -
  from get_all_nodes_spec [OF pool_inv_list [OF pool i]] obtain L' where
    run: "clh_list_get_all_nodes (H, Q i) = Inr ((H, L'), (list_head (Q i), list_tail (Q i)))" and
    list: "list_inv H L' [] (fs i)" and "chain (cells H) (list_head (Q i)) (qs i)"
      "same_config (Q i) L'"
    by blast
  moreover have "pool_inv I H (Q(i := L')) (qs(i := [])) (fs(i := fs i))"
    by (rule pool_relinks [OF pool i relinks_refl [of "{}"] list]) auto
  ultimately show ?thesis by auto
qed

lemma pool_release:
  assumes pool: "pool_inv I H Q qs fs" and i: "i \<in> I"
    and live: "cells H n \<noteq> None" and n: "n \<notin> pooled I qs fs"
  shows "\<exists>H' L'. clh_list_release_data (H, Q i) n = Inr (H', L') \<and>
           pool_inv I H' (Q(i := L')) qs (fs(i := n # fs i)) \<and>
           data_at H' = data_at H \<and> same_config (Q i) L' \<and> brk H' = brk H \<and>
           relinks {n} H H'"
proof -
  from live obtain nd where nd: "cells H n = Some nd" by auto
  have "n \<notin> set (qs i)" "n \<notin> set (fs i)" using n i by (auto simp: pooled_def)
  from release_data_spec [OF pool_inv_list [OF pool i] nd this] obtain H' L' where
    run: "clh_list_release_data (H, Q i) n = Inr (H', L')" and
    list: "list_inv H' L' (qs i) (n # fs i)" and
    re: "relinks {n} H H'" and conf: "same_config (Q i) L'"
    by blast
  have "pool_inv I H' (Q(i := L')) (qs(i := qs i)) (fs(i := n # fs i))"
    by (rule pool_relinks [OF pool i re list]) (use n in auto)
  with run re conf show ?thesis by (auto simp: relinks_def)
qed

text \<open>A new node belongs to no list of the pool until it is pushed or released.\<close>

lemma pool_new:
  assumes pool: "pool_inv I H Q qs fs" and i: "i \<in> I"
  shows "\<exists>H' L' n fs'. clh_list_new_node (H, Q i) = Inr ((H', L'), n) \<and>
           pool_inv I H' (Q(i := L')) qs (fs(i := fs')) \<and>
           takes_node H (Q i) (fs i) n fs' H' \<and> cells H' n \<noteq> None \<and>
           n \<notin> pooled I qs (fs(i := fs')) \<and> same_config (Q i) L'"
proof -
  note heap = pool_inv_heap [OF pool] and list_i = pool_inv_list [OF pool i]
  from new_node_spec [OF list_i heap] obtain H' L' n fs' where
    run: "clh_list_new_node (H, Q i) = Inr ((H', L'), n)" and
    list: "list_inv H' L' (qs i) fs'" and tk: "takes_node H (Q i) (fs i) n fs' H'" and
    n: "n \<notin> set (qs i)" "n \<notin> set fs'" and heap': "heap_inv H'" and conf: "same_config (Q i) L'"
    by blast
  have fresh: "n \<notin> set (qs j) \<union> set (fs j)" if "j \<in> I" "j \<noteq> i" for j
    using takes_node_fresh(1) [OF tk heap pool_inv_list [OF pool that(1)]]
      pool_other [OF pool i that(1)] that(2) by blast
  have sub: "set fs' \<subseteq> set (fs i)" using tk by (auto simp: takes_node_def)
  have "pool_inv I H' (Q(i := L')) (qs(i := qs i)) (fs(i := fs'))"
  proof (rule pool_upd [OF pool i heap' list])
    fix j a assume "j \<in> I" "j \<noteq> i" "a \<in> set (qs j) \<union> set (fs j)"
    then have "a \<noteq> n" using fresh by blast
    then show "cells H' a = cells H a"
      using tk by (simp add: takes_node_def)
  next
    fix j assume "j \<in> I" "j \<noteq> i"
    then show "(set (qs i) \<union> set fs') \<inter> (set (qs j) \<union> set (fs j)) = {}"
      using pool_other [OF pool i, of j] sub by blast
  qed
  moreover have "n \<notin> pooled I qs (fs(i := fs'))"
    using n fresh by (auto simp: pooled_def split: if_splits)
  ultimately show ?thesis using run tk conf by (auto simp: takes_node_def)
qed

section \<open>Data of a node\<close>

text \<open>The heap with other data in one node, the links as they were.\<close>

definition set_data :: "'a node_heap \<Rightarrow> nat \<Rightarrow> 'a \<Rightarrow> 'a node_heap" where
  "set_data H r x = H\<lparr>cells := (cells H)(r := map_option (node_data_update (\<lambda>_. x)) (cells H r))\<rparr>"

lemma set_data_cells [simp]:
  "cells (set_data H r x) a =
     (if a = r then map_option (node_data_update (\<lambda>_. x)) (cells H r) else cells H a)"
  by (simp add: set_data_def)

lemma brk_set_data [simp]: "brk (set_data H r x) = brk H"
  by (simp add: set_data_def)

lemma data_at_set_data:
  "data_at (set_data H r x) a = (if a = r \<and> cells H r \<noteq> None then Some x else data_at H a)"
  by (auto simp: data_at_def option.map_comp comp_def split: option.splits)

lemma dseg_set_data [simp]:
  "dseg (cells (set_data H r x)) p c xs l m = dseg (cells H) p c xs l m"
  by (induction xs arbitrary: p c) (auto split: option.splits)

lemma chain_set_data [simp]: "chain (cells (set_data H r x)) c xs = chain (cells H) c xs"
  by (induction xs arbitrary: c) (auto split: option.splits)

lemma pool_set_data [simp]: "pool_inv I (set_data H r x) Q qs fs = pool_inv I H Q qs fs"
  by (auto simp: pool_inv_def list_inv_def heap_inv_def)

lemma data_at_live: "data_at H a = None \<longleftrightarrow> cells H a = None"
  by (simp add: data_at_def)

lemma hupd_data:
  "cells H r = Some nd \<Longrightarrow>
     hupd H r (\<lambda>nd. nd\<lparr>node_data := f (node_data nd)\<rparr>) = Inr (set_data H r (f (node_data nd)))"
  by (simp add: set_data_def)

section \<open>Reading a list\<close>

text \<open>
  The nodes of a list, read by following its links; what an invariant says about the lists of a
  pool is then a statement about the heap alone.
\<close>

fun walk :: "nat \<Rightarrow> (nat \<Rightarrow> 'a clh_list_node option) \<Rightarrow> node_ptr \<Rightarrow> nat list" where
  "walk fuel h None = []"
| "walk 0 h (Some a) = []"
| "walk (Suc k) h (Some a) = (case h a of None \<Rightarrow> [] | Some nd \<Rightarrow> a # walk k h (node_next nd))"

definition list_nodes :: "'a node_heap \<Rightarrow> 'a clh_list \<Rightarrow> nat list" where
  "list_nodes H L = walk (brk H) (cells H) (list_head L)"

definition free_nodes :: "'a node_heap \<Rightarrow> 'a clh_list \<Rightarrow> nat list" where
  "free_nodes H L = walk (brk H) (cells H) (list_free_nodes L)"

lemma walk_chain: "chain h c xs \<Longrightarrow> length xs \<le> k \<Longrightarrow> walk k h c = xs"
proof (induction xs arbitrary: c k)
  case (Cons x xs)
  then show ?case by (cases k) (auto split: option.splits)
qed simp

lemma list_nodes_inv: "list_inv H L xs fs \<Longrightarrow> heap_inv H \<Longrightarrow> list_nodes H L = xs"
  using list_inv_length [of H L xs fs]
  by (auto simp: list_nodes_def list_inv_def dseg_chain intro!: walk_chain)

lemma free_nodes_inv: "list_inv H L xs fs \<Longrightarrow> heap_inv H \<Longrightarrow> free_nodes H L = fs"
  using list_inv_length [of H L xs fs]
  by (auto simp: free_nodes_def list_inv_def intro!: walk_chain)

lemma pool_nodes:
  assumes "pool_inv I H Q qs fs" and "i \<in> I"
  shows "list_nodes H (Q i) = qs i" and "free_nodes H (Q i) = fs i"
  using list_nodes_inv [OF pool_inv_list [OF assms] pool_inv_heap [OF assms(1)]]
    free_nodes_inv [OF pool_inv_list [OF assms] pool_inv_heap [OF assms(1)]] by simp_all

text \<open>Only one pair of families of node lists fits a pool.\<close>

lemma pool_inv_read:
  assumes "pool_inv I H Q qs fs"
  shows "pool_inv I H Q (\<lambda>i. list_nodes H (Q i)) (\<lambda>i. free_nodes H (Q i))"
  using assms pool_nodes [OF assms]
  by (subst pool_inv_cong [where Q' = Q and qs' = qs and fs' = fs]) auto

lemma pool_push_data:
  assumes pool: "pool_inv I H Q qs fs" and i: "i \<in> I"
  shows "\<exists>H' L' n fs'. clh_list_push_data (H, Q i) x = Inr (H', L') \<and>
           pool_inv I H' (Q(i := L')) (qs(i := qs i @ [n])) (fs(i := fs')) \<and>
           data_at H' n = Some x \<and> n \<notin> (\<Union>j \<in> I. set (qs j)) \<and>
           (\<forall>a. a \<noteq> n \<longrightarrow> data_at H' a = data_at H a) \<and> same_config (Q i) L'"
proof -
  from pool_new [OF pool i] obtain H1 L1 n fs' where
    new: "clh_list_new_node (H, Q i) = Inr ((H1, L1), n)" and
    pool1: "pool_inv I H1 (Q(i := L1)) qs (fs(i := fs'))" and
    tk: "takes_node H (Q i) (fs i) n fs' H1" and live: "cells H1 n \<noteq> None" and
    n: "n \<notin> pooled I qs (fs(i := fs'))" and conf: "same_config (Q i) L1"
    by blast
  from live obtain nd where nd: "cells H1 n = Some nd" by auto
  have upd: "hupd H1 n (\<lambda>y. y\<lparr>node_data := x\<rparr>) = Inr (set_data H1 n x)"
    using nd by (simp add: set_data_def)
  have "pool_inv I (set_data H1 n x) (Q(i := L1)) qs (fs(i := fs'))" using pool1 by simp
  from pool_push [OF this i _ n] live obtain H' L' where
    push: "clh_list_push_node (set_data H1 n x, L1) n = Inr (H', L')" and
    pool': "pool_inv I H' (Q(i := L')) (qs(i := qs i @ [n])) (fs(i := fs'))" and
    data: "data_at H' = data_at (set_data H1 n x)" and conf': "same_config L1 L'"
    by auto
  have "data_at H' a = data_at H a" if "a \<noteq> n" for a
    using tk that by (simp add: data data_at_set_data takes_node_def data_at_def)
  moreover have "n \<notin> (\<Union>j \<in> I. set (qs j))" using n by (auto simp: pooled_def)
  moreover have "data_at H' n = Some x" using live by (simp add: data data_at_set_data)
  ultimately show ?thesis
    using new upd push pool' same_config_trans [OF conf conf']
    by (auto simp: clh_list_push_data_def)
qed

end
