(* ===== verification/Clh_Tree.thy ===== *)
theory Clh_Tree
  imports Clh_Cache
begin

text \<open>
  The search tree of the cache, link by link: walks along links are paths in a functional tree of
  node addresses, a write through a slot replaces the subtree at the end of its path, and the tree
  as a whole stands for a finite map from buffer addresses to memory handles. Nothing here depends
  on where the nodes come from.
\<close>

section \<open>Paths in trees\<close>

datatype dir = Go_Left | Go_Right

fun subtree_at :: "'a tree \<Rightarrow> dir list \<Rightarrow> 'a tree" where
  "subtree_at t [] = t"
| "subtree_at (Node l a r) (Go_Left # ds) = subtree_at l ds"
| "subtree_at (Node l a r) (Go_Right # ds) = subtree_at r ds"
| "subtree_at Leaf (d # ds) = Leaf"

fun graft_at :: "'a tree \<Rightarrow> dir list \<Rightarrow> 'a tree \<Rightarrow> 'a tree" where
  "graft_at t [] u = u"
| "graft_at (Node l a r) (Go_Left # ds) u = Node (graft_at l ds u) a r"
| "graft_at (Node l a r) (Go_Right # ds) u = Node l a (graft_at r ds u)"
| "graft_at Leaf (d # ds) u = Leaf"

fun valid_path :: "'a tree \<Rightarrow> dir list \<Rightarrow> bool" where
  "valid_path t [] = True"
| "valid_path (Node l a r) (Go_Left # ds) = valid_path l ds"
| "valid_path (Node l a r) (Go_Right # ds) = valid_path r ds"
| "valid_path Leaf (d # ds) = False"

fun slot_at :: "cnode_addr tree \<Rightarrow> slot \<Rightarrow> dir list \<Rightarrow> slot" where
  "slot_at t s [] = s"
| "slot_at (Node l a r) s (Go_Left # ds) = slot_at l (Slot_Left a) ds"
| "slot_at (Node l a r) s (Go_Right # ds) = slot_at r (Slot_Right a) ds"
| "slot_at Leaf s (d # ds) = s"

text \<open>The nodes before and after the subtree at a path, in order.\<close>

fun left_of :: "'a tree \<Rightarrow> dir list \<Rightarrow> 'a list" where
  "left_of (Node l a r) (Go_Left # ds) = left_of l ds"
| "left_of (Node l a r) (Go_Right # ds) = inorder l @ a # left_of r ds"
| "left_of _ _ = []"

fun right_of :: "'a tree \<Rightarrow> dir list \<Rightarrow> 'a list" where
  "right_of (Node l a r) (Go_Left # ds) = right_of l ds @ a # inorder r"
| "right_of (Node l a r) (Go_Right # ds) = right_of r ds"
| "right_of _ _ = []"

lemma inorder_subtree_at:
  "valid_path t ds \<Longrightarrow> inorder t = left_of t ds @ inorder (subtree_at t ds) @ right_of t ds"
  by (induction t ds rule: valid_path.induct) auto

lemma inorder_graft_at:
  "valid_path t ds \<Longrightarrow> inorder (graft_at t ds u) = left_of t ds @ inorder u @ right_of t ds"
  by (induction t ds rule: valid_path.induct) auto

lemma set_tree_inorder: "set_tree t = set (inorder t)"
  by simp

lemma set_subtree_at: "set_tree (subtree_at t ds) \<subseteq> set_tree t"
  by (induction t ds rule: subtree_at.induct) auto

lemma valid_path_append:
  "valid_path t (ds @ es) \<longleftrightarrow> valid_path t ds \<and> valid_path (subtree_at t ds) es"
  by (induction t ds rule: valid_path.induct) auto

lemma subtree_at_append: "subtree_at t (ds @ es) = subtree_at (subtree_at t ds) es"
  by (induction t ds rule: subtree_at.induct) (auto, cases es, auto)

lemma graft_at_append:
  "valid_path t ds \<Longrightarrow> graft_at t (ds @ es) u = graft_at t ds (graft_at (subtree_at t ds) es u)"
  by (induction t ds rule: valid_path.induct) auto

lemma slot_at_append:
  "valid_path t ds \<Longrightarrow> slot_at t s (ds @ es) = slot_at (subtree_at t ds) (slot_at t s ds) es"
  by (induction t ds arbitrary: s rule: valid_path.induct) auto

lemma subtree_at_graft_at: "valid_path t ds \<Longrightarrow> subtree_at (graft_at t ds u) ds = u"
  by (induction t ds rule: valid_path.induct) auto

lemma valid_path_graft_at: "valid_path t ds \<Longrightarrow> valid_path (graft_at t ds u) ds"
  by (induction t ds rule: valid_path.induct) auto

lemma slot_at_graft_at: "valid_path t ds \<Longrightarrow> slot_at (graft_at t ds u) s ds = slot_at t s ds"
  by (induction t ds arbitrary: s rule: valid_path.induct) auto

lemma graft_at_graft_at: "valid_path t ds \<Longrightarrow> graft_at (graft_at t ds u) ds v = graft_at t ds v"
  by (induction t ds rule: valid_path.induct) auto

section \<open>Trees in the arena\<close>

type_synonym cnodes = "cnode_addr \<Rightarrow> clh_buffer_cache_node option"

fun root_ptr :: "'a tree \<Rightarrow> 'a option" where
  "root_ptr Leaf = None"
| "root_ptr (Node l a r) = Some a"

fun tree_at :: "cnodes \<Rightarrow> cnode_addr option \<Rightarrow> cnode_addr tree \<Rightarrow> bool" where
  "tree_at N p Leaf \<longleftrightarrow> p = None"
| "tree_at N p (Node l a r) \<longleftrightarrow> p = Some a \<and>
     (case N a of None \<Rightarrow> False
      | Some nd \<Rightarrow> tree_at N (node_left nd) l \<and> tree_at N (node_right nd) r)"

lemma tree_at_root: "tree_at N p t \<Longrightarrow> p = root_ptr t"
  by (cases t) auto

lemma tree_at_cong:
  "(\<And>a. a \<in> set_tree t \<Longrightarrow> N a = N' a) \<Longrightarrow> tree_at N p t = tree_at N' p t"
  by (induction t arbitrary: p) (auto split: option.splits)

lemma tree_at_live: "tree_at N p t \<Longrightarrow> a \<in> set_tree t \<Longrightarrow> N a \<noteq> None"
  by (induction t arbitrary: p) (auto split: option.splits)

lemma tree_at_subtree:
  "tree_at N p t \<Longrightarrow> valid_path t ds \<Longrightarrow>
     tree_at N (root_ptr (subtree_at t ds)) (subtree_at t ds)"
proof (induction t ds arbitrary: p rule: valid_path.induct)
  case (1 t)
  then show ?case by (auto dest: tree_at_root)
qed (auto split: option.splits)

lemma tree_at_graft:
  assumes "tree_at N p t" "distinct (inorder t)" "valid_path t ds"
    and "\<And>x. x \<in> set_tree t \<Longrightarrow> x \<notin> set_tree (subtree_at t ds) \<Longrightarrow> N' x = N x"
    and "tree_at N' (root_ptr (subtree_at t ds)) u"
  shows "tree_at N' p (graft_at t ds u)"
  using assms
proof (induction t ds arbitrary: p rule: valid_path.induct)
  case (1 t)
  then show ?case by (auto dest: tree_at_root)
next
  case (2 l a r ds)
  have "a \<notin> set_tree (subtree_at l ds)" "set_tree r \<inter> set_tree (subtree_at l ds) = {}"
    using 2(3) set_subtree_at [of l ds] by auto
  with 2 have "N' a = N a" "\<And>x. x \<in> set_tree r \<Longrightarrow> N' x = N x" by auto
  moreover have "tree_at N' (node_left nd) (graft_at l ds u)" if "N a = Some nd" for nd
    using 2 that by (intro "2.IH") auto
  moreover have "tree_at N' q r = tree_at N q r" for q
    using calculation(2) by (rule tree_at_cong)
  ultimately show ?case
    using 2(2) by (auto split: option.splits)
next
  case (3 l a r ds)
  have "a \<notin> set_tree (subtree_at r ds)" "set_tree l \<inter> set_tree (subtree_at r ds) = {}"
    using 3(3) set_subtree_at [of r ds] by auto
  with 3 have "N' a = N a" "\<And>x. x \<in> set_tree l \<Longrightarrow> N' x = N x" by auto
  moreover have "tree_at N' (node_right nd) (graft_at r ds u)" if "N a = Some nd" for nd
    using 3 that by (intro "3.IH") auto
  moreover have "tree_at N' q l = tree_at N q l" for q
    using calculation(2) by (rule tree_at_cong)
  ultimately show ?case
    using 3(2) by (auto split: option.splits)
qed simp

section \<open>Reading and writing slots\<close>

lemma slot_read_at:
  assumes "tree_at (cache_nodes C) p t" and "slot_read C s = Inr p" and "valid_path t ds"
  shows "slot_read C (slot_at t s ds) = Inr (root_ptr (subtree_at t ds))"
  using assms
proof (induction t ds arbitrary: p s rule: valid_path.induct)
  case (1 t)
  then show ?case by (auto dest: tree_at_root)
qed (auto simp: cnode_get_def split: option.splits)

lemma slot_at_last:
  "valid_path t (ds @ [Go_Left]) \<Longrightarrow>
     \<exists>l a r. subtree_at t ds = Node l a r \<and> slot_at t s (ds @ [Go_Left]) = Slot_Left a"
  "valid_path t (ds @ [Go_Right]) \<Longrightarrow>
     \<exists>l a r. subtree_at t ds = Node l a r \<and> slot_at t s (ds @ [Go_Right]) = Slot_Right a"
  by (cases "subtree_at t ds"; auto simp: valid_path_append slot_at_append)+

text \<open>What a slot write leaves alone.\<close>

definition same_cache :: "clh_buffer_cache \<Rightarrow> clh_buffer_cache \<Rightarrow> bool" where
  "same_cache C C' \<longleftrightarrow>
     cache_size C' = cache_size C \<and> cache_capacity C' = cache_capacity C \<and>
     cache_mutex C' = cache_mutex C \<and> cache_allocator C' = cache_allocator C \<and>
     (\<forall>x. map_option node_value (cache_nodes C' x) = map_option node_value (cache_nodes C x))"

text \<open>Replacing one child of a node.\<close>

definition set_child :: "dir \<Rightarrow> cnode_addr option \<Rightarrow> clh_buffer_cache_node \<Rightarrow> clh_buffer_cache_node" where
  "set_child d q nd = (case d of Go_Left \<Rightarrow> nd\<lparr>node_left := q\<rparr> | Go_Right \<Rightarrow> nd\<lparr>node_right := q\<rparr>)"

lemma node_value_set_child [simp]: "node_value (set_child d q nd) = node_value nd"
  by (cases d) (simp_all add: set_child_def)

lemma tree_at_set_child:
  assumes kids: "tree_at N (node_left nd) l" "tree_at N (node_right nd) r"
    and a: "N' a = Some (set_child d q nd)" and u: "tree_at N' q u"
    and same: "\<And>x. x \<in> set_tree l \<union> set_tree r \<Longrightarrow> x \<notin> set_tree (subtree_at (Node l a r) [d]) \<Longrightarrow>
                 N' x = N x"
    and dist: "distinct (inorder (Node l a r))"
  shows "tree_at N' (Some a) (graft_at (Node l a r) [d] u)"
proof (cases d)
  case Go_Left
  then have "N' x = N x" if "x \<in> set_tree r" for x using same [of x] dist that by auto
  then have "tree_at N' (node_right nd) r" using kids(2) tree_at_cong [of r N' N] by blast
  with Go_Left a u show ?thesis by (simp add: set_child_def)
next
  case Go_Right
  then have "N' x = N x" if "x \<in> set_tree l" for x using same [of x] dist that by auto
  then have "tree_at N' (node_left nd) l" using kids(1) tree_at_cong [of l N' N] by blast
  with Go_Right a u show ?thesis by (simp add: set_child_def)
qed

lemma slot_write_at:
  assumes t: "tree_at (cache_nodes C) (cache_data C) t" "distinct (inorder t)" "valid_path t ds"
  shows "\<exists>C'. slot_write C (slot_at t Slot_Root ds) q = Inr C' \<and> same_cache C C' \<and>
           (\<forall>x. x \<notin> set_tree t \<or> x \<in> set_tree (subtree_at t ds) \<longrightarrow>
                cache_nodes C' x = cache_nodes C x) \<and>
           (\<forall>N' u. tree_at N' q u \<and>
                (\<forall>x \<in> set_tree t. x \<notin> set_tree (subtree_at t ds) \<longrightarrow> N' x = cache_nodes C' x) \<longrightarrow>
                tree_at N' (cache_data C') (graft_at t ds u))"
proof (cases ds rule: rev_cases)
  case Nil
  then show ?thesis by (simp add: same_cache_def)
next
  case (snoc es d)
  from t(3) snoc obtain l a r where sub: "subtree_at t es = Node l a r"
    and valid: "valid_path t es"
    by (cases d; cases "subtree_at t es") (auto simp: valid_path_append)
  from tree_at_subtree [OF t(1) valid] sub obtain nd where nd: "cache_nodes C a = Some nd"
    and kids: "tree_at (cache_nodes C) (node_left nd) l" "tree_at (cache_nodes C) (node_right nd) r"
    by (auto split: option.splits)
  have dist: "distinct (inorder (Node l a r))"
    using t(2) inorder_subtree_at [OF valid] sub by auto
  have in_t: "set_tree (Node l a r) \<subseteq> set_tree t"
    using set_subtree_at [of t es] sub by simp
  then have a: "a \<in> set_tree t" by simp
  define C' where "C' = cnode_put C a (set_child d q nd)"
  have written: "slot_write C (slot_at t Slot_Root ds) q = Inr C'"
    using slot_at_last [of t es] t(3) snoc sub nd
    by (cases d) (auto simp: C'_def set_child_def cnode_get_def)
  have child: "subtree_at t ds = subtree_at (Node l a r) [d]"
    using sub by (simp add: snoc subtree_at_append)
  then have out: "a \<notin> set_tree (subtree_at t ds)" "set_tree (subtree_at t ds) \<subseteq> set_tree (Node l a r)"
    using dist by (cases d; auto)+
  have "tree_at N' (cache_data C') (graft_at t ds u)"
    if u: "tree_at N' q u"
      and agree: "\<And>x. x \<in> set_tree t \<Longrightarrow> x \<notin> set_tree (subtree_at t ds) \<Longrightarrow>
                     N' x = cache_nodes C' x" for N' u
  proof -
    have same: "N' x = cache_nodes C x" if "x \<in> set_tree t" "x \<notin> set_tree (subtree_at t ds)" "x \<noteq> a" for x
      using agree that by (simp add: C'_def cnode_put_def)
    have "tree_at N' (Some a) (graft_at (Node l a r) [d] u)"
    proof (rule tree_at_set_child [OF kids _ u _ dist])
      show "N' a = Some (set_child d q nd)" using agree a out(1) by (simp add: C'_def cnode_put_def)
    qed (use same in_t dist child in auto)
    moreover have "N' x = cache_nodes C x"
      if "x \<in> set_tree t" "x \<notin> set_tree (subtree_at t es)" for x
      using that same [of x] out(2) sub by auto
    ultimately show ?thesis
      using tree_at_graft [OF t(1,2) valid, of N' "graft_at (Node l a r) [d] u"] sub
      by (simp add: C'_def cnode_put_def snoc graft_at_append [OF valid])
  qed
  moreover have "same_cache C C'"
    using nd by (auto simp: same_cache_def C'_def cnode_put_def)
  moreover have "\<forall>x. x \<notin> set_tree t \<or> x \<in> set_tree (subtree_at t ds) \<longrightarrow>
      cache_nodes C' x = cache_nodes C x"
    using a out(1) by (auto simp: C'_def cnode_put_def)
  ultimately show ?thesis using written by blast
qed

text \<open>Hanging a tree into a slot that touches none of its nodes.\<close>

lemma slot_write_graft:
  assumes t: "tree_at (cache_nodes C) (cache_data C) t" "distinct (inorder t)" "valid_path t ds"
    and u: "tree_at (cache_nodes C) q u"
    and out: "\<forall>x \<in> set_tree u. x \<notin> set_tree t \<or> x \<in> set_tree (subtree_at t ds)"
  shows "\<exists>C'. slot_write C (slot_at t Slot_Root ds) q = Inr C' \<and> same_cache C C' \<and>
           tree_at (cache_nodes C') (cache_data C') (graft_at t ds u) \<and>
           (\<forall>x. x \<notin> set_tree t \<or> x \<in> set_tree (subtree_at t ds) \<longrightarrow>
                cache_nodes C' x = cache_nodes C x)"
proof -
  obtain C' where C': "slot_write C (slot_at t Slot_Root ds) q = Inr C'" "same_cache C C'"
    and keep: "\<forall>x. x \<notin> set_tree t \<or> x \<in> set_tree (subtree_at t ds) \<longrightarrow>
                 cache_nodes C' x = cache_nodes C x"
    and tree: "\<forall>N' u. tree_at N' q u \<and>
        (\<forall>x \<in> set_tree t. x \<notin> set_tree (subtree_at t ds) \<longrightarrow> N' x = cache_nodes C' x) \<longrightarrow>
        tree_at N' (cache_data C') (graft_at t ds u)"
    using slot_write_at [OF t, of q] by blast
  have "\<forall>x \<in> set_tree u. cache_nodes C' x = cache_nodes C x" using keep out by blast
  then have "tree_at (cache_nodes C') q u"
    using u tree_at_cong [of u "cache_nodes C'" "cache_nodes C"] by blast
  with tree C' keep show ?thesis by blast
qed


section \<open>The walks\<close>

text \<open>The key and the entry stored in a node.\<close>

definition ckey :: "cnodes \<Rightarrow> cnode_addr \<Rightarrow> mem_addr" where
  "ckey N a = (case N a of None \<Rightarrow> 0 | Some nd \<Rightarrow> entry_mem (node_value nd))"

definition cmemh :: "cnodes \<Rightarrow> cnode_addr \<Rightarrow> ucp_mem_h" where
  "cmemh N a = (case N a of None \<Rightarrow> 0 | Some nd \<Rightarrow> entry_memh (node_value nd))"

fun search_path :: "('a \<Rightarrow> mem_addr) \<Rightarrow> mem_addr \<Rightarrow> 'a tree \<Rightarrow> dir list" where
  "search_path k m Leaf = []"
| "search_path k m (Node l a r) =
     (if m < k a then Go_Left # search_path k m l
      else if m > k a then Go_Right # search_path k m r else [])"

fun left_path :: "'a tree \<Rightarrow> dir list" where
  "left_path Leaf = []"
| "left_path (Node l a r) = Go_Left # left_path l"

lemma valid_search_path [simp]: "valid_path t (search_path k m t)"
  by (induction t) auto

lemma valid_left_path [simp]: "valid_path t (left_path t)"
  by (induction t) auto

lemma subtree_left_path [simp]: "subtree_at t (left_path t) = Leaf"
  by (induction t) auto

lemma left_of_left_path [simp]: "left_of t (left_path t) = []"
  by (induction t) auto

lemma right_of_left_path [simp]: "right_of t (left_path t) = inorder t"
  by (induction t) auto

lemma search_loop_path:
  assumes "tree_at (cache_nodes C) p t" and "slot_read C s = Inr p" and "size t \<le> fuel"
  shows "buffer_cache_search_loop fuel C s m =
           Inr (slot_at t s (search_path (ckey (cache_nodes C)) m t))"
  using assms
proof (induction t arbitrary: p s fuel)
  case Leaf
  then show ?case by (simp add: buffer_cache_search_loop.simps [of fuel])
next
  case (Node l a r)
  then obtain nd k where nd: "cache_nodes C a = Some nd" "p = Some a" and fuel: "fuel = Suc k"
    by (cases fuel) (auto split: option.splits)
  have "slot_read C (Slot_Left a) = Inr (node_left nd)" "slot_read C (Slot_Right a) = Inr (node_right nd)"
    using nd by (simp_all add: cnode_get_def)
  moreover have "ckey (cache_nodes C) a = entry_mem (node_value nd)"
    using nd by (simp add: ckey_def)
  ultimately show ?case
    using Node nd fuel
    by (subst buffer_cache_search_loop.simps) (auto simp: cnode_get_def)
qed

lemma leftmost_loop_path:
  assumes "tree_at (cache_nodes C) p t" and "slot_read C s = Inr p" and "size t \<le> fuel"
  shows "leftmost_loop fuel C s = Inr (slot_at t s (left_path t))"
  using assms
proof (induction t arbitrary: p s fuel)
  case Leaf
  then show ?case by (simp add: leftmost_loop.simps [of fuel])
next
  case (Node l a r)
  then obtain nd k where nd: "cache_nodes C a = Some nd" "p = Some a" and fuel: "fuel = Suc k"
    by (cases fuel) (auto split: option.splits)
  have "slot_read C (Slot_Left a) = Inr (node_left nd)"
    using nd by (simp add: cnode_get_def)
  with Node nd fuel show ?case
    by (subst leftmost_loop.simps) auto
qed

text \<open>In a search tree the path of a key separates the smaller from the larger keys.\<close>

lemma search_path_separates:
  assumes "sorted_wrt (<) (map k (inorder t))"
  shows "(\<forall>x \<in> set (left_of t (search_path k m t)). k x < m) \<and>
         (\<forall>x \<in> set (right_of t (search_path k m t)). m < k x)"
  using assms by (induction t) (auto simp: sorted_wrt_append)

lemma search_path_end:
  "subtree_at t (search_path k m t) = Node l a r \<Longrightarrow> k a = m"
  by (induction t) (auto split: if_splits)

section \<open>Search trees as maps\<close>

definition tree_rep :: "cnodes \<Rightarrow> cnode_addr option \<Rightarrow> cnode_addr tree \<Rightarrow> bool" where
  "tree_rep N p t \<longleftrightarrow> tree_at N p t \<and> sorted_wrt (<) (map (ckey N) (inorder t)) \<and>
     (\<forall>a \<in> set_tree t. ckey N a \<noteq> 0)"

definition entries_of :: "cnodes \<Rightarrow> cnode_addr list \<Rightarrow> (mem_addr \<times> ucp_mem_h) list" where
  "entries_of N as = map (\<lambda>a. (ckey N a, cmemh N a)) as"

definition tree_map :: "cnodes \<Rightarrow> cnode_addr tree \<Rightarrow> (mem_addr \<rightharpoonup> ucp_mem_h)" where
  "tree_map N t = map_of (entries_of N (inorder t))"

text \<open>The tree can be read off the nodes.\<close>

fun read_tree :: "nat \<Rightarrow> cnodes \<Rightarrow> cnode_addr option \<Rightarrow> cnode_addr tree" where
  "read_tree fuel N None = Leaf"
| "read_tree 0 N (Some a) = Leaf"
| "read_tree (Suc fuel) N (Some a) =
     (case N a of None \<Rightarrow> Leaf
      | Some nd \<Rightarrow> Node (read_tree fuel N (node_left nd)) a (read_tree fuel N (node_right nd)))"

lemma read_tree_at: "tree_at N p t \<Longrightarrow> size t \<le> fuel \<Longrightarrow> read_tree fuel N p = t"
proof (induction t arbitrary: p fuel)
  case Leaf
  then show ?case by simp
next
  case (Node l a r)
  then show ?case by (cases fuel) (auto split: option.splits)
qed

lemma tree_rep_distinct: "tree_rep N p t \<Longrightarrow> distinct (inorder t)"
  unfolding tree_rep_def by (metis distinct_map strict_sorted_iff)

lemma tree_rep_live: "tree_rep N p t \<Longrightarrow> a \<in> set_tree t \<Longrightarrow> N a \<noteq> None"
  unfolding tree_rep_def by (metis tree_at_live)

lemma tree_rep_size:
  assumes "tree_rep N p t" and "set_tree t \<subseteq> set as"
  shows "size t \<le> length as"
proof -
  have "card (set (inorder t)) \<le> length as"
    using assms(2) by (metis List.finite_set card_length card_mono le_trans set_inorder)
  then show ?thesis using tree_rep_distinct [OF assms(1)] by (metis distinct_card length_inorder)
qed

lemma tree_map_dom: "dom (tree_map N t) = ckey N ` set_tree t"
  by (auto simp: tree_map_def entries_of_def dom_map_of_conv_image_fst image_image)

lemma tree_rep_keys:
  assumes "tree_rep N p t"
  shows "inj_on (ckey N) (set_tree t)" and "card (dom (tree_map N t)) = size t"
proof -
  have "distinct (map (ckey N) (inorder t))"
    using assms strict_sorted_iff by (auto simp: tree_rep_def)
  then show inj: "inj_on (ckey N) (set_tree t)" by (simp add: distinct_map)
  have "card (set_tree t) = size t"
    using tree_rep_distinct [OF assms] by (metis distinct_card length_inorder set_inorder)
  then show "card (dom (tree_map N t)) = size t" using inj by (simp add: tree_map_dom card_image)
qed

lemma map_of_entries_sep:
  assumes "\<forall>x \<in> set as. ckey N x < m" and "\<forall>x \<in> set bs. m < ckey N x"
  shows "map_of (entries_of N (as @ bs)) m = None"
    and "ckey N a = m \<Longrightarrow> map_of (entries_of N (as @ a # bs)) m = Some (cmemh N a)"
    and "ckey N a = m \<Longrightarrow>
           map_of (entries_of N (as @ a # bs)) = (map_of (entries_of N (as @ bs)))(m \<mapsto> cmemh N a)"
    and "ckey N a = m \<Longrightarrow>
           map_of (entries_of N (as @ bs)) = (map_of (entries_of N (as @ a # bs)))(m := None)"
proof -
  have as: "map_of (entries_of N as) m = None" and bs: "map_of (entries_of N bs) m = None"
    using assms by (auto simp: entries_of_def map_of_eq_None_iff)
  have app: "map_of (entries_of N (xs @ ys)) = map_of (entries_of N ys) ++ map_of (entries_of N xs)"
    for xs ys by (simp add: entries_of_def)
  have cons: "map_of (entries_of N (a # bs)) = (map_of (entries_of N bs))(ckey N a \<mapsto> cmemh N a)" for a
    by (simp add: entries_of_def)
  show "map_of (entries_of N (as @ bs)) m = None"
    using as bs by (simp add: app map_add_def)
  show "map_of (entries_of N (as @ a # bs)) m = Some (cmemh N a)" if "ckey N a = m"
    using as that by (simp add: app cons map_add_def)
  show "map_of (entries_of N (as @ a # bs)) = (map_of (entries_of N (as @ bs)))(m \<mapsto> cmemh N a)"
    if "ckey N a = m"
    using as that by (auto simp: app cons map_add_def fun_eq_iff split: option.splits)
  show "map_of (entries_of N (as @ bs)) = (map_of (entries_of N (as @ a # bs)))(m := None)"
    if "ckey N a = m"
    using as bs that by (auto simp: app cons map_add_def fun_eq_iff split: option.splits)
qed

text \<open>What the end of the search path says about the map.\<close>

lemma tree_map_search:
  assumes rep: "tree_rep N p t" and ds_def: "ds = search_path (ckey N) m t"
  shows "subtree_at t ds = Leaf \<Longrightarrow> tree_map N t m = None"
    and "subtree_at t ds = Node l a r \<Longrightarrow> ckey N a = m \<and> tree_map N t m = Some (cmemh N a)"
proof -
  let ?k = "ckey N"
  have sep: "\<forall>x \<in> set (left_of t ds). ?k x < m" "\<forall>x \<in> set (right_of t ds). m < ?k x"
    using search_path_separates [of ?k t m] rep by (simp_all add: tree_rep_def ds_def)
  have split: "inorder t = left_of t ds @ inorder (subtree_at t ds) @ right_of t ds"
    by (rule inorder_subtree_at) (simp add: ds_def)
  have sorted: "sorted_wrt (<) (map ?k (inorder t))"
    using rep by (simp add: tree_rep_def)
  show "tree_map N t m = None" if "subtree_at t ds = Leaf"
    using map_of_entries_sep(1) [OF sep] split that by (simp add: tree_map_def)
  show "?k a = m \<and> tree_map N t m = Some (cmemh N a)" if node: "subtree_at t ds = Node l a r"
  proof -
    have key: "?k a = m" using search_path_end node by (simp add: ds_def)
    have "\<forall>x \<in> set (left_of t ds @ inorder l). ?k x < m"
         "\<forall>x \<in> set (inorder r @ right_of t ds). m < ?k x"
      using sorted sep key by (auto simp: split node sorted_wrt_append)
    from map_of_entries_sep(2) [OF this key] show ?thesis
      using split node key by (simp add: tree_map_def)
  qed
qed

text \<open>So a search finds the node of a key, or the slot where one is missing.\<close>

lemma search_hit:
  assumes rep: "tree_rep N p t" and "tree_map N t m = Some h"
  obtains l a r nd where "subtree_at t (search_path (ckey N) m t) = Node l a r" and "a \<in> set_tree t"
    and "N a = Some nd" and "node_value nd = \<lparr>entry_memh = h, entry_mem = m\<rparr>"
proof -
  let ?ds = "search_path (ckey N) m t"
  note found = tree_map_search [OF rep refl, of m]
  from assms(2) found obtain l a r where sub: "subtree_at t ?ds = Node l a r"
    by (cases "subtree_at t ?ds") auto
  have a: "a \<in> set_tree t" using set_subtree_at [of t ?ds] sub by auto
  with rep obtain nd where nd: "N a = Some nd" using tree_rep_live by fastforce
  moreover have "node_value nd = \<lparr>entry_memh = h, entry_mem = m\<rparr>"
    using found(2) [OF sub] assms(2) nd by (simp add: ckey_def cmemh_def)
  ultimately show ?thesis using that sub a by blast
qed

lemma search_miss:
  assumes "tree_rep N p t" and "tree_map N t m = None"
  shows "subtree_at t (search_path (ckey N) m t) = Leaf"
  using assms tree_map_search(2) [OF assms(1) refl, of m] by (cases "subtree_at t (search_path (ckey N) m t)") auto

lemma ckey_value:
  "ckey N a = (case map_option node_value (N a) of None \<Rightarrow> 0 | Some v \<Rightarrow> entry_mem v)"
  by (simp add: ckey_def split: option.splits)

lemma cmemh_value:
  "cmemh N a = (case map_option node_value (N a) of None \<Rightarrow> 0 | Some v \<Rightarrow> entry_memh v)"
  by (simp add: cmemh_def split: option.splits)

lemma same_cache_keys:
  "same_cache C C' \<Longrightarrow> ckey (cache_nodes C') a = ckey (cache_nodes C) a"
  "same_cache C C' \<Longrightarrow> cmemh (cache_nodes C') a = cmemh (cache_nodes C) a"
  by (metis ckey_value same_cache_def, metis cmemh_value same_cache_def)

lemma same_cache_live:
  "same_cache C C' \<Longrightarrow> cache_nodes C' a = None \<longleftrightarrow> cache_nodes C a = None"
  by (metis map_option_is_None same_cache_def)

lemma entries_cong:
  "(\<And>a. a \<in> set as \<Longrightarrow> ckey N' a = ckey N a \<and> cmemh N' a = cmemh N a) \<Longrightarrow>
     entries_of N' as = entries_of N as"
  by (simp add: entries_of_def)

lemma sorted_insert_mid:
  assumes "sorted_wrt (<) (map k (as @ bs))" and "\<forall>x \<in> set as. k x < k a" and "\<forall>x \<in> set bs. k a < k x"
  shows "sorted_wrt (<) (map k (as @ a # bs))"
  using assms by (auto simp: sorted_wrt_append)

text \<open>A new leaf where the search ended is one more entry of the map.\<close>

lemma tree_rep_insert:
  assumes rep: "tree_rep N p t" and ds_def: "ds = search_path (ckey N) m t"
    and sub: "subtree_at t ds = Leaf" and nz: "m \<noteq> 0" and new: "a \<notin> set_tree t"
    and nodes: "\<And>x. x \<in> set_tree t \<Longrightarrow> map_option node_value (N' x) = map_option node_value (N x)"
      "map_option node_value (N' a) = Some \<lparr>entry_memh = memh, entry_mem = m\<rparr>"
    and tree: "tree_at N' p' (graft_at t ds (Node Leaf a Leaf))"
  shows "tree_rep N' p' (graft_at t ds (Node Leaf a Leaf)) \<and>
     tree_map N' (graft_at t ds (Node Leaf a Leaf)) = (tree_map N t)(m \<mapsto> memh) \<and>
     set_tree (graft_at t ds (Node Leaf a Leaf)) = insert a (set_tree t)"
proof -
  let ?t = "graft_at t ds (Node Leaf a Leaf)" and ?l = "left_of t ds" and ?r = "right_of t ds"
  let ?k = "ckey N" and ?k' = "ckey N'"
  have valid: "valid_path t ds" by (simp add: ds_def)
  have old: "?k' x = ?k x" "cmemh N' x = cmemh N x" if "x \<in> set_tree t" for x
    using nodes(1) [OF that] by (simp_all add: ckey_value cmemh_value)
  have key: "?k' a = m" "cmemh N' a = memh" using nodes(2) by (auto simp: ckey_def cmemh_def)
  have io: "inorder t = ?l @ ?r" "inorder ?t = ?l @ a # ?r"
    using inorder_subtree_at [OF valid] inorder_graft_at [OF valid] sub by simp_all
  have sets: "set_tree t = set ?l \<union> set ?r" "set_tree ?t = insert a (set ?l \<union> set ?r)"
    using arg_cong [OF io(1), of set] arg_cong [OF io(2), of set] by simp_all
  have "\<forall>x \<in> set ?l. ?k x < m" "\<forall>x \<in> set ?r. m < ?k x"
    using search_path_separates [of ?k t m] rep by (simp_all add: tree_rep_def ds_def)
  then have sep: "\<forall>x \<in> set ?l. ?k' x < m" "\<forall>x \<in> set ?r. m < ?k' x" using old by (simp_all add: sets)
  have "map ?k' (?l @ ?r) = map ?k (?l @ ?r)" using old by (intro map_cong) (auto simp: sets)
  then have "sorted_wrt (<) (map ?k' (?l @ ?r))" using rep by (simp only: tree_rep_def io)
  then have "sorted_wrt (<) (map ?k' (inorder ?t))"
    using sep key(1) unfolding io(2) by (intro sorted_insert_mid) (simp_all only:)
  then have "tree_rep N' p' ?t" using tree rep nz old key by (simp add: tree_rep_def sets)
  moreover have "entries_of N' (?l @ ?r) = entries_of N (?l @ ?r)"
    using old by (intro entries_cong) (auto simp: sets)
  then have "tree_map N' ?t = (tree_map N t)(m \<mapsto> memh)"
    using map_of_entries_sep(3) [OF sep key(1)] key(2) by (simp add: tree_map_def io)
  ultimately show ?thesis using sets by simp
qed

text \<open>Removing the node of a key keeps the other nodes in order.\<close>

lemma tree_rep_remove:
  assumes rep: "tree_rep N p t" and ds_def: "ds = search_path (ckey N) m t"
    and sub: "subtree_at t ds = Node l a r"
    and nodes: "\<And>x. x \<in> set_tree t \<Longrightarrow> x \<noteq> a \<Longrightarrow>
      map_option node_value (N' x) = map_option node_value (N x)"
    and tree: "tree_at N' p' (graft_at t ds (graft_at r (left_path r) l))"
  shows "tree_rep N' p' (graft_at t ds (graft_at r (left_path r) l)) \<and>
     tree_map N' (graft_at t ds (graft_at r (left_path r) l)) = (tree_map N t)(m := None) \<and>
     set_tree (graft_at t ds (graft_at r (left_path r) l)) = set_tree t - {a}"
proof -
  let ?t = "graft_at t ds (graft_at r (left_path r) l)" and ?k = "ckey N"
  let ?as = "left_of t ds @ inorder l" and ?bs = "inorder r @ right_of t ds"
  have valid: "valid_path t ds" by (simp add: ds_def)
  have io: "inorder t = ?as @ a # ?bs" "inorder ?t = ?as @ ?bs"
    using inorder_subtree_at [OF valid] sub
    by (simp_all add: inorder_graft_at [OF valid] inorder_graft_at)
  have out: "a \<notin> set (?as @ ?bs)" using tree_rep_distinct [OF rep] unfolding io(1) by auto
  have sets: "set_tree t = insert a (set (?as @ ?bs))" "set_tree ?t = set (?as @ ?bs)"
    using arg_cong [OF io(1), of set] arg_cong [OF io(2), of set] by auto
  have rest: "set_tree ?t = set_tree t - {a}" unfolding sets using out by blast
  have old: "ckey N' x = ?k x" "cmemh N' x = cmemh N x" if "x \<in> set (?as @ ?bs)" for x
  proof -
    have "x \<in> set_tree t" "x \<noteq> a" using that out by (simp_all only: sets) blast+
    from nodes [OF this] show "ckey N' x = ?k x" "cmemh N' x = cmemh N x"
      by (simp_all add: ckey_value cmemh_value)
  qed
  have same: "map (ckey N') (?as @ ?bs) = map ?k (?as @ ?bs)" using old by (intro map_cong) auto
  have sorted: "sorted_wrt (<) (map ?k (?as @ a # ?bs))" using rep by (simp only: tree_rep_def io)
  then have "sorted_wrt (<) (map ?k (?as @ ?bs))" by (auto simp: sorted_wrt_append)
  moreover have "ckey N' x \<noteq> 0" if "x \<in> set_tree ?t" for x
    using rep that rest old(1) [of x] sets(2) by (auto simp: tree_rep_def)
  ultimately have "tree_rep N' p' ?t"
    using tree unfolding tree_rep_def io(2) same by blast
  moreover have key: "?k a = m" using search_path_end sub by (simp add: ds_def)
  then have "\<forall>x \<in> set ?as. ?k x < m" "\<forall>x \<in> set ?bs. m < ?k x"
    using sorted by (auto simp: sorted_wrt_append)
  from map_of_entries_sep(4) [OF this key]
  have "map_of (entries_of N (inorder ?t)) = (tree_map N t)(m := None)" by (simp add: tree_map_def io)
  moreover have "entries_of N' (inorder ?t) = entries_of N (inorder ?t)"
    using old unfolding io(2) by (intro entries_cong) auto
  ultimately show ?thesis using rest by (simp add: tree_map_def)
qed

section \<open>Taking a node out\<close>

lemma size_subtree_at: "valid_path t ds \<Longrightarrow> size (subtree_at t ds) \<le> size t"
  using arg_cong [OF inorder_subtree_at [of t ds], of length] by simp

lemma same_cache_trans: "same_cache C C' \<Longrightarrow> same_cache C' C'' \<Longrightarrow> same_cache C C''"
  by (simp add: same_cache_def)

text \<open>
  The right child takes the place of the node, the left one goes to the end of its leftmost path.
\<close>

lemma relink_tree:
  assumes t: "tree_at (cache_nodes C) (cache_data C) t" "distinct (inorder t)" "valid_path t ds"
    and sub: "subtree_at t ds = Node l a r" and fuel: "size t \<le> fuel"
  shows "\<exists>nd C1 C2. slot_read C (slot_at t Slot_Root ds) = Inr (Some a) \<and> cache_nodes C a = Some nd \<and>
     slot_write C (slot_at t Slot_Root ds) (node_right nd) = Inr C1 \<and>
     leftmost_loop fuel C1 (slot_at t Slot_Root ds) =
       Inr (slot_at r (slot_at t Slot_Root ds) (left_path r)) \<and>
     slot_write C1 (slot_at r (slot_at t Slot_Root ds) (left_path r)) (node_left nd) = Inr C2 \<and>
     same_cache C C1 \<and> same_cache C C2 \<and> slot_read C1 (slot_at t Slot_Root ds) = Inr (node_right nd) \<and>
     tree_at (cache_nodes C1) (node_right nd) r \<and>
     tree_at (cache_nodes C2) (cache_data C2) (graft_at t ds (graft_at r (left_path r) l))"
proof -
  let ?s = "slot_at t Slot_Root ds" and ?t1 = "graft_at t ds r"
  note graft = valid_path_graft_at [OF t(3)] slot_at_graft_at [OF t(3)] subtree_at_graft_at [OF t(3)]
  from tree_at_subtree [OF t(1,3)] sub obtain nd where nd: "cache_nodes C a = Some nd"
    and nd_kids: "tree_at (cache_nodes C) (node_left nd) l" "tree_at (cache_nodes C) (node_right nd) r"
    by (auto split: option.splits)
  note ptrs = nd_kids [THEN tree_at_root]
  note kids = nd_kids [unfolded ptrs]
  have io: "inorder t = left_of t ds @ (inorder l @ a # inorder r) @ right_of t ds"
    "inorder ?t1 = left_of t ds @ inorder r @ right_of t ds"
    using inorder_subtree_at [OF t(3)] inorder_graft_at [OF t(3)] sub by simp_all
  have dist1: "distinct (inorder ?t1)" using t(2) unfolding io by auto
  have "set_tree ?t1 = set (left_of t ds @ inorder r @ right_of t ds)"
    using arg_cong [OF io(2), of set] by simp
  then have sets1: "set_tree l \<inter> set_tree ?t1 = {}" using t(2) unfolding io(1) by auto
  obtain C1 where C1: "slot_write C ?s (root_ptr r) = Inr C1" and same1: "same_cache C C1"
    and T1: "tree_at (cache_nodes C1) (cache_data C1) ?t1"
    and keep1: "\<forall>x. x \<notin> set_tree t \<or> x \<in> set_tree (subtree_at t ds) \<longrightarrow>
                 cache_nodes C1 x = cache_nodes C x"
    using slot_write_graft [OF t kids(2)] sub by auto
  have kids1: "tree_at (cache_nodes C1) (root_ptr l) l" "tree_at (cache_nodes C1) (root_ptr r) r"
    using kids keep1 sub tree_at_cong [of r "cache_nodes C1" "cache_nodes C"]
      tree_at_cong [of l "cache_nodes C1" "cache_nodes C"] by auto
  have "slot_read C1 (slot_at ?t1 Slot_Root ds) = Inr (root_ptr (subtree_at ?t1 ds))"
    using T1 by (intro slot_read_at) (auto simp: graft)
  then have read1: "slot_read C1 ?s = Inr (root_ptr r)" by (simp add: graft)
  have "size r \<le> fuel" using size_subtree_at [OF t(3)] sub fuel by simp
  then have walk: "leftmost_loop fuel C1 ?s = Inr (slot_at r ?s (left_path r))"
    by (rule leftmost_loop_path [OF kids1(2) read1])
  have path1: "valid_path ?t1 (ds @ left_path r)"
    "slot_at ?t1 Slot_Root (ds @ left_path r) = slot_at r ?s (left_path r)"
    by (simp_all add: valid_path_append slot_at_append [OF graft(1)] graft)
  have "\<forall>x \<in> set_tree l. x \<notin> set_tree ?t1 \<or> x \<in> set_tree (subtree_at ?t1 (ds @ left_path r))"
    using sets1 by blast
  from slot_write_graft [OF T1 dist1 path1(1) kids1(1) this] obtain C2 where
    C2: "slot_write C1 (slot_at r ?s (left_path r)) (root_ptr l) = Inr C2" and same2: "same_cache C1 C2"
    and T2: "tree_at (cache_nodes C2) (cache_data C2) (graft_at ?t1 (ds @ left_path r) l)"
    unfolding path1(2) by blast
  have "slot_read C ?s = Inr (Some a)"
    using slot_read_at [OF t(1) _ t(3), of Slot_Root] sub by simp
  moreover have "graft_at ?t1 (ds @ left_path r) l = graft_at t ds (graft_at r (left_path r) l)"
    by (simp add: graft_at_append [OF graft(1)] graft graft_at_graft_at [OF t(3)])
  ultimately show ?thesis
    using C1 C2 T2 walk nd ptrs same1 same_cache_trans [OF same1 same2] kids1(2) read1 by auto
qed

end
