(* ===== verification/Clh_Cache_Props.thy ===== *)
theory Clh_Cache_Props
  imports Clh_Tree Clh_Interfaces
begin

text \<open>
  The cache with its arena: the invariant, and that registering and unregistering implement a
  finite map from buffer addresses to memory handles.
\<close>

section \<open>The invariant and the map\<close>

definition arena_ok :: "clh_buffer_cache_node_allocator \<Rightarrow> bool" where
  "arena_ok A \<longleftrightarrow> block_counts A \<noteq> [] \<and> 0 < block_size A \<and>
     (\<forall>c \<in> set (block_counts A). c \<le> block_size A)"

definition cache_rep :: "clh_buffer_cache \<Rightarrow> cnode_addr tree \<Rightarrow> bool" where
  "cache_rep C t \<longleftrightarrow>
     tree_rep (cache_nodes C) (cache_data C) t \<and>
     arena_ok (cache_allocator C) \<and>
     (\<forall>a. cache_nodes C a \<noteq> None \<longleftrightarrow> a \<in> set (arena_nodes (cache_allocator C))) \<and>
     \<not> cache_mutex C"

text \<open>The map is a function of the cache.\<close>

definition cache_tree :: "clh_buffer_cache \<Rightarrow> cnode_addr tree" where
  "cache_tree C = read_tree (cache_fuel C) (cache_nodes C) (cache_data C)"

definition cache_inv :: "clh_buffer_cache \<Rightarrow> bool" where
  "cache_inv C \<longleftrightarrow> (\<exists>t. cache_rep C t)"

definition cache_map :: "clh_buffer_cache \<Rightarrow> (mem_addr \<rightharpoonup> ucp_mem_h)" where
  "cache_map C = tree_map (cache_nodes C) (cache_tree C)"

lemma in_arena_nodes:
  "a \<in> set (arena_nodes A) \<longleftrightarrow>
     fst a < length (block_counts A) \<and> snd a < block_counts A ! fst a"
  by (cases a) (auto simp: arena_nodes_def image_iff)

lemma length_arena_nodes: "length (arena_nodes A) = sum_list (block_counts A)"
  by (simp add: arena_nodes_def length_concat comp_def map_nth)

lemma cache_rep_tree_rep: "cache_rep C t \<Longrightarrow> tree_rep (cache_nodes C) (cache_data C) t"
  by (simp add: cache_rep_def)

lemma cache_rep_at: "cache_rep C t \<Longrightarrow> tree_at (cache_nodes C) (cache_data C) t"
  by (simp add: cache_rep_def tree_rep_def)

lemma cache_rep_free: "cache_rep C t \<Longrightarrow> \<not> cache_mutex C"
  by (simp add: cache_rep_def)

lemma cache_rep_live:
  "cache_rep C t \<Longrightarrow> a \<in> set_tree t \<Longrightarrow> a \<in> set (arena_nodes (cache_allocator C))"
  using tree_rep_live [of "cache_nodes C" "cache_data C" t a] unfolding cache_rep_def by blast

lemma cache_rep_distinct: "cache_rep C t \<Longrightarrow> distinct (inorder t)"
  by (rule tree_rep_distinct [OF cache_rep_tree_rep])

lemma cache_rep_size: "cache_rep C t \<Longrightarrow> size t \<le> cache_fuel C"
  using tree_rep_size [OF cache_rep_tree_rep, of C t "arena_nodes (cache_allocator C)"] cache_rep_live [of C t]
  unfolding cache_fuel_def length_arena_nodes by blast

lemma cache_rep_tree: "cache_rep C t \<Longrightarrow> cache_tree C = t"
  using cache_rep_size [of C t] by (simp add: cache_tree_def cache_rep_at read_tree_at)

lemma cache_inv_rep: "cache_inv C \<longleftrightarrow> cache_rep C (cache_tree C)"
  by (metis cache_inv_def cache_rep_tree)

text \<open>What there is to know of a cache when one of its functions is called.\<close>

lemma cache_invE:
  assumes "cache_inv C"
  obtains t where "cache_rep C t" and "tree_rep (cache_nodes C) (cache_data C) t"
    and "cache_map C = tree_map (cache_nodes C) t" and "\<not> cache_mutex C"
  using assms that cache_rep_tree cache_rep_free cache_rep_tree_rep
  by (auto simp: cache_inv_def cache_map_def)

lemma cache_search_rep:
  assumes "cache_rep C t"
  shows "buffer_cache_search (C\<lparr>cache_mutex := b\<rparr>) buffer =
           Inr (slot_at t Slot_Root (search_path (ckey (cache_nodes C)) (buf_mem buffer) t))"
  using cache_rep_at [OF assms] cache_rep_size [OF assms]
    search_loop_path [of "C\<lparr>cache_mutex := b\<rparr>" "cache_data C" t Slot_Root "cache_fuel C"]
  by (simp add: buffer_cache_search_def cache_fuel_def)

section \<open>The arena gives out fresh nodes inside its blocks\<close>

lemma create_node_spec:
  assumes ok: "arena_ok A" and create: "buffer_cache_node_allocator_create_node A = (a, A')"
  shows "arena_ok A' \<and> a \<notin> set (arena_nodes A) \<and>
         set (arena_nodes A') = insert a (set (arena_nodes A)) \<and> snd a < block_size A \<and>
         block_size A' = block_size A"
proof -
  define cs where "cs = (if last (block_counts A) \<ge> block_size A then block_counts A @ [0]
                         else block_counts A)"
  have cs: "cs \<noteq> []" "last cs < block_size A" "\<forall>c \<in> set cs. c \<le> block_size A"
    using ok by (auto simp: cs_def arena_ok_def)
  have old: "x \<in> set (arena_nodes A) \<longleftrightarrow> fst x < length cs \<and> snd x < cs ! fst x" for x
    by (auto simp: in_arena_nodes cs_def nth_append less_Suc_eq)
  from cs(1) obtain ds c where ds: "cs = ds @ [c]"
    by (cases cs rule: rev_cases) auto
  have a: "a = (length ds, c)" and A': "A' = A\<lparr>block_counts := ds @ [Suc c]\<rparr>"
    using create ds
    by (auto simp: buffer_cache_node_allocator_create_node_def Let_def cs_def [symmetric])
  have new: "x \<in> set (arena_nodes A') \<longleftrightarrow>
      fst x < Suc (length ds) \<and> snd x < (ds @ [Suc c]) ! fst x" for x
    by (simp add: in_arena_nodes A')
  have "x \<in> set (arena_nodes A') \<longleftrightarrow> x = a \<or> x \<in> set (arena_nodes A)" for x
    by (cases x; cases "fst x < length ds") (auto simp: new old a ds nth_append less_Suc_eq)
  moreover have "arena_ok A'"
    using cs ok ds by (auto simp: arena_ok_def A')
  moreover have "a \<notin> set (arena_nodes A)"
    by (simp add: old a ds)
  ultimately show ?thesis
    using cs(2) ds by (auto simp: a A')
qed

lemma create_rep: "cache_rep (clh_buffer_cache_create capacity) Leaf"
  by (auto simp: cache_rep_def tree_rep_def clh_buffer_cache_create_def arena_ok_def clh_mutex_create_def
      buffer_cache_node_allocator_create_def CACHE_BLOCK_SIZE_def in_arena_nodes)

lemma create_inv: "cache_inv (clh_buffer_cache_create capacity)"
  using create_rep by (auto simp: cache_inv_def)

lemma create_map: "cache_map (clh_buffer_cache_create capacity) = Map.empty"
  using cache_rep_tree [OF create_rep] by (simp add: cache_map_def tree_map_def entries_of_def)

section \<open>Registration\<close>

lemma mutex_restore [simp]: "\<not> cache_mutex C \<Longrightarrow> C\<lparr>cache_mutex := False\<rparr> = C"
  by (cases C) simp

lemma slot_read_mutex [simp]: "slot_read (C\<lparr>cache_mutex := b\<rparr>) s = slot_read C s"
  by (cases s) (simp_all add: cnode_get_def)

text \<open>The slot the search stops at, and what it holds.\<close>

lemma search_slot:
  assumes "cache_rep C t" and "valid_path t ds"
  shows "slot_read C (slot_at t Slot_Root ds) = Inr (root_ptr (subtree_at t ds))"
  using cache_rep_at [OF assms(1)] assms(2) by (intro slot_read_at) simp_all

lemma register_hit:
  assumes inv: "cache_inv C" and hit: "cache_map C (buf_mem b) = Some h" and "buf_mem b \<noteq> 0"
  shows "clh_buffer_cache_register_or_get U C u b =
           Inr (C, u, \<lparr>entry_memh = h, entry_mem = buf_mem b\<rparr>)"
proof -
  from inv obtain t where t: "cache_rep C t" "tree_rep (cache_nodes C) (cache_data C) t"
    "cache_map C = tree_map (cache_nodes C) t" "\<not> cache_mutex C" by (rule cache_invE)
  from search_hit [OF t(2) hit [unfolded t(3)]] obtain l a r nd where
    "subtree_at t (search_path (ckey (cache_nodes C)) (buf_mem b) t) = Node l a r"
    "cache_nodes C a = Some nd" "node_value nd = \<lparr>entry_memh = h, entry_mem = buf_mem b\<rparr>" .
  then show ?thesis
    using assms(3) t(4) search_slot [OF t(1)]
    by (simp add: clh_buffer_cache_register_or_get_def cache_lock_region_def
        cache_search_rep [OF t(1)] cnode_get_def)
qed

lemma register_fail:
  assumes inv: "cache_inv C" and miss: "cache_map C (buf_mem b) = None" and "buf_mem b \<noteq> 0"
    and map: "ucp_mem_map U u (buf_mem b) (buf_len b) = (status, memh, u')" "\<not> check_ucx status"
  shows "clh_buffer_cache_register_or_get U C u b = Inl Assert_Failed"
proof -
  from inv obtain t where t: "cache_rep C t" "tree_rep (cache_nodes C) (cache_data C) t"
    "cache_map C = tree_map (cache_nodes C) t" "\<not> cache_mutex C" by (rule cache_invE)
  from search_miss [OF t(2) miss [unfolded t(3)]] show ?thesis
    using assms(3) t(4) map search_slot [OF t(1)]
    by (simp add: clh_buffer_cache_register_or_get_def cache_lock_region_def
        cache_search_rep [OF t(1)] null_entry_def)
qed

lemma register_null:
  "buf_mem b = 0 \<Longrightarrow> clh_buffer_cache_register_or_get U C u b = Inr (C, u, null_entry)"
  by (simp add: clh_buffer_cache_register_or_get_def)

lemma register_miss:
  assumes inv: "cache_inv C" and miss: "cache_map C (buf_mem b) = None" and nz: "buf_mem b \<noteq> 0"
    and map: "ucp_mem_map U u (buf_mem b) (buf_len b) = (UCS_OK, memh, u')"
  shows "\<exists>C'. clh_buffer_cache_register_or_get U C u b =
             Inr (C', u', \<lparr>entry_memh = memh, entry_mem = buf_mem b\<rparr>) \<and>
           cache_inv C' \<and> cache_map C' = (cache_map C)(buf_mem b \<mapsto> memh)"
proof -
  from inv obtain t where t: "cache_rep C t" "tree_rep (cache_nodes C) (cache_data C) t"
    "cache_map C = tree_map (cache_nodes C) t" "\<not> cache_mutex C" by (rule cache_invE)
  define ds where "ds = search_path (ckey (cache_nodes C)) (buf_mem b) t"
  have sub: "subtree_at t ds = Leaf" using search_miss [OF t(2) miss [unfolded t(3)]] by (simp add: ds_def)
  obtain a A where aA: "buffer_cache_node_allocator_create_node (cache_allocator C) = (a, A)"
    by (rule prod.exhaust)
  have arena: "arena_ok A" "a \<notin> set (arena_nodes (cache_allocator C))"
      "set (arena_nodes A) = insert a (set (arena_nodes (cache_allocator C)))"
    using create_node_spec [OF _ aA] t(1) by (auto simp: cache_rep_def)
  then have a_new: "a \<notin> set_tree t" using cache_rep_live [OF t(1)] by blast
  let ?v = "\<lparr>entry_memh = memh, entry_mem = buf_mem b\<rparr>"
  let ?n = "\<lparr>node_value = ?v, node_left = None, node_right = None\<rparr>"
  let ?C1 = "C\<lparr>cache_mutex := True, cache_allocator := A\<rparr>"
  have t1: "tree_at (cache_nodes ?C1) (cache_data ?C1) t" "distinct (inorder t)" "valid_path t ds"
    using cache_rep_at [OF t(1)] cache_rep_distinct [OF t(1)] by (simp_all add: ds_def)
  obtain C2 where C2: "slot_write ?C1 (slot_at t Slot_Root ds) (Some a) = Inr C2"
    and same: "same_cache ?C1 C2"
    and tree: "\<forall>N' u. tree_at N' (Some a) u \<and> (\<forall>x \<in> set_tree t. N' x = cache_nodes C2 x) \<longrightarrow>
        tree_at N' (cache_data C2) (graft_at t ds u)"
    using slot_write_at [OF t1, of "Some a"] sub by auto
  define C3 where "C3 = (cnode_put C2 a ?n)\<lparr>cache_mutex := False\<rparr>"
  have run: "clh_buffer_cache_register_or_get U C u b = Inr (C3, u', ?v)"
    using nz t(4) map search_slot [OF t(1) t1(3)] sub aA C2 same
    by (simp add: clh_buffer_cache_register_or_get_def cache_lock_region_def
        cache_search_rep [OF t(1)] ds_def [symmetric] check_ucx_def Let_def C3_def
        same_cache_def cnode_put_def)
  have N3: "cache_nodes C3 = (cache_nodes C2)(a \<mapsto> ?n)" "cache_data C3 = cache_data C2"
      "cache_allocator C3 = A" "\<not> cache_mutex C3"
    using same by (auto simp: C3_def cnode_put_def same_cache_def)
  have vals: "map_option node_value (cache_nodes C3 x) =
      (if x = a then Some ?v else map_option node_value (cache_nodes C x))" for x
    using same by (cases x) (simp add: N3 same_cache_def)
  have at: "tree_at (cache_nodes C3) (cache_data C3) (graft_at t ds (Node Leaf a Leaf))"
    using a_new by (auto simp: N3 intro!: tree [rule_format])
  have "tree_rep (cache_nodes C3) (cache_data C3) (graft_at t ds (Node Leaf a Leaf)) \<and>
     tree_map (cache_nodes C3) (graft_at t ds (Node Leaf a Leaf)) =
       (tree_map (cache_nodes C) t)(buf_mem b \<mapsto> memh) \<and>
     set_tree (graft_at t ds (Node Leaf a Leaf)) = insert a (set_tree t)"
    by (rule tree_rep_insert [OF t(2) ds_def sub nz a_new _ _ at]) (use a_new vals in auto)
  moreover have gone: "cache_nodes C3 x = None \<longleftrightarrow> x \<noteq> a \<and> cache_nodes C x = None" for x
    using vals [of x] by (metis map_option_is_None option.distinct(1))
  have live: "cache_nodes C x = None \<longleftrightarrow> x \<notin> set (arena_nodes (cache_allocator C))" for x
    using t(1) unfolding cache_rep_def by blast
  have "\<forall>x. cache_nodes C3 x \<noteq> None \<longleftrightarrow> x \<in> set (arena_nodes A)"
    by (simp only: gone live arena(3)) simp
  ultimately have "cache_rep C3 (graft_at t ds (Node Leaf a Leaf))" and
    "tree_map (cache_nodes C3) (graft_at t ds (Node Leaf a Leaf)) = (cache_map C)(buf_mem b \<mapsto> memh)"
    using N3 arena t(3) by (simp_all add: cache_rep_def)
  then show ?thesis using run cache_rep_tree by (auto simp: cache_inv_def cache_map_def)
qed


section \<open>Removal\<close>

lemma unregister_absent:
  assumes inv: "cache_inv C" and miss: "cache_map C (buf_mem b) = None"
  shows "clh_buffer_cache_unregister U C u b = Inr (C, u, False)"
proof -
  from inv obtain t where t: "cache_rep C t" "tree_rep (cache_nodes C) (cache_data C) t"
    "cache_map C = tree_map (cache_nodes C) t" "\<not> cache_mutex C" by (rule cache_invE)
  from search_miss [OF t(2) miss [unfolded t(3)]] show ?thesis
    using search_slot [OF t(1)] t(4)
    by (simp add: clh_buffer_cache_unregister_def cache_lock_region_def cache_search_rep [OF t(1)])
qed

lemma unregister_present:
  assumes inv: "cache_inv C" and hit: "cache_map C (buf_mem b) = Some h"
    and unmap: "ucp_mem_unmap U u h = (status, u')"
  shows "\<exists>C'. clh_buffer_cache_unregister U C u b = Inr (C', u', check_ucx status) \<and>
           cache_inv C' \<and> same_cache C C' \<and>
           cache_map C' = (if check_ucx status then (cache_map C)(buf_mem b := None)
                           else cache_map C)"
proof -
  from inv obtain t where t: "cache_rep C t" "tree_rep (cache_nodes C) (cache_data C) t"
    "cache_map C = tree_map (cache_nodes C) t" "\<not> cache_mutex C" by (rule cache_invE)
  define ds where "ds = search_path (ckey (cache_nodes C)) (buf_mem b) t"
  from search_hit [OF t(2) hit [unfolded t(3)]] obtain l a r nd where
    sub: "subtree_at t ds = Node l a r" and nd: "cache_nodes C a = Some nd"
      "node_value nd = \<lparr>entry_memh = h, entry_mem = buf_mem b\<rparr>"
    unfolding ds_def .
  let ?C = "C\<lparr>cache_mutex := True\<rparr>" and ?t = "graft_at t ds (graft_at r (left_path r) l)"
  have t1: "tree_at (cache_nodes ?C) (cache_data ?C) t" "distinct (inorder t)" "valid_path t ds"
    "size t \<le> cache_fuel ?C"
    using cache_rep_at [OF t(1)] cache_rep_distinct [OF t(1)] cache_rep_size [OF t(1)]
    by (simp_all add: ds_def cache_fuel_def)
  obtain C1 where C1: "remove_node ?C (slot_at t Slot_Root ds) = Inr C1" "same_cache ?C C1"
      "tree_at (cache_nodes C1) (cache_data C1) ?t"
    using relink_tree [OF t1(1,2,3) sub t1(4)]
    by (auto simp: remove_node_def cnode_get_def same_cache_def cache_fuel_def)
  let ?C1 = "C1\<lparr>cache_mutex := False\<rparr>"
  have same: "same_cache C ?C1" using C1(2) t(4) by (simp add: same_cache_def)
  have vals: "map_option node_value (cache_nodes C1 x) = map_option node_value (cache_nodes C x)" for x
    using C1(2) by (cases x) (simp add: same_cache_def)
  have "tree_rep (cache_nodes C1) (cache_data C1) ?t \<and>
      tree_map (cache_nodes C1) ?t = (tree_map (cache_nodes C) t)(buf_mem b := None) \<and>
      set_tree ?t = set_tree t - {a}"
    by (rule tree_rep_remove [OF t(2) ds_def sub vals C1(3)])
  then have "cache_rep ?C1 ?t" and "tree_map (cache_nodes C1) ?t = (cache_map C)(buf_mem b := None)"
    using t(1,3) same same_cache_live [OF same] by (simp_all add: cache_rep_def same_cache_def)
  then have "cache_inv ?C1 \<and> cache_map ?C1 = (cache_map C)(buf_mem b := None)"
    using cache_rep_tree by (auto simp: cache_inv_def cache_map_def)
  moreover have "clh_buffer_cache_unregister U C u b =
      (if check_ucx status then Inr (?C1, u', True) else Inr (C, u', False))"
    using t(4) C1 nd unmap search_slot [OF t(1) t1(3)] sub
    by (simp add: clh_buffer_cache_unregister_def cache_lock_region_def cnode_get_def
        cache_search_rep [OF t(1)] ds_def [symmetric] same_cache_def)
  moreover have "same_cache C C" by (simp add: same_cache_def)
  ultimately show ?thesis using inv same by auto
qed

text \<open>
  The membership test faults in every state: it unlocks the mutex its lock region has unlocked.
\<close>

lemma is_registered_faults:
  assumes inv: "cache_inv C"
  shows "clh_buffer_cache_is_registered C b = Inl Unlock_Not_Held"
proof -
  have rep: "cache_rep C (cache_tree C)" using inv by (simp add: cache_inv_rep)
  then have "\<not> cache_mutex C" by (simp add: cache_rep_def)
  then show ?thesis
    by (simp add: clh_buffer_cache_is_registered_def cache_lock_region_def
        cache_search_rep [OF rep] clh_mutex_unlock_def)
qed

section \<open>The cache as a registry\<close>

text \<open>The handle registered for an address and a length, and the removal of an address.\<close>

definition cache_get ::
  "'u ucp \<Rightarrow> clh_buffer_cache \<Rightarrow> 'u \<Rightarrow> mem_addr \<Rightarrow> clh_u64 \<Rightarrow> (clh_buffer_cache \<times> 'u \<times> ucp_mem_h) res" where
  "cache_get U C u p len =
     ebind (clh_buffer_cache_register_or_get U C u \<lparr>buf_mem = p, buf_len = len\<rparr>)
       (\<lambda>(C, u, e). Inr (C, u, entry_memh e))"

definition cache_drop ::
  "'u ucp \<Rightarrow> clh_buffer_cache \<Rightarrow> 'u \<Rightarrow> mem_addr \<Rightarrow> clh_u64 \<Rightarrow> (clh_buffer_cache \<times> 'u \<times> bool) res" where
  "cache_drop U C u p len = clh_buffer_cache_unregister U C u \<lparr>buf_mem = p, buf_len = len\<rparr>"

text \<open>What the functions ask of UCP: to map the memory, and to unmap it again.\<close>

definition map_memory ::
  "'u ucp \<Rightarrow> 'u \<Rightarrow> mem_addr \<Rightarrow> clh_u64 \<Rightarrow> ('u \<times> ucp_mem_h) res" where
  "map_memory U u p len = (case ucp_mem_map U u p len of (status, memh, u) \<Rightarrow>
     if check_ucx status then Inr (u, memh) else Inl Assert_Failed)"

definition unmap_memory :: "'u ucp \<Rightarrow> 'u \<Rightarrow> ucp_mem_h \<Rightarrow> 'u \<times> bool" where
  "unmap_memory U u memh = (case ucp_mem_unmap U u memh of (status, u) \<Rightarrow> (u, check_ucx status))"

interpretation bc: exact_registry cache_inv cache_map "\<lambda>p. p \<noteq> 0" "cache_get U" "cache_drop U"
    "map_memory U" "unmap_memory U" 0
  for U :: "'u ucp"
proof unfold_locales
  fix C :: clh_buffer_cache and u :: 'u and p :: mem_addr and len :: clh_u64 and m :: ucp_mem_h
  let ?b = "\<lparr>buf_mem = p, buf_len = len\<rparr>"
  assume inv: "cache_inv C"
  show "cache_get U C u p len = Inr (C, u, 0)" if "\<not> p \<noteq> 0"
    using that by (simp add: cache_get_def register_null null_entry_def)
  show "cache_get U C u p len = Inr (C, u, m)" if "p \<noteq> 0" "cache_map C p = Some m"
    using register_hit [of C ?b m U u] that inv by (simp add: cache_get_def)
  show "case map_memory U u p len of Inl e \<Rightarrow> cache_get U C u p len = Inl e
      | Inr (u', m) \<Rightarrow> \<exists>C'. cache_get U C u p len = Inr (C', u', m) \<and> cache_inv C' \<and>
          cache_map C' = (cache_map C)(p \<mapsto> m)" if "p \<noteq> 0" "cache_map C p = None"
  proof -
    obtain st m1 u1 where map: "ucp_mem_map U u p len = (st, m1, u1)" by (rule prod_cases3)
    show ?thesis
      using register_miss [OF inv, of ?b U u m1 u1] register_fail [OF inv, of ?b U u st m1 u1] map that
      by (auto simp: cache_get_def map_memory_def check_ucx_def)
  qed
  show "cache_drop U C u p len = Inr (C, u, False)" if "cache_map C p = None"
    using unregister_absent [OF inv, of ?b U u] that by (simp add: cache_drop_def)
  show "\<exists>C'. cache_drop U C u p len = Inr (C', unmap_memory U u m) \<and> cache_inv C' \<and>
      cache_map C' = (if snd (unmap_memory U u m) then (cache_map C)(p := None) else cache_map C)"
    if "cache_map C p = Some m"
  proof -
    obtain st u1 where unmap: "ucp_mem_unmap U u m = (st, u1)" by (rule prod.exhaust)
    from unregister_present [OF inv, of ?b m U u st u1] that unmap show ?thesis
      by (auto simp: cache_drop_def unmap_memory_def)
  qed
qed

end
