(* ===== verification/Clh_Invariant.thy ===== *)
theory Clh_Invariant
  imports Clh_Api Clh_Pool Clh_Cache_Props
begin

text \<open>
  The invariant of a handle between two steps, in terms of what its queues, lists and arrays
  contain: every request is in one queue, in one free list, in flight, or in the hands of the
  user; queued requests have the form the worker expects; operations in flight have live,
  uncompleted requests and the counter of sends counts them; every received message lies in the
  list of the channel its tag names.
\<close>

section \<open>What a handle contains\<close>

definition req_at :: "'u clh_handle \<Rightarrow> nat \<Rightarrow> clh_request option" where
  "req_at h r = data_at (h_requests h) r"

definition queued :: "'u clh_handle \<Rightarrow> clh_request_type \<Rightarrow> nat list" where
  "queued h ty = list_nodes (h_requests h) (h_request_queues h ty)"

definition released :: "'u clh_handle \<Rightarrow> clh_request_type \<Rightarrow> nat list" where
  "released h ty = free_nodes (h_requests h) (h_request_queues h ty)"

definition received :: "'u clh_handle \<Rightarrow> nat \<Rightarrow> nat list" where
  "received h c = list_nodes (h_messages h) (h_recv_list h ! c)"

definition inflight :: "'u clh_handle \<Rightarrow> clh_op list" where
  "inflight h = array_list (h_ops_queue h)"

section \<open>Requests\<close>

text \<open>A request the worker can send: its endpoint exists and its data is that of a send.\<close>

definition send_ready :: "ucp_ep option list \<Rightarrow> clh_request \<Rightarrow> bool" where
  "send_ready eps q \<longleftrightarrow> req_type q = CLH_REQUEST_TYPE_SEND \<and> \<not> req_completed q \<and>
     (case req_data q of
        Send_Data d \<Rightarrow> unat (send_dest d) < length eps \<and> eps ! unat (send_dest d) \<noteq> None
      | _ \<Rightarrow> False)"

text \<open>
  A request the worker can receive into. It comes from \<open>clh_recv\<close> or from a probe, so its type
  may be that of a probe.
\<close>

definition recv_ready :: "clh_request \<Rightarrow> bool" where
  "recv_ready q \<longleftrightarrow> req_type q \<noteq> CLH_REQUEST_TYPE_SEND \<and> \<not> req_completed q \<and>
     (case req_data q of Recv_Data d \<Rightarrow> True | _ \<Rightarrow> False)"

lemma send_ready_iff:
  "send_ready eps q \<longleftrightarrow> req_type q = CLH_REQUEST_TYPE_SEND \<and> \<not> req_completed q \<and>
     (\<exists>d ep. req_data q = Send_Data d \<and> unat (send_dest d) < length eps \<and>
        eps ! unat (send_dest d) = Some ep)"
  by (cases "req_data q") (auto simp: send_ready_def)

lemma recv_ready_iff:
  "recv_ready q \<longleftrightarrow> req_type q \<noteq> CLH_REQUEST_TYPE_SEND \<and> \<not> req_completed q \<and>
     (\<exists>d. req_data q = Recv_Data d)"
  by (cases "req_data q") (auto simp: recv_ready_def)

definition opt_all :: "('a \<Rightarrow> bool) \<Rightarrow> 'a option \<Rightarrow> bool" where
  "opt_all P v \<longleftrightarrow> (case v of None \<Rightarrow> False | Some x \<Rightarrow> P x)"

lemma opt_all_iff: "opt_all P v \<longleftrightarrow> (\<exists>x. v = Some x \<and> P x)"
  by (cases v) (auto simp: opt_all_def)

definition queue_ok ::
  "ucp_ep option list \<Rightarrow> clh_request node_heap \<Rightarrow> (clh_request_type \<Rightarrow> nat list) \<Rightarrow> bool" where
  "queue_ok eps H qs \<longleftrightarrow> qs CLH_REQUEST_TYPE_PROBE = [] \<and>
     (\<forall>r \<in> set (qs CLH_REQUEST_TYPE_SEND). opt_all (send_ready eps) (data_at H r)) \<and>
     (\<forall>r \<in> set (qs CLH_REQUEST_TYPE_RECV). opt_all recv_ready (data_at H r))"

text \<open>
  \<open>clh_recv\<close> does not assign the channel of its request and the worker uses it as an index, so
  the bytes the allocator finds in a fresh node matter. \<open>channels_ok\<close> says that no node, fresh or
  old, names a channel out of range.
\<close>

definition channels_ok ::
  "clh_request node_heap \<Rightarrow> (clh_request_type \<Rightarrow> clh_request clh_list) \<Rightarrow> bool" where
  "channels_ok H Q \<longleftrightarrow>
     (\<forall>a q. data_at H a = Some q \<longrightarrow> channel_ok (req_channel q)) \<and>
     (\<forall>ty a. channel_ok (req_channel (node_data (list_allocator (Q ty) a))))"

section \<open>Operations in flight\<close>

definition op_ready :: "clh_request node_heap \<Rightarrow> clh_op \<Rightarrow> bool" where
  "op_ready H op \<longleftrightarrow> UCS_PTR_IS_PTR (op_status_ptr op) \<and>
     opt_all (\<lambda>q. \<not> req_completed q \<and>
       (req_type q = CLH_REQUEST_TYPE_SEND \<or> recv_ready q)) (data_at H (op_request op))"

definition is_send :: "clh_request node_heap \<Rightarrow> clh_op \<Rightarrow> bool" where
  "is_send H op \<longleftrightarrow>
     opt_all (\<lambda>q. req_type q = CLH_REQUEST_TYPE_SEND) (data_at H (op_request op))"

definition sends_of :: "clh_request node_heap \<Rightarrow> clh_op list \<Rightarrow> nat" where
  "sends_of H ops = length (filter (is_send H) ops)"

definition ops_ok ::
  "clh_request node_heap \<Rightarrow> nat set \<Rightarrow> clh_op clh_array \<Rightarrow> clh_u64 \<Rightarrow> bool" where
  "ops_ok H taken arr n \<longleftrightarrow>
     array_inv arr \<and>
     distinct (map op_request (array_list arr)) \<and>
     (\<forall>op \<in> set (array_list arr). op_ready H op \<and> op_request op \<notin> taken) \<and>
     n = of_nat (sends_of H (array_list arr)) \<and>
     sends_of H (array_list arr) \<le> CONF_SEND_THRESH"

section \<open>Messages\<close>

definition msg_ok :: "nat \<Rightarrow> clh_message \<Rightarrow> bool" where
  "msg_ok c m \<longleftrightarrow> unat (msg_channel m) = c \<and>
     clh_decode_tag (msg_full_tag m) = (msg_channel m, msg_sender_id m, msg_sender_tag m)"

definition msgs_ok ::
  "clh_message node_heap \<Rightarrow> clh_message clh_list list \<Rightarrow> (nat \<Rightarrow> nat list) \<Rightarrow> (nat \<Rightarrow> nat list) \<Rightarrow>
     bool" where
  "msgs_ok H Ls ms mf \<longleftrightarrow> length Ls = CLH_MAX_CHANNELS \<and>
     pool_inv {..<CLH_MAX_CHANNELS} H (\<lambda>c. Ls ! c) ms mf \<and>
     (\<forall>c < CLH_MAX_CHANNELS. \<forall>a \<in> set (ms c). opt_all (msg_ok c) (data_at H a))"

section \<open>The invariant\<close>

text \<open>
  \<open>cs\<close> are requests the worker has taken out of a queue and not yet posted; between steps there
  are none.
\<close>

definition reqs_ok ::
  "'u clh_handle \<Rightarrow> nat set \<Rightarrow> (clh_request_type \<Rightarrow> nat list) \<Rightarrow> (clh_request_type \<Rightarrow> nat list) \<Rightarrow> bool"
where
  "reqs_ok h cs qs fs \<longleftrightarrow>
     pool_inv UNIV (h_requests h) (h_request_queues h) qs fs \<and>
     queue_ok (h_endpoints h) (h_requests h) qs \<and>
     channels_ok (h_requests h) (h_request_queues h) \<and>
     ops_ok (h_requests h) (pooled UNIV qs fs \<union> cs) (h_ops_queue h) (h_send_count h)"

definition handle_rep ::
  "'u clh_handle \<Rightarrow> (clh_request_type \<Rightarrow> nat list) \<Rightarrow> (clh_request_type \<Rightarrow> nat list) \<Rightarrow>
     (nat \<Rightarrow> nat list) \<Rightarrow> (nat \<Rightarrow> nat list) \<Rightarrow> bool" where
  "handle_rep h qs fs ms mf \<longleftrightarrow>
     reqs_ok h {} qs fs \<and> msgs_ok (h_messages h) (h_recv_list h) ms mf \<and>
     cache_inv (h_buffer_cache h)"

definition handle_inv :: "'u clh_handle \<Rightarrow> bool" where
  "handle_inv h \<longleftrightarrow> (\<exists>qs fs ms mf. handle_rep h qs fs ms mf)"

text \<open>The families are those read off the handle.\<close>

lemma reqs_ok_queued: "reqs_ok h cs qs fs \<Longrightarrow> qs = queued h \<and> fs = released h"
  unfolding reqs_ok_def using pool_nodes [of UNIV "h_requests h" "h_request_queues h" qs fs]
  by (auto simp: queued_def released_def)

lemma msgs_ok_received:
  "msgs_ok (h_messages h) (h_recv_list h) ms mf \<Longrightarrow> c < CLH_MAX_CHANNELS \<Longrightarrow> ms c = received h c"
  unfolding msgs_ok_def received_def by (auto dest: pool_nodes(1))

lemma handle_inv_reqs: "handle_inv h \<Longrightarrow> reqs_ok h {} (queued h) (released h)"
  by (auto simp: handle_inv_def handle_rep_def dest: reqs_ok_queued)

text \<open>The user holds a request that is in no queue, in no free list and not in flight.\<close>

definition user_holds :: "'u clh_handle \<Rightarrow> nat \<Rightarrow> bool" where
  "user_holds h r \<longleftrightarrow> req_at h r \<noteq> None \<and>
     (\<forall>ty. r \<notin> set (queued h ty) \<union> set (released h ty)) \<and>
     r \<notin> op_request ` set (inflight h)"

text \<open>
  A request that was not released is completed only when the library is through with it.
\<close>

lemma completed_held:
  assumes inv: "handle_inv h" and r: "req_at h r = Some q" "req_completed q"
    and not_free: "\<And>ty. r \<notin> set (released h ty)"
  shows "user_holds h r"
proof -
  note reqs = handle_inv_reqs [OF inv]
  have ops: "op_ready (h_requests h) op" if "op \<in> set (inflight h)" for op
    using reqs that by (auto simp: reqs_ok_def ops_ok_def inflight_def)
  have "r \<notin> op_request ` set (inflight h)"
    using ops r by (fastforce simp: op_ready_def opt_all_iff req_at_def)
  moreover have "r \<notin> set (queued h ty)" for ty
    using reqs r by (cases ty)
      (auto simp: reqs_ok_def queue_ok_def opt_all_iff req_at_def send_ready_def recv_ready_def)
  ultimately show ?thesis using r not_free by (simp add: user_holds_def)
qed

section \<open>Access to requests\<close>

lemma get_request_Some [simp]: "req_at h r = Some q \<Longrightarrow> get_request h r = Inr q"
  by (auto simp: req_at_def data_at_def get_request_def)

lemma get_request_data [simp]: "data_at (h_requests h) r = Some q \<Longrightarrow> get_request h r = Inr q"
  using get_request_Some [of h r q] by (simp add: req_at_def)

lemma upd_request_Some:
  "data_at (h_requests h) r = Some q \<Longrightarrow>
     upd_request h r f = Inr (h\<lparr>h_requests := set_data (h_requests h) r (f q)\<rparr>)"
  using hupd_data [of "h_requests h" r _ f] by (auto simp: upd_request_def data_at_def)

lemma data_at_set_live:
  "data_at H r = Some q \<Longrightarrow> data_at (set_data H r x) = (data_at H)(r \<mapsto> x)"
  by (auto simp: data_at_set_data data_at_def fun_eq_iff)

section \<open>Changing one request\<close>

text \<open>
  A request outside the queues may change as it likes as long as its channel stays in range;
  an operation in flight has to keep its form.
\<close>

lemma queue_ok_upd:
  "queue_ok eps H qs \<Longrightarrow> (\<forall>ty. r \<notin> set (qs ty)) \<Longrightarrow> data_at H' = (data_at H)(r \<mapsto> x) \<Longrightarrow>
     queue_ok eps H' qs"
  by (auto simp: queue_ok_def)

lemma channels_ok_upd:
  "channels_ok H Q \<Longrightarrow> data_at H' = (data_at H)(r \<mapsto> x) \<Longrightarrow> channel_ok (req_channel x) \<Longrightarrow>
     channels_ok H' Q"
  by (auto simp: channels_ok_def)

lemma sends_of_cong:
  "(\<And>op. op \<in> set ops \<Longrightarrow> data_at H' (op_request op) = data_at H (op_request op)) \<Longrightarrow>
     sends_of H' ops = sends_of H ops"
  unfolding sends_of_def is_send_def by (metis (mono_tags, lifting) filter_cong)

lemma ops_ok_cong:
  assumes "\<And>op. op \<in> set (array_list arr) \<Longrightarrow>
      data_at H' (op_request op) = data_at H (op_request op)"
  shows "ops_ok H' A arr n = ops_ok H A arr n"
  using assms sends_of_cong [OF assms, of "array_list arr"]
  by (auto simp: ops_ok_def op_ready_def)

lemma ops_ok_anti: "ops_ok H B arr n \<Longrightarrow> A \<subseteq> B \<Longrightarrow> ops_ok H A arr n"
  by (auto simp: ops_ok_def)

end
