(* ===== verification/Clh_Run_Props.thy ===== *)
theory Clh_Run_Props
  imports Clh_Invariant "HOL-Library.Sublist"
begin

text \<open>
  What the steps of the worker do to the contents of the handle: the send queue is posted from
  its tail up to the bound on sends in flight, the receive queue is posted as a whole with each
  receive matched against the messages already received, finished operations leave the array and
  complete their request. Every step keeps the invariant.
\<close>

section \<open>What is relied on of UCP\<close>

text \<open>
  The posting calls pass \<open>UCP_OP_ATTR_FLAG_NO_IMM_CMPL\<close>, which forbids the library to report an
  immediate completion; a test that reports \<open>UCS_OK\<close> has filled in the infos of the receive.
\<close>

definition posts_requests :: "'u ucp \<Rightarrow> bool" where
  "posts_requests U \<longleftrightarrow>
     (\<forall>u ep p l t m. fst (ucp_tag_send_nbx U u ep p l t m) \<noteq> Status_Complete) \<and>
     (\<forall>u p l t k m. fst (ucp_tag_recv_nbx U u p l t k m) \<noteq> Status_Complete) \<and>
     (\<forall>u p l g m. fst (ucp_tag_msg_recv_nbx U u p l g m) \<noteq> Status_Complete)"

definition fills_infos :: "'u ucp \<Rightarrow> bool" where
  "fills_infos U \<longleftrightarrow>
     (\<forall>u r i. fst (ucp_tag_recv_request_test U u r i) = UCS_OK \<longrightarrow>
        snd (ucp_tag_recv_request_test U u r i) \<noteq> None)"

text \<open>A library that never fails; with it no assertion of the worker is violated.\<close>

definition ucp_reliable :: "'u ucp \<Rightarrow> bool" where
  "ucp_reliable U \<longleftrightarrow>
     (\<forall>u p l. fst (ucp_mem_map U u p l) = UCS_OK) \<and>
     (\<forall>u ep p l t m. \<not> UCS_PTR_IS_ERR (fst (ucp_tag_send_nbx U u ep p l t m))) \<and>
     (\<forall>u p l t k m. \<not> UCS_PTR_IS_ERR (fst (ucp_tag_recv_nbx U u p l t k m))) \<and>
     (\<forall>u p l g m. \<not> UCS_PTR_IS_ERR (fst (ucp_tag_msg_recv_nbx U u p l g m))) \<and>
     (\<forall>u r i e. fst (ucp_tag_recv_request_test U u r i) \<noteq> UCS_ERR e) \<and>
     (\<forall>u r e. ucp_request_check_status U u r \<noteq> UCS_ERR e)"

lemma reliable_map: "ucp_reliable U \<Longrightarrow> ucp_mem_map U u p l = (st, m, u') \<Longrightarrow> st = UCS_OK"
  by (metis ucp_reliable_def fst_conv)

text \<open>The fields only initialisation and finalisation write.\<close>

definition same_setup :: "'u clh_handle \<Rightarrow> 'u clh_handle \<Rightarrow> bool" where
  "same_setup h h' \<longleftrightarrow> h_pmi h' = h_pmi h \<and> h_address h' = h_address h \<and>
     h_endpoints h' = h_endpoints h \<and> h_run h' = h_run h"

lemma same_setup_refl [simp]: "same_setup h h"
  by (simp add: same_setup_def)

lemma same_setup_trans: "same_setup h h' \<Longrightarrow> same_setup h' h'' \<Longrightarrow> same_setup h h''"
  by (simp add: same_setup_def)

section \<open>Registration and posting\<close>

lemma register_outcome:
  assumes inv: "cache_inv C" and ok: "\<not> b \<longrightarrow> ucp_reliable U"
  shows "outcome b (clh_buffer_cache_register_or_get U C u buf)
           (\<lambda>(C', u', e). cache_inv C' \<and> entry_mem e = buf_mem buf)"
proof (cases "buf_mem buf = 0")
  case True
  then show ?thesis using inv by (simp add: register_null null_entry_def)
next
  case nz: False
  show ?thesis
  proof (cases "cache_map C (buf_mem buf)")
    case (Some m)
    then show ?thesis using register_hit [OF inv Some nz, of U u] inv by simp
  next
    case None
    obtain st memh u' where map: "ucp_mem_map U u (buf_mem buf) (buf_len buf) = (st, memh, u')"
      by (metis prod_cases3)
    show ?thesis
    proof (cases "st = UCS_OK")
      case True
      with map register_miss [OF inv None nz, of U u memh u'] show ?thesis by auto
    next
      case False
      then have "b" using ok map by (metis reliable_map)
      with register_fail [OF inv None nz map] False show ?thesis by (simp add: check_ucx_def)
    qed
  qed
qed

lemma ops_ok_append:
  assumes ok: "ops_ok H (insert r A) arr n" and r: "r \<notin> A"
    and op: "op_ready H op" "op_request op = r"
    and room: "is_send H op \<Longrightarrow> sends_of H (array_list arr) < CONF_SEND_THRESH"
  shows "\<exists>arr'. array_append arr op = Inr arr' \<and> array_list arr' = array_list arr @ [op] \<and>
           ops_ok H A arr' (if is_send H op then n + 1 else n)"
proof -
  from array_append_spec [of arr op] ok obtain arr' where
    "array_append arr op = Inr arr'" "array_inv arr'" "array_list arr' = array_list arr @ [op]"
    by (auto simp: ops_ok_def)
  moreover have "r \<notin> op_request ` set (array_list arr)" using ok by (auto simp: ops_ok_def)
  ultimately show ?thesis
    using ok r op room by (auto simp: ops_ok_def sends_of_def)
qed

text \<open>The bound on the sends in flight is compared on 64 bits.\<close>

lemma thresh_less:
  "k \<le> CONF_SEND_THRESH \<Longrightarrow>
     (of_nat k :: clh_u64) < of_nat CONF_SEND_THRESH \<longleftrightarrow> k < CONF_SEND_THRESH"
  by (simp add: word_less_nat_alt CONF_SEND_THRESH_def unat_of_nat)


lemma send_count_sends:
  "reqs_ok h cs qs fs \<Longrightarrow> h_send_count h = of_nat (sends_of (h_requests h) (inflight h)) \<and>
     sends_of (h_requests h) (inflight h) \<le> CONF_SEND_THRESH"
  by (simp add: reqs_ok_def ops_ok_def inflight_def)

section \<open>The send queue\<close>

text \<open>The parts of the handle that posting a request leaves alone.\<close>

definition same_lists :: "'u clh_handle \<Rightarrow> 'u clh_handle \<Rightarrow> bool" where
  "same_lists h h' \<longleftrightarrow> same_setup h h' \<and> h_requests h' = h_requests h \<and>
     h_request_queues h' = h_request_queues h \<and> h_messages h' = h_messages h \<and>
     h_recv_list h' = h_recv_list h"

lemma same_lists_refl [simp]: "same_lists h h"
  by (simp add: same_lists_def)

text \<open>Posting a request that is in nobody's list: it ends up last among the operations.\<close>

definition posted ::
  "'u clh_handle \<Rightarrow> nat set \<Rightarrow> (clh_request_type \<Rightarrow> nat list) \<Rightarrow> (clh_request_type \<Rightarrow> nat list) \<Rightarrow>
     nat \<Rightarrow> 'u clh_handle \<Rightarrow> bool" where
  "posted h A qs fs r h' \<longleftrightarrow>
     (\<exists>op. reqs_ok h' A qs fs \<and> cache_inv (h_buffer_cache h') \<and>
       inflight h' = inflight h @ [op] \<and> op_request op = r)"

lemma process_send_one_outcome:
  assumes reqs: "reqs_ok h (insert r A) qs fs" and cache: "cache_inv (h_buffer_cache h)"
    and r: "r \<notin> pooled UNIV qs fs \<union> A" and ready: "opt_all (send_ready (h_endpoints h)) (req_at h r)"
    and room: "sends_of (h_requests h) (inflight h) < CONF_SEND_THRESH"
    and U: "posts_requests U" "\<not> b \<longrightarrow> ucp_reliable U"
  shows "outcome b (process_send_one U h r) (\<lambda>(h', st).
           if st = CLH_STATUS_SUCCESS then posted h A qs fs r h' \<and> same_lists h h' else b)"
proof -
  from ready obtain q d ep where q: "req_at h r = Some q" "req_data q = Send_Data d"
    "req_type q = CLH_REQUEST_TYPE_SEND" "\<not> req_completed q"
    and ep: "unat (send_dest d) < length (h_endpoints h)"
      "h_endpoints h ! unat (send_dest d) = Some ep"
    by (auto simp: opt_all_iff send_ready_iff)
  have data: "data_at (h_requests h) r = Some q" using q(1) by (simp add: req_at_def)
  have post: "outcome b
      (ebind (ucx_send U (h\<lparr>h_buffer_cache := C', h_world := u'\<rparr>) r (entry_memh e)) (\<lambda>(h, status_ptr).
       ebind (validate_status_ptr h \<lparr>op_status_ptr = status_ptr, op_request = r\<rparr>) (\<lambda>(h, ok).
       if \<not> ok then Inr (h, CLH_STATUS_REQUEST_FAILURE)
       else Inr (h\<lparr>h_send_count := h_send_count h + 1\<rparr>, CLH_STATUS_SUCCESS))))
      (\<lambda>(h', st). if st = CLH_STATUS_SUCCESS then posted h A qs fs r h' \<and> same_lists h h' else b)"
    if C': "cache_inv C'" for C' u' and e :: clh_buffer_cache_entry
  proof -
    obtain sp u'' where send: "ucp_tag_send_nbx U u' ep (buf_mem (send_buffer d))
        (buf_len (send_buffer d)) (send_tag d) (entry_memh e) = (sp, u'')"
      by (rule prod.exhaust)
    show ?thesis
    proof (cases sp)
      case Status_Complete
      then show ?thesis using send U(1) by (metis posts_requests_def fst_conv)
    next
      case (Status_Error x)
      have "ucp_reliable U \<Longrightarrow> \<not> UCS_PTR_IS_ERR sp"
        using send by (metis ucp_reliable_def fst_conv)
      then have b using Status_Error U(2) by auto
      then show ?thesis
        using Status_Error send data q ep by (simp add: ucx_send_def validate_status_ptr_def)
    next
      case (Status_Request ur)
      let ?op = "\<lparr>op_status_ptr = sp, op_request = r\<rparr>"
      have op: "op_ready (h_requests h) ?op" "is_send (h_requests h) ?op"
        using Status_Request data q by (auto simp: op_ready_def is_send_def opt_all_iff)
      have "ops_ok (h_requests h) (insert r (pooled UNIV qs fs \<union> A)) (h_ops_queue h) (h_send_count h)"
        using reqs by (simp add: reqs_ok_def)
      from ops_ok_append [OF this _ op(1)] r room op(2) obtain arr' where
        app: "array_append (h_ops_queue h) ?op = Inr arr'"
        "array_list arr' = array_list (h_ops_queue h) @ [?op]"
        "ops_ok (h_requests h) (pooled UNIV qs fs \<union> A) arr' (h_send_count h + 1)"
        by (auto simp: inflight_def)
      then show ?thesis
        using Status_Request send data q ep reqs C'
        by (simp add: ucx_send_def validate_status_ptr_def posted_def same_lists_def same_setup_def
            reqs_ok_def inflight_def)
    qed
  qed
  have get: "get_request h r = Inr q" "send_arm (req_data q) = Inr d" using q by simp_all
  show ?thesis
    unfolding process_send_one_def get ebind.simps
    by (rule outcome_bind [OF register_outcome [OF cache U(2)]])
      (use post in \<open>auto simp: Let_def split: prod.splits split del: if_split\<close>)
qed


lemma reqs_ok_set_queue:
  assumes reqs: "reqs_ok h A qs fs" and data: "data_at H' = data_at (h_requests h)"
    and pool: "pool_inv UNIV H' ((h_request_queues h)(ty := L')) qs' fs'"
    and conf: "same_config (h_request_queues h ty) L'"
    and queue: "queue_ok (h_endpoints h) (h_requests h) qs'"
    and ops: "op_request ` set (inflight h) \<inter> (pooled UNIV qs' fs' \<union> A') = {}"
  shows "reqs_ok (set_queue h ty (H', L')) A' qs' fs'"
proof -
  have "ops_ok (h_requests h) (pooled UNIV qs' fs' \<union> A') (h_ops_queue h) (h_send_count h)"
    using reqs ops by (auto simp: reqs_ok_def ops_ok_def inflight_def)
  then have "ops_ok H' (pooled UNIV qs' fs' \<union> A') (h_ops_queue h) (h_send_count h)"
    using ops_ok_cong [of "h_ops_queue h" H' "h_requests h"] by (simp add: data)
  moreover have "queue_ok (h_endpoints h) H' qs'" using queue by (simp add: queue_ok_def data)
  moreover have "channels_ok H' ((h_request_queues h)(ty := L'))"
    using reqs conf by (auto simp: reqs_ok_def channels_ok_def data same_config_def)
  ultimately show ?thesis using pool by (simp add: reqs_ok_def set_queue_def)
qed

lemma reqs_ok_disjoint:
  "reqs_ok h A qs fs \<Longrightarrow> op_request ` set (inflight h) \<inter> (pooled UNIV qs fs \<union> A) = {}"
  by (auto simp: reqs_ok_def ops_ok_def inflight_def)

text \<open>
  The sends that fit below the bound leave the queue from its tail, newest first, and are posted
  in that order.
\<close>

definition sent ::
  "'u clh_handle \<Rightarrow> (clh_request_type \<Rightarrow> nat list) \<Rightarrow> (clh_request_type \<Rightarrow> nat list) \<Rightarrow> 'u clh_handle \<Rightarrow>
     bool" where
  "sent h qs fs h' \<longleftrightarrow>
     (let xs = rev (qs CLH_REQUEST_TYPE_SEND);
          m = CONF_SEND_THRESH - sends_of (h_requests h) (inflight h)
      in (\<exists>ops. inflight h' = inflight h @ ops \<and> map op_request ops = take m xs) \<and>
         reqs_ok h' {} (qs(CLH_REQUEST_TYPE_SEND := rev (drop m xs))) fs \<and>
         cache_inv (h_buffer_cache h') \<and> data_at (h_requests h') = data_at (h_requests h) \<and>
         same_setup h h' \<and> h_messages h' = h_messages h \<and> h_recv_list h' = h_recv_list h)"

lemma set_queue_same [simp]: "set_queue h ty (h_requests h, h_request_queues h ty) = h"
  by (simp add: set_queue_def)

text \<open>
  Operations on the queues next to requests \<open>A\<close> that are in none of them, in the hands of somebody.
\<close>

lemma pop_send_in:
  assumes reqs: "reqs_ok h A qs fs" and qs: "qs CLH_REQUEST_TYPE_SEND = xs @ [n]"
    and A: "A \<inter> pooled UNIV qs fs = {}"
  shows "\<exists>S. clh_list_pop_node (queue_state h CLH_REQUEST_TYPE_SEND) = Inr (S, Some n) \<and>
           reqs_ok (set_queue h CLH_REQUEST_TYPE_SEND S) (insert n A)
             (qs(CLH_REQUEST_TYPE_SEND := xs)) fs \<and>
           n \<notin> pooled UNIV (qs(CLH_REQUEST_TYPE_SEND := xs)) fs \<and> n \<notin> A \<and>
           data_at (fst S) = data_at (h_requests h)"
proof -
  let ?qs = "qs(CLH_REQUEST_TYPE_SEND := xs)"
  have pool: "pool_inv UNIV (h_requests h) (h_request_queues h) qs fs"
    and queue: "queue_ok (h_endpoints h) (h_requests h) qs"
    using reqs by (simp_all add: reqs_ok_def)
  from pool_pop [OF pool UNIV_I qs] obtain H' L' where
    run: "clh_list_pop_node (h_requests h, h_request_queues h CLH_REQUEST_TYPE_SEND) =
       Inr ((H', L'), Some n)" and
    pool': "pool_inv UNIV H' ((h_request_queues h)(CLH_REQUEST_TYPE_SEND := L')) ?qs fs" and
    n: "n \<notin> pooled UNIV ?qs fs" and data: "data_at H' = data_at (h_requests h)" and
    conf: "same_config (h_request_queues h CLH_REQUEST_TYPE_SEND) L'"
    by blast
  have n_in: "n \<in> pooled UNIV qs fs"
    using qs pooledI [of CLH_REQUEST_TYPE_SEND UNIV n qs fs] by simp
  have "pooled UNIV ?qs fs \<subseteq> pooled UNIV qs fs"
    using qs pooledI [of CLH_REQUEST_TYPE_SEND UNIV _ qs fs]
    by (auto elim!: pooledE split: if_splits intro: pooledI [OF UNIV_I])
  then have "op_request ` set (inflight h) \<inter> (pooled UNIV ?qs fs \<union> insert n A) = {}"
    using reqs_ok_disjoint [OF reqs] n_in by blast
  moreover have "queue_ok (h_endpoints h) (h_requests h) ?qs"
    using queue qs by (auto simp: queue_ok_def)
  ultimately show ?thesis
    using reqs_ok_set_queue [OF reqs data pool' conf] run n n_in A data
    by (auto simp: queue_state_def)
qed

lemma pop_send:
  assumes "reqs_ok h {} qs fs" and "qs CLH_REQUEST_TYPE_SEND = xs @ [n]"
  shows "\<exists>S. clh_list_pop_node (queue_state h CLH_REQUEST_TYPE_SEND) = Inr (S, Some n) \<and>
           reqs_ok (set_queue h CLH_REQUEST_TYPE_SEND S) {n}
             (qs(CLH_REQUEST_TYPE_SEND := xs)) fs \<and>
           n \<notin> pooled UNIV (qs(CLH_REQUEST_TYPE_SEND := xs)) fs \<and>
           data_at (fst S) = data_at (h_requests h)"
  using pop_send_in [OF assms] by auto

lemma sent_nothing:
  assumes "reqs_ok h {} qs fs" and "cache_inv (h_buffer_cache h)"
    and "CONF_SEND_THRESH \<le> sends_of (h_requests h) (inflight h) \<or> qs CLH_REQUEST_TYPE_SEND = []"
  shows "sent h qs fs h"
proof -
  have "qs CLH_REQUEST_TYPE_SEND = [] \<Longrightarrow> qs(CLH_REQUEST_TYPE_SEND := []) = qs" by auto
  then show ?thesis using assms by (auto simp: sent_def)
qed

text \<open>One round of the loop: the newest send is popped and posted, which leaves the others to the loop.\<close>

lemma send_round:
  assumes reqs: "reqs_ok h {} qs fs" and cache: "cache_inv (h_buffer_cache h)"
    and U: "posts_requests U" "\<not> b \<longrightarrow> ucp_reliable U"
    and snoc: "qs CLH_REQUEST_TYPE_SEND = xs @ [n]"
    and room: "sends_of (h_requests h) (inflight h) < CONF_SEND_THRESH"
  defines "qs1 \<equiv> qs(CLH_REQUEST_TYPE_SEND := xs)"
  shows "\<exists>S. clh_list_pop_node (queue_state h CLH_REQUEST_TYPE_SEND) = Inr (S, Some n) \<and>
           data_at (fst S) = data_at (h_requests h) \<and>
           opt_all (send_ready (h_endpoints h)) (data_at (h_requests h) n) \<and>
           outcome b (process_send_one U (set_queue h CLH_REQUEST_TYPE_SEND S) n) (\<lambda>(h', st).
             if st = CLH_STATUS_SUCCESS
             then posted (set_queue h CLH_REQUEST_TYPE_SEND S) {} qs1 fs n h' \<and>
                  same_lists (set_queue h CLH_REQUEST_TYPE_SEND S) h'
             else b)"
proof -
  from pop_send [OF reqs snoc] obtain S where
    pop: "clh_list_pop_node (queue_state h CLH_REQUEST_TYPE_SEND) = Inr (S, Some n)"
    "reqs_ok (set_queue h CLH_REQUEST_TYPE_SEND S) {n} qs1 fs" "n \<notin> pooled UNIV qs1 fs"
    "data_at (fst S) = data_at (h_requests h)"
    unfolding qs1_def by blast
  let ?h = "set_queue h CLH_REQUEST_TYPE_SEND S"
  have ready: "opt_all (send_ready (h_endpoints h)) (data_at (h_requests h) n)"
    using reqs snoc by (simp add: reqs_ok_def queue_ok_def)
  have same: "h_endpoints ?h = h_endpoints h" "h_buffer_cache ?h = h_buffer_cache h"
    "inflight ?h = inflight h" "data_at (h_requests ?h) = data_at (h_requests h)"
    using pop(4) by (simp_all add: set_queue_def inflight_def)
  have "sends_of (h_requests ?h) (inflight ?h) = sends_of (h_requests h) (inflight h)"
    using same sends_of_cong [of "inflight h" "h_requests ?h" "h_requests h"] by simp
  then show ?thesis
    using pop process_send_one_outcome [OF pop(2), where b = b and U = U] U cache ready room same
    by (simp add: req_at_def)
qed

lemma sent_round:
  assumes snoc: "qs CLH_REQUEST_TYPE_SEND = xs @ [n]"
    and room: "sends_of (h_requests h) (inflight h) < CONF_SEND_THRESH"
    and data: "data_at (fst S) = data_at (h_requests h)"
    and ready: "opt_all (send_ready (h_endpoints h)) (data_at (h_requests h) n)"
    and one: "posted (set_queue h CLH_REQUEST_TYPE_SEND S) {} (qs(CLH_REQUEST_TYPE_SEND := xs)) fs n h1"
      "same_lists (set_queue h CLH_REQUEST_TYPE_SEND S) h1"
  shows "sends_of (h_requests h1) (inflight h1) = Suc (sends_of (h_requests h) (inflight h))"
    and "sent h1 (qs(CLH_REQUEST_TYPE_SEND := xs)) fs h' \<Longrightarrow> sent h qs fs h'"
proof -
  let ?h = "set_queue h CLH_REQUEST_TYPE_SEND S" and ?n = "sends_of (h_requests h) (inflight h)"
  have same: "inflight ?h = inflight h" "data_at (h_requests ?h) = data_at (h_requests h)"
    "same_setup h ?h" "h_messages ?h = h_messages h" "h_recv_list ?h = h_recv_list h"
    using data by (simp_all add: set_queue_def inflight_def same_setup_def)
  from one obtain op where p: "inflight h1 = inflight h @ [op]" "op_request op = n"
    using same by (auto simp: posted_def)
  have data1: "data_at (h_requests h1) = data_at (h_requests h)"
    using one(2) same by (simp add: same_lists_def)
  then have "is_send (h_requests h1) = is_send (h_requests h)" by (simp add: is_send_def fun_eq_iff)
  moreover have "is_send (h_requests h) op"
    using ready p(2) by (auto simp: is_send_def opt_all_iff send_ready_iff)
  ultimately show n1: "sends_of (h_requests h1) (inflight h1) = Suc ?n"
    using p(1) by (simp add: sends_of_def)
  have m: "CONF_SEND_THRESH - ?n = Suc (CONF_SEND_THRESH - Suc ?n)" using room by simp
  show "sent h qs fs h'" if "sent h1 (qs(CLH_REQUEST_TYPE_SEND := xs)) fs h'"
    using that p snoc one(2) same same_setup_trans [of h h1 h'] same_setup_trans [of h ?h h1]
    unfolding sent_def Let_def n1 m by (auto simp: same_lists_def)
qed

lemma process_send_loop_outcome:
  assumes "reqs_ok h {} qs fs" and "cache_inv (h_buffer_cache h)"
    and U: "posts_requests U" "\<not> b \<longrightarrow> ucp_reliable U"
    and "CONF_SEND_THRESH \<le> fuel + sends_of (h_requests h) (inflight h)"
  shows "outcome b (process_send_loop fuel U h) (\<lambda>(h', st).
           if st = CLH_STATUS_SUCCESS then sent h qs fs h' else b)"
  using assms
proof (induction fuel arbitrary: h qs)
  case 0
  then show ?case
    using send_count_sends [OF 0(1)] thresh_less sent_nothing [OF 0(1,2)]
    by (subst process_send_loop.simps) simp
next
  case (Suc k)
  let ?n = "sends_of (h_requests h) (inflight h)"
  note reqs = Suc.prems(1)
  note count = send_count_sends [OF reqs]
  consider (full) "CONF_SEND_THRESH \<le> ?n" | (empty) "?n < CONF_SEND_THRESH" "qs CLH_REQUEST_TYPE_SEND = []"
    | (pop) xs n where "?n < CONF_SEND_THRESH" "qs CLH_REQUEST_TYPE_SEND = xs @ [n]"
    by (metis leI rev_exhaust)
  then show ?case
  proof cases
    case full
    then show ?thesis
      using count thresh_less sent_nothing [OF Suc.prems(1,2)]
      by (subst process_send_loop.simps) simp
  next
    case empty
    have "pool_inv UNIV (h_requests h) (h_request_queues h) qs fs" using reqs by (simp add: reqs_ok_def)
    from pool_pop_empty [OF this UNIV_I empty(2)] show ?thesis
      using empty count thresh_less sent_nothing [OF Suc.prems(1,2)]
      by (subst process_send_loop.simps) (simp add: queue_state_def)
  next
    case pop
    let ?qs = "qs(CLH_REQUEST_TYPE_SEND := xs)"
    from send_round [OF Suc.prems(1,2) U pop(2,1)] obtain S where
      S: "clh_list_pop_node (queue_state h CLH_REQUEST_TYPE_SEND) = Inr (S, Some n)"
        "data_at (fst S) = data_at (h_requests h)"
        "opt_all (send_ready (h_endpoints h)) (data_at (h_requests h) n)"
      and one: "outcome b (process_send_one U (set_queue h CLH_REQUEST_TYPE_SEND S) n) (\<lambda>(h', st).
          if st = CLH_STATUS_SUCCESS
          then posted (set_queue h CLH_REQUEST_TYPE_SEND S) {} ?qs fs n h' \<and>
               same_lists (set_queue h CLH_REQUEST_TYPE_SEND S) h'
          else b)"
      by blast
    have rest: "outcome b (process_send_loop k U h1) (\<lambda>(h', st).
        if st = CLH_STATUS_SUCCESS then sent h qs fs h' else b)"
      if h1: "posted (set_queue h CLH_REQUEST_TYPE_SEND S) {} ?qs fs n h1"
        "same_lists (set_queue h CLH_REQUEST_TYPE_SEND S) h1" for h1
    proof -
      note round = sent_round [OF pop(2,1) S(2,3) h1]
      have "reqs_ok h1 {} ?qs fs" "cache_inv (h_buffer_cache h1)"
        "CONF_SEND_THRESH \<le> k + sends_of (h_requests h1) (inflight h1)"
        using h1(1) round(1) Suc.prems(5) by (simp_all add: posted_def)
      from Suc.IH [OF this(1,2) U this(3)] show ?thesis
        by (rule outcome_mono) (use round(2) in \<open>auto simp del: fun_upd_apply split: if_splits\<close>)
    qed
    have rest': "outcome b (if st \<noteq> CLH_STATUS_SUCCESS then Inr (h1, st) else process_send_loop k U h1)
        (\<lambda>(h', st). if st = CLH_STATUS_SUCCESS then sent h qs fs h' else b)"
      if "if st = CLH_STATUS_SUCCESS
          then posted (set_queue h CLH_REQUEST_TYPE_SEND S) {} ?qs fs n h1 \<and>
               same_lists (set_queue h CLH_REQUEST_TYPE_SEND S) h1
          else b" for h1 st
      using that rest [of h1] by (cases "st = CLH_STATUS_SUCCESS") (simp_all del: fun_upd_apply)
    show ?thesis
      using S(1) pop(1) count thresh_less
      by (subst process_send_loop.simps)
        (auto simp: Let_def simp del: fun_upd_apply split del: if_split intro!: outcome_bind [OF one] rest')
  qed
qed


lemma process_send_queue_outcome:
  assumes reqs: "reqs_ok h {} qs fs" and cache: "cache_inv (h_buffer_cache h)"
    and U: "posts_requests U" "\<not> b \<longrightarrow> ucp_reliable U"
  shows "outcome b (process_send_queue U h) (\<lambda>(h', st).
           if st = CLH_STATUS_SUCCESS then sent h qs fs h' else b)"
proof (cases "qs CLH_REQUEST_TYPE_SEND = []")
  case True
  then have "list_head (h_request_queues h CLH_REQUEST_TYPE_SEND) = None"
    using reqs list_inv_head pool_inv_list by (metis UNIV_I reqs_ok_def)
  then show ?thesis
    using True reqs cache fun_upd_triv [of qs CLH_REQUEST_TYPE_SEND]
    by (simp add: process_send_queue_def sent_def)
next
  case False
  then have "list_head (h_request_queues h CLH_REQUEST_TYPE_SEND) \<noteq> None"
    using reqs list_inv_head pool_inv_list by (metis UNIV_I reqs_ok_def)
  then show ?thesis
    using process_send_loop_outcome [OF reqs cache U] by (auto simp: process_send_queue_def)
qed

section \<open>Searching and taking messages\<close>

definition msg_at :: "'u clh_handle \<Rightarrow> nat \<Rightarrow> clh_message" where
  "msg_at h a = the (data_at (h_messages h) a)"

lemma find_split:
  "List.find P xs = Some x \<Longrightarrow> \<exists>as bs. xs = as @ x # bs \<and> P x \<and> (\<forall>y \<in> set as. \<not> P y)"
proof (induction xs)
  case (Cons y ys)
  show ?case
  proof (cases "P y")
    case True
    with Cons.prems show ?thesis by force
  next
    case False
    with Cons obtain as bs where "ys = as @ x # bs" "P x" "\<forall>y \<in> set as. \<not> P y" by auto
    with False have "y # ys = (y # as) @ x # bs \<and> P x \<and> (\<forall>z \<in> set (y # as). \<not> P z)" by simp
    then show ?thesis by blast
  qed
qed simp

lemma message_search_spec:
  assumes inv: "list_inv H L xs fs" and heap: "heap_inv H"
  shows "message_search (H, L) tag tag_mask =
           Inr ((H, L), List.find (\<lambda>a. tag_matches (msg_full_tag (the (data_at H a))) tag tag_mask) xs)"
proof -
  have free: "\<not> list_mutex L" and chain: "chain (cells H) (list_head L) xs"
    using inv by (auto simp: list_inv_def dseg_chain)
  have same: "L\<lparr>list_mutex := False\<rparr> = L" using free by (cases L) simp
  have "length xs \<le> brk H" using list_inv_length [OF inv heap] by simp
  from foreach_find_spec [OF chain this] free same show ?thesis
    by (simp add: message_search_def list_lock_region_free tag_matches_def)
qed

lemma msgs_ok_list:
  "msgs_ok H Ls ms mf \<Longrightarrow> c < CLH_MAX_CHANNELS \<Longrightarrow>
     c < length Ls \<and> list_inv H (Ls ! c) (ms c) (mf c) \<and> heap_inv H"
  by (auto simp: msgs_ok_def intro: pool_inv_list pool_inv_heap)

lemma msgs_ok_upd:
  assumes ok: "msgs_ok H Ls ms mf" and c: "c < CLH_MAX_CHANNELS"
    and pool: "pool_inv {..<CLH_MAX_CHANNELS} H' ((\<lambda>c. Ls ! c)(c := L')) (ms(c := xs)) (mf(c := ys))"
    and frame: "\<And>j a. j < CLH_MAX_CHANNELS \<Longrightarrow> a \<in> set (ms j) \<Longrightarrow> data_at H' a = data_at H a"
    and new: "\<And>a. a \<in> set xs \<Longrightarrow> a \<notin> set (ms c) \<Longrightarrow> opt_all (msg_ok c) (data_at H' a)"
  shows "msgs_ok H' (Ls[c := L']) (ms(c := xs)) (mf(c := ys))"
proof -
  have len: "length Ls = CLH_MAX_CHANNELS" using ok by (simp add: msgs_ok_def)
  have "pool_inv {..<CLH_MAX_CHANNELS} H' (\<lambda>i. Ls[c := L'] ! i) (ms(c := xs)) (mf(c := ys))"
    using pool c len by (subst pool_inv_cong [where Q' = "(\<lambda>c. Ls ! c)(c := L')"])
      (auto simp: nth_list_update)
  moreover have "opt_all (msg_ok j) (data_at H' a)"
    if "j < CLH_MAX_CHANNELS" "a \<in> set ((ms(c := xs)) j)" for j a
    using ok frame [OF that(1)] new that by (cases "a \<in> set (ms j)") (auto simp: msgs_ok_def split: if_splits)
  ultimately show ?thesis using len by (simp add: msgs_ok_def)
qed

lemma take_message:
  assumes ok: "msgs_ok H Ls ms mf" and c: "c < CLH_MAX_CHANNELS" and n: "n \<in> set (ms c)"
  shows "\<exists>H' L'. clh_list_remove_node (H, Ls ! c) n = Inr (H', L') \<and>
           msgs_ok H' (Ls[c := L']) (ms(c := remove1 n (ms c))) (mf(c := n # mf c)) \<and>
           data_at H' = data_at H"
proof -
  from n obtain as bs where split: "ms c = as @ n # bs" by (meson split_list)
  have pool: "pool_inv {..<CLH_MAX_CHANNELS} H (\<lambda>c. Ls ! c) ms mf" using ok by (simp add: msgs_ok_def)
  have "n \<notin> set as"
    using list_inv_distinct [of H "Ls ! c" "ms c"] msgs_ok_list [OF ok c] split by auto
  then have rem: "as @ bs = remove1 n (ms c)" using split by (simp add: remove1_append)
  from pool_remove [OF pool _ split] c obtain H' L' where
    run: "clh_list_remove_node (H, Ls ! c) n = Inr (H', L')" and
    pool': "pool_inv {..<CLH_MAX_CHANNELS} H' ((\<lambda>c. Ls ! c)(c := L')) (ms(c := remove1 n (ms c)))
       (mf(c := n # mf c))" and data: "data_at H' = data_at H"
    unfolding rem by auto
  have "msgs_ok H' (Ls[c := L']) (ms(c := remove1 n (ms c))) (mf(c := n # mf c))"
    by (rule msgs_ok_upd [OF ok c pool']) (auto simp: data dest: notin_set_remove1)
  then show ?thesis using run data by blast
qed

section \<open>The receive queue\<close>

text \<open>The message a receive takes, and the request once it has taken it.\<close>

definition recv_match :: "'u clh_handle \<Rightarrow> clh_request \<Rightarrow> nat option" where
  "recv_match h q =
     (case req_data q of
        Recv_Data d \<Rightarrow>
          List.find (\<lambda>a. tag_matches (msg_full_tag (msg_at h a)) (recv_tag d) (recv_tag_mask d))
            (received h (unat (req_channel q)))
      | _ \<Rightarrow> None)"

definition with_message :: "clh_request \<Rightarrow> clh_message \<Rightarrow> clh_request" where
  "with_message q m =
     (case req_data q of
        Recv_Data d \<Rightarrow> q\<lparr>req_data := Recv_Data (d\<lparr>recv_msg := msg_msg m\<rparr>),
                         req_channel := msg_channel m, req_source := msg_sender_id m,
                         req_tag := msg_sender_tag m\<rparr>
      | _ \<Rightarrow> q)"


lemma channel_lt: "channel_ok c \<Longrightarrow> unat c < CLH_MAX_CHANNELS"
  by (simp add: channel_ok_def CLH_MAX_CHANNELS_def)

text \<open>
  Without a message in the list of the request's channel nothing changes; otherwise the oldest
  one that matches leaves the list and its fields go to the request.
\<close>

lemma match_received_none:
  assumes q: "req_at h r = Some q" "req_data q = Recv_Data d" "channel_ok (req_channel q)"
    and msgs: "msgs_ok (h_messages h) (h_recv_list h) ms mf" and none: "recv_match h q = None"
  shows "match_received h r = Inr h"
proof -
  let ?c = "unat (req_channel q)"
  have c: "?c < CLH_MAX_CHANNELS" using q(3) by (rule channel_lt)
  have none': "List.find (\<lambda>a. tag_matches (msg_full_tag (the (data_at (h_messages h) a)))
      (recv_tag d) (recv_tag_mask d)) (ms ?c) = None"
    using none q(2) msgs_ok_received [OF msgs c] by (simp add: recv_match_def msg_at_def)
  have list: "?c < length (h_recv_list h)"
      "list_inv (h_messages h) (h_recv_list h ! ?c) (ms ?c) (mf ?c)" "heap_inv (h_messages h)"
    using msgs_ok_list [OF msgs c] by simp_all
  show ?thesis
    using list(1) q none' message_search_spec [OF list(2,3)] by (simp add: match_received_def)
qed

lemma match_received_some:
  assumes q: "req_at h r = Some q" "req_data q = Recv_Data d" "channel_ok (req_channel q)"
    and msgs: "msgs_ok (h_messages h) (h_recv_list h) ms mf" and some: "recv_match h q = Some n"
  defines "c \<equiv> unat (req_channel q)"
  shows "n \<in> set (ms c) \<and> (\<exists>H' L'. match_received h r =
           Inr (h\<lparr>h_requests := set_data (h_requests h) r (with_message q (msg_at h n)),
                  h_messages := H', h_recv_list := (h_recv_list h)[c := L']\<rparr>) \<and>
           msgs_ok H' ((h_recv_list h)[c := L']) (ms(c := remove1 n (ms c))) (mf(c := n # mf c)) \<and>
           data_at H' = data_at (h_messages h) \<and>
           clh_list_remove_node (h_messages h, h_recv_list h ! c) n = Inr (H', L'))"
proof -
  have c: "c < CLH_MAX_CHANNELS" using q(3) unfolding c_def by (rule channel_lt)
  have found: "List.find (\<lambda>a. tag_matches (msg_full_tag (the (data_at (h_messages h) a)))
      (recv_tag d) (recv_tag_mask d)) (ms c) = Some n"
    using some q(2) msgs_ok_received [OF msgs c] by (simp add: recv_match_def msg_at_def c_def)
  from find_split [OF found] have n: "n \<in> set (ms c)" by auto
  with msgs c have "opt_all (msg_ok c) (data_at (h_messages h) n)" by (simp add: msgs_ok_def)
  then obtain m where m: "data_at (h_messages h) n = Some m" and chan: "unat (msg_channel m) = c"
    by (auto simp: opt_all_iff msg_ok_def)
  then obtain nd where nd: "cells (h_messages h) n = Some nd" "node_data nd = m"
    by (auto simp: data_at_def)
  from take_message [OF msgs c n] obtain H' L' where
    take: "clh_list_remove_node (h_messages h, h_recv_list h ! c) n = Inr (H', L')"
      "msgs_ok H' ((h_recv_list h)[c := L']) (ms(c := remove1 n (ms c))) (mf(c := n # mf c))"
      "data_at H' = data_at (h_messages h)"
    by blast
  have data: "data_at (h_requests h) r = Some q" using q(1) by (simp add: req_at_def)
  have list: "c < length (h_recv_list h)"
      "list_inv (h_messages h) (h_recv_list h ! c) (ms c) (mf c)" "heap_inv (h_messages h)"
    using msgs_ok_list [OF msgs c] by simp_all
  have "match_received h r =
      Inr (h\<lparr>h_requests := set_data (h_requests h) r (with_message q m),
             h_messages := H', h_recv_list := (h_recv_list h)[c := L']\<rparr>)"
    using list(1) q data m nd found chan take(1) message_search_spec [OF list(2,3)]
    by (simp add: match_received_def c_def [symmetric] upd_request_Some with_message_def)
  moreover have "msg_at h n = m" using m by (simp add: msg_at_def)
  ultimately show ?thesis using n take by auto
qed

text \<open>A request changed by its receive is ready as before, and its channel is in range.\<close>

lemma with_message_ready:
  "recv_ready q \<Longrightarrow> recv_ready (with_message q m)"
  by (auto simp: recv_ready_iff with_message_def)

lemma with_message_channel:
  "recv_ready q \<Longrightarrow> req_channel (with_message q m) = msg_channel m"
  by (auto simp: recv_ready_iff with_message_def)

lemma reqs_ok_upd:
  assumes reqs: "reqs_ok h (insert r A) qs fs" and r: "r \<notin> pooled UNIV qs fs"
    and x: "channel_ok (req_channel x)" and live: "req_at h r \<noteq> None"
  shows "reqs_ok (h\<lparr>h_requests := set_data (h_requests h) r x\<rparr>) (insert r A) qs fs"
proof -
  let ?H = "set_data (h_requests h) r x"
  have data: "data_at ?H = (data_at (h_requests h))(r \<mapsto> x)"
    using live data_at_set_live by (auto simp: req_at_def)
  have "\<forall>ty. r \<notin> set (qs ty)" using r by (auto simp: pooled_def)
  then have "queue_ok (h_endpoints h) ?H qs"
    using reqs queue_ok_upd [OF _ _ data] by (simp add: reqs_ok_def)
  moreover have "channels_ok ?H (h_request_queues h)"
    using reqs channels_ok_upd [OF _ data x] by (simp add: reqs_ok_def)
  moreover have "ops_ok ?H (pooled UNIV qs fs \<union> insert r A) (h_ops_queue h) (h_send_count h)"
    using reqs by (subst ops_ok_cong [where H = "h_requests h"])
      (auto simp: reqs_ok_def ops_ok_def data)
  ultimately show ?thesis using reqs by (simp add: reqs_ok_def)
qed


lemma post_recv_outcome:
  assumes reqs: "reqs_ok h (insert r A) qs fs" and cache: "cache_inv (h_buffer_cache h)"
    and r: "r \<notin> pooled UNIV qs fs \<union> A" and ready: "opt_all recv_ready (req_at h r)"
    and U: "posts_requests U" "\<not> b \<longrightarrow> ucp_reliable U"
  shows "outcome b
      (ebind (ucx_recv U h r memh) (\<lambda>(h, status_ptr).
       ebind (validate_status_ptr h \<lparr>op_status_ptr = status_ptr, op_request = r\<rparr>) (\<lambda>(h, ok).
       if \<not> ok then Inr (h, CLH_STATUS_REQUEST_FAILURE) else Inr (h, CLH_STATUS_SUCCESS))))
      (\<lambda>(h', st). if st = CLH_STATUS_SUCCESS then posted h A qs fs r h' \<and> same_lists h h' else b)"
proof -
  from ready obtain q d where q: "req_at h r = Some q" "req_data q = Recv_Data d"
    and ready_q: "recv_ready q"
    by (auto simp: opt_all_iff recv_ready_iff)
  have data: "data_at (h_requests h) r = Some q" using q(1) by (simp add: req_at_def)
  define call where "call =
     (if recv_msg d \<noteq> 0 then
        ucp_tag_msg_recv_nbx U (h_world h) (buf_mem (recv_buffer d)) (buf_len (recv_buffer d))
          (recv_msg d) memh
      else ucp_tag_recv_nbx U (h_world h) (buf_mem (recv_buffer d)) (buf_len (recv_buffer d))
          (recv_tag d) (recv_tag_mask d) memh)"
  obtain sp u' where sp: "call = (sp, u')" by (rule prod.exhaust)
  have recv: "ucx_recv U h r memh = Inr (h\<lparr>h_world := u'\<rparr>, sp)"
    using data q sp unfolding ucx_recv_def call_def by simp
  show ?thesis
  proof (cases sp)
    case Status_Complete
    then show ?thesis using sp U(1) unfolding call_def by (metis posts_requests_def fst_conv)
  next
    case (Status_Error x)
    have "ucp_reliable U \<Longrightarrow> \<not> UCS_PTR_IS_ERR sp"
      using sp unfolding call_def by (metis ucp_reliable_def fst_conv)
    then have b using Status_Error U(2) by auto
    then show ?thesis using Status_Error recv by (simp add: validate_status_ptr_def)
  next
    case (Status_Request ur)
    let ?op = "\<lparr>op_status_ptr = sp, op_request = r\<rparr>"
    have op: "op_ready (h_requests h) ?op" "\<not> is_send (h_requests h) ?op"
      using Status_Request data ready_q by (auto simp: op_ready_def is_send_def opt_all_iff recv_ready_iff)
    have "ops_ok (h_requests h) (insert r (pooled UNIV qs fs \<union> A)) (h_ops_queue h) (h_send_count h)"
      using reqs by (simp add: reqs_ok_def)
    from ops_ok_append [OF this _ op(1)] r op(2) obtain arr' where
      app: "array_append (h_ops_queue h) ?op = Inr arr'"
      "array_list arr' = array_list (h_ops_queue h) @ [?op]"
      "ops_ok (h_requests h) (pooled UNIV qs fs \<union> A) arr' (h_send_count h)"
      by auto
    then show ?thesis
      using Status_Request recv reqs cache
      by (simp add: validate_status_ptr_def posted_def same_lists_def same_setup_def
          reqs_ok_def inflight_def)
  qed
qed

text \<open>What a receive does to the messages and to its own request before it is posted.\<close>

definition matched ::
  "'u clh_handle \<Rightarrow> (nat \<Rightarrow> nat list) \<Rightarrow> nat \<Rightarrow> clh_request \<Rightarrow> clh_recv_data \<Rightarrow> 'u clh_handle \<Rightarrow> bool" where
  "matched h ms r q d h' \<longleftrightarrow>
     (case (if recv_msg d = 0 then recv_match h q else None) of
        None \<Rightarrow> h_requests h' = h_requests h \<and> h_messages h' = h_messages h \<and>
                h_recv_list h' = h_recv_list h
      | Some n \<Rightarrow>
          h_requests h' = set_data (h_requests h) r (with_message q (msg_at h n)) \<and>
          data_at (h_messages h') = data_at (h_messages h) \<and>
          (let c = unat (req_channel q) in n \<in> set (ms c) \<and>
           (\<exists>mf'. msgs_ok (h_messages h') (h_recv_list h') (ms(c := remove1 n (ms c))) mf')))"

definition receives ::
  "'u clh_handle \<Rightarrow> (nat \<Rightarrow> nat list) \<Rightarrow> nat \<Rightarrow> 'u clh_handle \<Rightarrow> bool" where
  "receives h ms r h' \<longleftrightarrow> same_setup h h' \<and> h_request_queues h' = h_request_queues h \<and>
     (\<exists>q d. req_at h r = Some q \<and> req_data q = Recv_Data d \<and> matched h ms r q d h')"

lemma match_step:
  assumes reqs: "reqs_ok h (insert r A) qs fs" and r: "r \<notin> pooled UNIV qs fs"
    and msgs: "msgs_ok (h_messages h) (h_recv_list h) ms mf"
    and q: "req_at h r = Some q" "req_data q = Recv_Data d" and ready: "recv_ready q"
  shows "\<exists>h1. (if recv_msg d = 0 then match_received h r else Inr h) = Inr h1 \<and>
           reqs_ok h1 (insert r A) qs fs \<and> opt_all recv_ready (req_at h1 r) \<and>
           h_buffer_cache h1 = h_buffer_cache h \<and> inflight h1 = inflight h \<and>
           h_request_queues h1 = h_request_queues h \<and> same_setup h h1 \<and> matched h ms r q d h1"
proof -
  have chan: "channel_ok (req_channel q)"
    using reqs q(1) by (auto simp: reqs_ok_def channels_ok_def req_at_def)
  show ?thesis
  proof (cases "if recv_msg d = 0 then recv_match h q else None")
    case None
    then have "(if recv_msg d = 0 then match_received h r else Inr h) = Inr h"
      using match_received_none [OF q chan msgs] by auto
    then show ?thesis using None reqs q(1) ready by (auto simp: matched_def opt_all_iff)
  next
    case (Some n)
    then have zero: "recv_msg d = 0" and some: "recv_match h q = Some n" by (auto split: if_splits)
    let ?c = "unat (req_channel q)" and ?x = "with_message q (msg_at h n)"
    from match_received_some [OF q chan msgs some] obtain H' L' where
      n: "n \<in> set (ms ?c)" and
      run: "match_received h r = Inr (h\<lparr>h_requests := set_data (h_requests h) r ?x,
         h_messages := H', h_recv_list := (h_recv_list h)[?c := L']\<rparr>)" and
      msgs': "msgs_ok H' ((h_recv_list h)[?c := L']) (ms(?c := remove1 n (ms ?c))) (mf(?c := n # mf ?c))"
      and data: "data_at H' = data_at (h_messages h)"
      by blast
    have c: "?c < CLH_MAX_CHANNELS" using chan by (rule channel_lt)
    have "opt_all (msg_ok ?c) (data_at (h_messages h) n)" using msgs n c by (simp add: msgs_ok_def)
    then have "channel_ok (msg_channel (msg_at h n))"
      using chan by (auto simp: opt_all_iff msg_ok_def msg_at_def channel_ok_def)
    then have "channel_ok (req_channel ?x)" using with_message_channel [OF ready] by simp
    from reqs_ok_upd [OF reqs r this] q(1) have
      reqs': "reqs_ok (h\<lparr>h_requests := set_data (h_requests h) r ?x\<rparr>) (insert r A) qs fs" by simp
    have "data_at (set_data (h_requests h) r ?x) r = Some ?x"
      using q(1) by (simp add: req_at_def data_at_set_live)
    then show ?thesis
      using run zero Some n msgs' data reqs' with_message_ready [OF ready]
      by (auto simp: matched_def opt_all_iff req_at_def reqs_ok_def inflight_def same_setup_def Let_def)
  qed
qed

lemma match_post_outcome:
  assumes reqs: "reqs_ok h (insert r A) qs fs" and cache: "cache_inv (h_buffer_cache h)"
    and r: "r \<notin> pooled UNIV qs fs \<union> A"
    and q: "req_at h r = Some q" "req_data q = Recv_Data d" and ready: "recv_ready q"
    and msgs: "msgs_ok (h_messages h) (h_recv_list h) ms mf"
    and U: "posts_requests U" "\<not> b \<longrightarrow> ucp_reliable U"
  shows "outcome b
      (ebind (if recv_msg d = 0 then match_received h r else Inr h) (\<lambda>h.
       ebind (ucx_recv U h r memh) (\<lambda>(h, status_ptr).
       ebind (validate_status_ptr h \<lparr>op_status_ptr = status_ptr, op_request = r\<rparr>) (\<lambda>(h, ok).
       if \<not> ok then Inr (h, CLH_STATUS_REQUEST_FAILURE) else Inr (h, CLH_STATUS_SUCCESS)))))
      (\<lambda>(h', st). if st = CLH_STATUS_SUCCESS then posted h A qs fs r h' \<and> receives h ms r h' else b)"
proof -
  from r have r': "r \<notin> pooled UNIV qs fs" by simp
  from match_step [OF reqs r' msgs q ready] obtain h1 where
    run: "(if recv_msg d = 0 then match_received h r else Inr h) = Inr h1" and
    h1: "reqs_ok h1 (insert r A) qs fs" "opt_all recv_ready (req_at h1 r)"
      "h_buffer_cache h1 = h_buffer_cache h" "inflight h1 = inflight h"
      "h_request_queues h1 = h_request_queues h" "same_setup h h1" "matched h ms r q d h1"
    by blast
  have cache1: "cache_inv (h_buffer_cache h1)" using cache h1(3) by simp
  have lift: "posted h A qs fs r h' \<and> receives h ms r h'"
    if "posted h1 A qs fs r h'" "same_lists h1 h'" for h'
  proof -
    have "matched h ms r q d h' = matched h ms r q d h1"
      using that(2) by (simp add: matched_def same_lists_def cong: option.case_cong)
    then show ?thesis
      using that h1 q same_setup_trans [OF h1(6), of h']
      by (auto simp: posted_def receives_def same_lists_def)
  qed
  show ?thesis
    unfolding run ebind.simps
    by (rule outcome_mono [OF post_recv_outcome [OF h1(1) cache1 r h1(2) U]])
      (auto dest: lift split: if_splits)
qed

lemma process_recv_one_outcome:
  assumes reqs: "reqs_ok h (insert r A) qs fs" and cache: "cache_inv (h_buffer_cache h)"
    and r: "r \<notin> pooled UNIV qs fs \<union> A" and ready: "opt_all recv_ready (req_at h r)"
    and msgs: "msgs_ok (h_messages h) (h_recv_list h) ms mf"
    and U: "posts_requests U" "\<not> b \<longrightarrow> ucp_reliable U"
  shows "outcome b (process_recv_one U h r) (\<lambda>(h', st).
           if st = CLH_STATUS_SUCCESS then posted h A qs fs r h' \<and> receives h ms r h' else b)"
proof -
  from ready obtain q d where q: "req_at h r = Some q" "req_data q = Recv_Data d"
    and ready_q: "recv_ready q"
    by (auto simp: opt_all_iff recv_ready_iff)
  have get: "get_request h r = Inr q" "recv_arm (req_data q) = Inr d" using q by simp_all
  let ?post = "\<lambda>h h'. posted h A qs fs r h' \<and> receives h ms r h'"
  have post: "outcome b
      (ebind (if recv_msg d = 0 then match_received h1 r else Inr h1) (\<lambda>h.
       ebind (ucx_recv U h r (entry_memh e)) (\<lambda>(h, status_ptr).
       ebind (validate_status_ptr h \<lparr>op_status_ptr = status_ptr, op_request = r\<rparr>) (\<lambda>(h, ok).
       if \<not> ok then Inr (h, CLH_STATUS_REQUEST_FAILURE) else Inr (h, CLH_STATUS_SUCCESS)))))
      (\<lambda>(h', st). if st = CLH_STATUS_SUCCESS then posted h A qs fs r h' \<and> receives h ms r h' else b)"
    if C': "cache_inv C'" and h1: "h1 = h\<lparr>h_buffer_cache := C', h_world := u'\<rparr>"
    for C' u' h1 and e :: clh_buffer_cache_entry
  proof -
    have same: "reqs_ok h1 (insert r A) qs fs" "cache_inv (h_buffer_cache h1)"
      "req_at h1 r = Some q" "msgs_ok (h_messages h1) (h_recv_list h1) ms mf"
      using reqs C' q msgs by (simp_all add: h1 reqs_ok_def req_at_def)
    have post_eq: "?post h1 h' = ?post h h'" for h'
      by (simp add: h1 posted_def receives_def matched_def recv_match_def msg_at_def received_def
          req_at_def inflight_def same_setup_def cong: clh_request_data.case_cong option.case_cong)
    show ?thesis
      using match_post_outcome [OF same(1,2) r same(3) q(2) ready_q same(4) U, of "entry_memh e"]
      unfolding post_eq .
  qed
  show ?thesis
    unfolding process_recv_one_def get ebind.simps
    by (rule outcome_bind [OF register_outcome [OF cache U(2)]])
      (use post in \<open>auto simp: Let_def split: prod.splits split del: if_split\<close>)
qed


lemma subseq_remove1: "subseq (remove1 n xs) xs"
  by (induction xs) auto

lemma receives_effect:
  assumes rc: "receives h ms r h'" and msgs: "msgs_ok (h_messages h) (h_recv_list h) ms mf"
  shows "\<exists>ms' mf'. msgs_ok (h_messages h') (h_recv_list h') ms' mf' \<and> (\<forall>c. subseq (ms' c) (ms c))"
    and "data_at (h_messages h') = data_at (h_messages h)"
    and "\<exists>x. h_requests h' = h_requests h \<or> h_requests h' = set_data (h_requests h) r x"
proof -
  from rc obtain q d where m: "matched h ms r q d h'" by (auto simp: receives_def)
  show "\<exists>ms' mf'. msgs_ok (h_messages h') (h_recv_list h') ms' mf' \<and> (\<forall>c. subseq (ms' c) (ms c))"
  proof (cases "if recv_msg d = 0 then recv_match h q else None")
    case None
    then show ?thesis using m msgs by (auto simp: matched_def)
  next
    case (Some n)
    let ?ms = "ms(unat (req_channel q) := remove1 n (ms (unat (req_channel q))))"
    from Some m obtain mf' where "msgs_ok (h_messages h') (h_recv_list h') ?ms mf'"
      by (auto simp: matched_def Let_def)
    moreover have "\<forall>c. subseq (?ms c) (ms c)" by (simp add: subseq_remove1)
    ultimately show ?thesis by blast
  qed
  show "data_at (h_messages h') = data_at (h_messages h)"
    and "\<exists>x. h_requests h' = h_requests h \<or> h_requests h' = set_data (h_requests h) r x"
    using m by (auto simp: matched_def split: option.splits)
qed

text \<open>
  All the receives taken off the queue are posted in their order; messages only leave the lists,
  and the order of those that stay is kept.
\<close>

definition received_all ::
  "'u clh_handle \<Rightarrow> (clh_request_type \<Rightarrow> nat list) \<Rightarrow> (clh_request_type \<Rightarrow> nat list) \<Rightarrow>
     (nat \<Rightarrow> nat list) \<Rightarrow> nat list \<Rightarrow> 'u clh_handle \<Rightarrow> bool" where
  "received_all h qs fs ms rs h' \<longleftrightarrow>
     (\<exists>ops. inflight h' = inflight h @ ops \<and> map op_request ops = rs) \<and>
     reqs_ok h' {} qs fs \<and> cache_inv (h_buffer_cache h') \<and>
     (\<exists>ms' mf'. msgs_ok (h_messages h') (h_recv_list h') ms' mf' \<and> (\<forall>c. subseq (ms' c) (ms c))) \<and>
     data_at (h_messages h') = data_at (h_messages h) \<and>
     (\<forall>a. a \<notin> set rs \<longrightarrow> req_at h' a = req_at h a) \<and> same_setup h h'"

text \<open>After one receive of the detached queue the rest of it is as it was.\<close>

lemma receives_rest:
  assumes rc: "receives h ms r h1" and msgs: "msgs_ok (h_messages h) (h_recv_list h) ms mf"
    and nd: "cells (h_requests h) r = Some nd" and r: "r \<notin> set rs"
    and chain: "chain (cells (h_requests h)) (node_next nd) rs"
    and ready: "\<forall>a \<in> set rs. opt_all recv_ready (req_at h a)"
  shows "chain (cells (h_requests h1)) (node_next nd) rs"
    and "\<forall>a \<in> set rs. opt_all recv_ready (req_at h1 a)"
    and "\<exists>nd1. hget (h_requests h1) r = Inr nd1 \<and> node_next nd1 = node_next nd"
    and "a \<noteq> r \<Longrightarrow> req_at h1 a = req_at h a"
proof -
  from receives_effect(3) [OF rc msgs] obtain x where
    H: "h_requests h1 = h_requests h \<or> h_requests h1 = set_data (h_requests h) r x" by blast
  then have data: "req_at h1 a = req_at h a" if "a \<noteq> r" for a
    using nd that by (auto simp: req_at_def data_at_set_data)
  show "chain (cells (h_requests h1)) (node_next nd) rs" using H nd chain by auto
  show "\<forall>a \<in> set rs. opt_all recv_ready (req_at h1 a)" using ready r data by metis
  show "\<exists>nd1. hget (h_requests h1) r = Inr nd1 \<and> node_next nd1 = node_next nd" using H nd by auto
  show "a \<noteq> r \<Longrightarrow> req_at h1 a = req_at h a" by (rule data)
qed

lemma received_all_Cons:
  assumes one: "posted h (set rs) qs fs r h1" "receives h ms r h1"
    and msgs: "msgs_ok (h_messages h) (h_recv_list h) ms mf"
    and sub: "\<forall>c. subseq (ms1 c) (ms c)" and data: "\<forall>a. a \<noteq> r \<longrightarrow> req_at h1 a = req_at h a"
    and rest: "received_all h1 qs fs ms1 rs h'"
  shows "received_all h qs fs ms (r # rs) h'"
proof -
  from one(1) obtain op where p: "inflight h1 = inflight h @ [op]" "op_request op = r"
    by (auto simp: posted_def)
  from rest obtain ms' mf' where "msgs_ok (h_messages h') (h_recv_list h') ms' mf'"
    "\<forall>c. subseq (ms' c) (ms1 c)"
    by (auto simp: received_all_def)
  moreover from this sub have "\<forall>c. subseq (ms' c) (ms c)" by (meson subseq_order.trans)
  moreover have "same_setup h h'"
    using rest one(2) same_setup_trans by (auto simp: received_all_def receives_def)
  ultimately show ?thesis
    using rest p data receives_effect(2) [OF one(2) msgs] by (auto simp: received_all_def)
qed

lemma process_recv_loop_outcome:
  assumes "reqs_ok h (set rs) qs fs" and "cache_inv (h_buffer_cache h)"
    and "msgs_ok (h_messages h) (h_recv_list h) ms mf"
    and "distinct rs" and "set rs \<inter> pooled UNIV qs fs = {}"
    and "\<forall>r \<in> set rs. opt_all recv_ready (req_at h r)"
    and "chain (cells (h_requests h)) c rs" and "length rs \<le> fuel"
    and U: "posts_requests U" "\<not> b \<longrightarrow> ucp_reliable U"
  shows "outcome b (process_recv_loop fuel U h c) (\<lambda>(h', st).
           if st = CLH_STATUS_SUCCESS then received_all h qs fs ms rs h' else b)"
  using assms
proof (induction rs arbitrary: h c fuel ms mf)
  case Nil
  then show ?case by (auto simp: received_all_def)
next
  case (Cons r rs)
  from Cons.prems(7,8) obtain k nd where fuel: "fuel = Suc k" "length rs \<le> k" and c: "c = Some r"
    and nd: "cells (h_requests h) r = Some nd" "chain (cells (h_requests h)) (node_next nd) rs"
    by (cases fuel) (auto split: option.splits)
  have reqs: "reqs_ok h (insert r (set rs)) qs fs" and r: "r \<notin> pooled UNIV qs fs \<union> set rs"
    and ready: "opt_all recv_ready (req_at h r)" "\<forall>a \<in> set rs. opt_all recv_ready (req_at h a)"
    and disj: "distinct rs" "set rs \<inter> pooled UNIV qs fs = {}" "r \<notin> set rs"
    using Cons.prems by auto
  note one = process_recv_one_outcome [OF reqs Cons.prems(2) r ready(1) Cons.prems(3) U]
  have rest: "outcome b (if st \<noteq> CLH_STATUS_SUCCESS then Inr (h1, st)
        else ebind (hget (h_requests h1) r) (\<lambda>nd. process_recv_loop k U h1 (node_next nd)))
      (\<lambda>(h', st). if st = CLH_STATUS_SUCCESS then received_all h qs fs ms (r # rs) h' else b)"
    if h1: "if st = CLH_STATUS_SUCCESS then posted h (set rs) qs fs r h1 \<and> receives h ms r h1 else b"
    for h1 st
  proof (cases "st = CLH_STATUS_SUCCESS")
    case True
    with h1 have p: "posted h (set rs) qs fs r h1" "receives h ms r h1" by simp_all
    then have p1: "reqs_ok h1 (set rs) qs fs" "cache_inv (h_buffer_cache h1)"
      by (simp_all add: posted_def)
    from receives_effect(1) [OF p(2) Cons.prems(3)] obtain ms1 mf1 where
      msgs: "msgs_ok (h_messages h1) (h_recv_list h1) ms1 mf1" and sub: "\<forall>c. subseq (ms1 c) (ms c)"
      by blast
    note rest = receives_rest [OF p(2) Cons.prems(3) nd(1) disj(3) nd(2) ready(2)]
    have "outcome b (process_recv_loop k U h1 (node_next nd)) (\<lambda>(h', st).
        if st = CLH_STATUS_SUCCESS then received_all h1 qs fs ms1 rs h' else b)"
      by (rule Cons.IH [OF p1 msgs disj(1,2) rest(2,1) fuel(2) U])
    then show ?thesis
      using True rest(3) received_all_Cons [OF p Cons.prems(3) sub] rest(4)
      by (auto elim!: outcome_mono split: if_splits)
  qed (use h1 in simp)
  show ?case
    unfolding fuel c process_recv_loop.simps
    by (rule outcome_bind [OF one]) (use rest in \<open>auto split del: if_split\<close>)
qed


text \<open>The whole receive queue, detached.\<close>

lemma get_recvs_in:
  assumes reqs: "reqs_ok h A qs fs" and A: "A \<inter> pooled UNIV qs fs = {}"
  defines "rs \<equiv> qs CLH_REQUEST_TYPE_RECV" and "qs' \<equiv> qs(CLH_REQUEST_TYPE_RECV := [])"
  shows "\<exists>L' c d. clh_list_get_all_nodes (queue_state h CLH_REQUEST_TYPE_RECV) =
             Inr ((h_requests h, L'), (c, d)) \<and>
           reqs_ok (set_queue h CLH_REQUEST_TYPE_RECV (h_requests h, L')) (set rs \<union> A) qs' fs \<and>
           chain (cells (h_requests h)) c rs \<and> distinct rs \<and>
           set rs \<inter> (pooled UNIV qs' fs \<union> A) = {} \<and> length rs \<le> brk (h_requests h) \<and>
           (\<forall>r \<in> set rs. opt_all recv_ready (req_at h r))"
proof -
  let ?ty = CLH_REQUEST_TYPE_RECV
  have pool: "pool_inv UNIV (h_requests h) (h_request_queues h) qs fs"
    and queue: "queue_ok (h_endpoints h) (h_requests h) qs"
    using reqs by (simp_all add: reqs_ok_def)
  note list = pool_inv_list [OF pool UNIV_I [of ?ty]]
  from pool_get_all [OF pool UNIV_I [of ?ty]] obtain L' where
    run: "clh_list_get_all_nodes (h_requests h, h_request_queues h ?ty) =
       Inr ((h_requests h, L'), (list_head (h_request_queues h ?ty),
                                 list_tail (h_request_queues h ?ty)))" and
    pool': "pool_inv UNIV (h_requests h) ((h_request_queues h)(?ty := L')) qs' fs" and
    chain: "chain (cells (h_requests h)) (list_head (h_request_queues h ?ty)) rs" and
    conf: "same_config (h_request_queues h ?ty) L'"
    unfolding qs'_def rs_def by blast
  have sub: "pooled UNIV qs' fs \<union> set rs \<subseteq> pooled UNIV qs fs"
    unfolding qs'_def rs_def by (auto simp: pooled_def split: if_splits)
  then have "op_request ` set (inflight h) \<inter> (pooled UNIV qs' fs \<union> (set rs \<union> A)) = {}"
    using reqs_ok_disjoint [OF reqs] by blast
  moreover have "queue_ok (h_endpoints h) (h_requests h) qs'"
    using queue by (auto simp: queue_ok_def qs'_def)
  ultimately have "reqs_ok (set_queue h ?ty (h_requests h, L')) (set rs \<union> A) qs' fs"
    by (intro reqs_ok_set_queue [OF reqs refl pool' conf])
  moreover have "distinct rs" using list_inv_distinct [OF list] by (simp add: rs_def)
  moreover have "set rs \<inter> (pooled UNIV qs' fs \<union> A) = {}"
    using pool_detach [OF pool UNIV_I [of ?ty]] sub A unfolding rs_def qs'_def by blast
  moreover have "\<forall>r \<in> set rs. opt_all recv_ready (req_at h r)"
    using queue by (simp add: queue_ok_def req_at_def rs_def)
  moreover have "length rs \<le> brk (h_requests h)"
    using list_inv_length [OF list pool_inv_heap [OF pool]] by (simp add: rs_def)
  ultimately show ?thesis
    using run chain unfolding queue_state_def by blast
qed

lemma process_recv_queue_outcome:
  assumes reqs: "reqs_ok h {} qs fs" and cache: "cache_inv (h_buffer_cache h)"
    and msgs: "msgs_ok (h_messages h) (h_recv_list h) ms mf"
    and U: "posts_requests U" "\<not> b \<longrightarrow> ucp_reliable U"
  shows "outcome b (process_recv_queue U h) (\<lambda>(h', st).
           if st = CLH_STATUS_SUCCESS then
             received_all h (qs(CLH_REQUEST_TYPE_RECV := [])) fs ms (qs CLH_REQUEST_TYPE_RECV) h'
           else b)"
proof -
  let ?ty = CLH_REQUEST_TYPE_RECV
  let ?rs = "qs ?ty" and ?qs = "qs(?ty := [])"
  have pool: "pool_inv UNIV (h_requests h) (h_request_queues h) qs fs"
    using reqs by (simp add: reqs_ok_def)
  note list = pool_inv_list [OF pool UNIV_I [of ?ty]]
  show ?thesis
  proof (cases "?rs = []")
    case True
    then have "list_head (h_request_queues h ?ty) = None" using list_inv_head [OF list] by simp
    then show ?thesis
      using True reqs cache msgs fun_upd_triv [of qs ?ty]
      by (auto simp: process_recv_queue_def received_all_def)
  next
    case False
    then have head: "list_head (h_request_queues h ?ty) \<noteq> None" using list_inv_head [OF list] by simp
    from get_recvs_in [OF reqs] obtain L' c d where
      run: "clh_list_get_all_nodes (queue_state h ?ty) = Inr ((h_requests h, L'), (c, d))" and
      got: "reqs_ok (set_queue h ?ty (h_requests h, L')) (set ?rs) ?qs fs"
        "chain (cells (h_requests h)) c ?rs" "distinct ?rs" "set ?rs \<inter> pooled UNIV ?qs fs = {}"
        "length ?rs \<le> brk (h_requests h)" "\<forall>r \<in> set ?rs. opt_all recv_ready (req_at h r)"
      by auto
    let ?h = "set_queue h ?ty (h_requests h, L')"
    have "\<forall>r \<in> set ?rs. opt_all recv_ready (req_at ?h r)"
      using got(6) by (simp add: req_at_def set_queue_def)
    with got have loop: "outcome b
        (process_recv_loop (brk (h_requests h)) U ?h c)
        (\<lambda>(h', st). if st = CLH_STATUS_SUCCESS then received_all ?h ?qs fs ms ?rs h' else b)"
      using cache msgs U by (intro process_recv_loop_outcome) (auto simp: set_queue_def)
    have same: "received_all ?h ?qs fs ms ?rs h' = received_all h ?qs fs ms ?rs h'" for h'
      by (simp add: received_all_def set_queue_def inflight_def same_setup_def req_at_def)
    show ?thesis
      using head run loop unfolding same by (auto simp: process_recv_queue_def)
  qed
qed

section \<open>Both queues\<close>

text \<open>
  One pass over the shared queues: the sends that fit are posted, then all the receives.
\<close>

definition passed ::
  "'u clh_handle \<Rightarrow> (clh_request_type \<Rightarrow> nat list) \<Rightarrow> (clh_request_type \<Rightarrow> nat list) \<Rightarrow>
     (nat \<Rightarrow> nat list) \<Rightarrow> 'u clh_handle \<Rightarrow> bool" where
  "passed h qs fs ms h' \<longleftrightarrow>
     (\<exists>h1. sent h qs fs h1 \<and>
        received_all h1 ((queued h1)(CLH_REQUEST_TYPE_RECV := [])) fs ms
          (qs CLH_REQUEST_TYPE_RECV) h')"

lemma process_shared_queues_outcome:
  assumes reqs: "reqs_ok h {} qs fs" and cache: "cache_inv (h_buffer_cache h)"
    and msgs: "msgs_ok (h_messages h) (h_recv_list h) ms mf"
    and U: "posts_requests U" "\<not> b \<longrightarrow> ucp_reliable U"
  shows "outcome b (process_shared_queues U h) (\<lambda>(h', st). passed h qs fs ms h')"
proof -
  have recv: "outcome b (process_recv_queue U h1) (\<lambda>(h', st).
      if st = CLH_STATUS_SUCCESS then passed h qs fs ms h' else b)" if s: "sent h qs fs h1" for h1
  proof -
    let ?xs = "rev (qs CLH_REQUEST_TYPE_SEND)"
    let ?qs = "qs(CLH_REQUEST_TYPE_SEND :=
        rev (drop (CONF_SEND_THRESH - sends_of (h_requests h) (inflight h)) ?xs))"
    have r1: "reqs_ok h1 {} ?qs fs" "cache_inv (h_buffer_cache h1)"
      "msgs_ok (h_messages h1) (h_recv_list h1) ms mf"
      using s msgs by (auto simp: sent_def Let_def)
    have q1: "?qs = queued h1" using reqs_ok_queued [OF r1(1)] by simp
    then have "queued h1 CLH_REQUEST_TYPE_RECV = qs CLH_REQUEST_TYPE_RECV"
      by (metis clh_request_type.distinct(1) fun_upd_other)
    with q1 have "received_all h1 (?qs(CLH_REQUEST_TYPE_RECV := [])) fs ms (?qs CLH_REQUEST_TYPE_RECV) h'
        \<Longrightarrow> passed h qs fs ms h'" for h'
      using s by (auto simp: passed_def)
    then show ?thesis
      by (auto intro!: outcome_mono [OF process_recv_queue_outcome [OF r1 U]] split: if_splits)
  qed
  show ?thesis
    unfolding process_shared_queues_def
    by (rule outcome_bind [OF process_send_queue_outcome [OF reqs cache U]])
      (auto split: if_splits intro!: outcome_assert outcome_bind [OF recv])
qed

end
