(* ===== verification/Clh_Ops_Props.thy ===== *)
theory Clh_Ops_Props
  imports Clh_Run_Props
begin

text \<open>
  The operations in flight: testing one, completing one, and the loop over all of them. The loop
  ends, removes an operation only with its request completed, gives a receive the fields of the
  tag it matched, and takes a send off the counter.
\<close>

section \<open>The array of operations\<close>

lemma swap_remove_perm:
  "idx < length xs \<Longrightarrow> mset (xs ! idx # butlast (xs[idx := last xs])) = mset xs"
  by (simp add: mset_swap_remove)

lemma sends_of_mset: "sends_of H ops = size (filter_mset (is_send H) (mset ops))"
  by (metis mset_filter sends_of_def size_mset)

lemma ops_ok_remove:
  assumes ok: "ops_ok H A arr n" and idx: "idx < arr_len arr"
  defines "op \<equiv> array_list arr ! idx"
  shows "\<exists>arr'. array_remove arr idx = Inr arr' \<and> arr_len arr' = arr_len arr - 1 \<and>
           array_list arr' = butlast ((array_list arr)[idx := last (array_list arr)]) \<and>
           ops_ok H (insert (op_request op) A) arr' (if is_send H op then n - 1 else n)"
proof -
  let ?xs = "array_list arr"
  have inv: "array_inv arr" using ok by (simp add: ops_ok_def)
  from array_remove_spec [OF inv idx] obtain arr' where
    run: "array_remove arr idx = Inr arr'" "arr_len arr' = arr_len arr - 1" "array_inv arr'"
    and list: "array_list arr' = butlast (?xs[idx := last ?xs])"
    by blast
  have perm: "mset (op # array_list arr') = mset ?xs"
    using swap_remove_perm [of idx ?xs] idx length_array_list [OF inv] by (simp add: list op_def)
  then have set: "set (op # array_list arr') = set ?xs" by (rule mset_eq_setD)
  have "mset (map op_request (op # array_list arr')) = mset (map op_request ?xs)"
    using perm by (simp only: mset_map)
  from mset_eq_imp_distinct_iff [OF this] have dist: "distinct (map op_request (op # array_list arr'))"
    using ok by (simp only: ops_ok_def)
  have "sends_of H ?xs = sends_of H (op # array_list arr')"
    by (simp only: sends_of_mset perm)
  then have sends: "sends_of H ?xs = (if is_send H op then Suc (sends_of H (array_list arr'))
                               else sends_of H (array_list arr'))"
    by (simp add: sends_of_def)
  have "op_ready H op' \<and> op_request op' \<notin> insert (op_request op) A"
    if "op' \<in> set (array_list arr')" for op'
  proof -
    have "op' \<in> set ?xs" using that unfolding set [symmetric] by simp
    moreover have "op_request op' \<noteq> op_request op" using dist that by (metis distinct.simps(2) image_eqI list.simps(9) set_map)
    ultimately show ?thesis using ok by (auto simp: ops_ok_def)
  qed
  moreover have "n = of_nat (sends_of H ?xs)" "sends_of H ?xs \<le> CONF_SEND_THRESH"
    using ok by (simp_all add: ops_ok_def)
  ultimately have "ops_ok H (insert (op_request op) A) arr' (if is_send H op then n - 1 else n)"
    unfolding ops_ok_def using run(3) dist sends by (cases "is_send H op") auto
  then show ?thesis using run list by blast
qed

text \<open>A request in flight may change, as long as it stays what the worker expects.\<close>

lemma reqs_ok_upd_op:
  assumes reqs: "reqs_ok h A qs fs" and op: "op \<in> set (inflight h)"
    and q: "req_at h (op_request op) = Some q"
    and x: "req_type x = req_type q" "\<not> req_completed x" "recv_ready q \<Longrightarrow> recv_ready x"
      "channel_ok (req_channel x)"
  shows "reqs_ok (h\<lparr>h_requests := set_data (h_requests h) (op_request op) x\<rparr>) A qs fs"
proof -
  let ?r = "op_request op"
  let ?H = "set_data (h_requests h) ?r x"
  have data: "data_at ?H = (data_at (h_requests h))(?r \<mapsto> x)"
    using q data_at_set_live by (auto simp: req_at_def)
  have "?r \<notin> pooled UNIV qs fs" using reqs_ok_disjoint [OF reqs] op by auto
  then have "queue_ok (h_endpoints h) ?H qs"
    using reqs queue_ok_upd [OF _ _ data] by (auto simp: reqs_ok_def pooled_def)
  moreover have "channels_ok ?H (h_request_queues h)"
    using reqs channels_ok_upd [OF _ data x(4)] by (simp add: reqs_ok_def)
  moreover have "op_ready ?H op'" if "op_ready (h_requests h) op'" for op'
    using that q x by (auto simp: op_ready_def data opt_all_iff req_at_def)
  moreover have "is_send ?H = is_send (h_requests h)"
    using q x(1) by (auto simp: is_send_def data opt_all_iff req_at_def fun_eq_iff)
  ultimately show ?thesis
    using reqs by (auto simp: reqs_ok_def ops_ok_def sends_of_def)
qed


section \<open>Testing\<close>

text \<open>
  The state of a UCP request changes when the worker is driven, not by the tests and frees of
  the loop: in the worlds \<open>W\<close> the loop goes through, \<open>st\<close> is the state of every request.
\<close>

definition statuses_fixed :: "'u ucp \<Rightarrow> (ucp_request \<Rightarrow> ucs_status) \<Rightarrow> ('u \<Rightarrow> bool) \<Rightarrow> bool" where
  "statuses_fixed U st W \<longleftrightarrow>
     (\<forall>u r. W u \<longrightarrow> W (ucp_request_free U u r) \<and> ucp_request_check_status U u r = st r \<and>
        (\<forall>i. fst (ucp_tag_recv_request_test U u r i) = st r))"

definition op_state :: "(ucp_request \<Rightarrow> ucs_status) \<Rightarrow> clh_op \<Rightarrow> ucs_status" where
  "op_state st op = (case op_status_ptr op of Status_Request r \<Rightarrow> st r | _ \<Rightarrow> UCS_INPROGRESS)"

text \<open>A test may only fill in the infos of a receive.\<close>

definition same_but_infos :: "clh_request \<Rightarrow> clh_request \<Rightarrow> bool" where
  "same_but_infos q x \<longleftrightarrow> req_type x = req_type q \<and> req_completed x = req_completed q \<and>
     req_channel x = req_channel q \<and> req_source x = req_source q \<and> req_tag x = req_tag q \<and>
     (recv_ready q \<longrightarrow> recv_ready x)"

lemma same_but_infos_refl [simp]: "same_but_infos q q"
  by (simp add: same_but_infos_def)

definition has_infos :: "clh_request \<Rightarrow> bool" where
  "has_infos q \<longleftrightarrow> (case req_data q of Recv_Data d \<Rightarrow> recv_infos d \<noteq> None | _ \<Rightarrow> False)"

lemma has_infos_iff: "has_infos q \<longleftrightarrow> (\<exists>d i. req_data q = Recv_Data d \<and> recv_infos d = Some i)"
  by (cases "req_data q") (auto simp: has_infos_def)

lemma op_in_flight:
  assumes "reqs_ok h A qs fs" and "op \<in> set (inflight h)"
  shows "\<exists>ur q. op_status_ptr op = Status_Request ur \<and> req_at h (op_request op) = Some q \<and>
           \<not> req_completed q \<and> (req_type q = CLH_REQUEST_TYPE_SEND \<or> recv_ready q) \<and>
           channel_ok (req_channel q)"
proof -
  have "op_ready (h_requests h) op" using assms by (simp add: reqs_ok_def ops_ok_def inflight_def)
  moreover have "\<forall>a q. data_at (h_requests h) a = Some q \<longrightarrow> channel_ok (req_channel q)"
    using assms by (simp add: reqs_ok_def channels_ok_def)
  ultimately show ?thesis
    by (cases "op_status_ptr op") (auto simp: op_ready_def opt_all_iff req_at_def)
qed

lemma test_op_spec:
  assumes reqs: "reqs_ok h A qs fs" and op: "op \<in> set (inflight h)"
    and ur: "op_status_ptr op = Status_Request ur" and q: "req_at h (op_request op) = Some q"
    and U: "fills_infos U"
  shows "\<exists>H' st x. test_op U h op = Inr (h\<lparr>h_requests := H'\<rparr>, st, ur) \<and>
           reqs_ok (h\<lparr>h_requests := H'\<rparr>) A qs fs \<and>
           data_at H' = (data_at (h_requests h))(op_request op \<mapsto> x) \<and> same_but_infos q x \<and>
           (req_type q = CLH_REQUEST_TYPE_RECV \<and> st = UCS_OK \<longrightarrow> has_infos x) \<and>
           (ucp_reliable U \<longrightarrow> (\<forall>e. st \<noteq> UCS_ERR e)) \<and>
           (\<forall>sf W. statuses_fixed U sf W \<and> W (h_world h) \<longrightarrow> st = sf ur)"
proof (cases "req_type q = CLH_REQUEST_TYPE_RECV")
  case False
  have "data_at (h_requests h) = (data_at (h_requests h))(op_request op \<mapsto> q)"
    using q by (auto simp: req_at_def)
  then show ?thesis
    using False ur q reqs
    by (intro exI [of _ "h_requests h"] exI [of _ "ucp_request_check_status U (h_world h) ur"] exI [of _ q])
      (simp add: test_op_def ucp_reliable_def statuses_fixed_def)
next
  case True
  let ?r = "op_request op"
  from op_in_flight [OF reqs op] q True have ready: "recv_ready q" "channel_ok (req_channel q)" by auto
  then obtain d where d: "req_data q = Recv_Data d" by (auto simp: recv_ready_iff)
  obtain st infos where test: "ucp_tag_recv_request_test U (h_world h) ur (recv_infos d) = (st, infos)"
    by (rule prod.exhaust)
  let ?x = "q\<lparr>req_data := Recv_Data (d\<lparr>recv_infos := infos\<rparr>)\<rparr>"
  have data: "data_at (h_requests h) ?r = Some q" using q by (simp add: req_at_def)
  have x: "recv_ready ?x" "\<not> req_completed ?x" using ready by (auto simp: recv_ready_iff)
  have "test_op U h op = Inr (h\<lparr>h_requests := set_data (h_requests h) ?r ?x\<rparr>, st, ur)"
    using True ur q d test upd_request_Some [OF data, of "\<lambda>q. q\<lparr>req_data := Recv_Data (d\<lparr>recv_infos := infos\<rparr>)\<rparr>"]
    by (simp add: test_op_def)
  moreover have "reqs_ok (h\<lparr>h_requests := set_data (h_requests h) ?r ?x\<rparr>) A qs fs"
    using reqs_ok_upd_op [OF reqs op q, of ?x] x ready by simp
  moreover have "st = UCS_OK \<Longrightarrow> has_infos ?x"
    using U test by (simp add: has_infos_def fills_infos_def) (metis fst_conv option.exhaust snd_conv)
  moreover have "ucp_reliable U \<Longrightarrow> st \<noteq> UCS_ERR e" for e
    using test by (metis ucp_reliable_def fst_conv)
  moreover have "statuses_fixed U sf W \<and> W (h_world h) \<longrightarrow> st = sf ur" for sf W
    using test by (metis statuses_fixed_def fst_conv)
  moreover have "same_but_infos q ?x" using x by (simp add: same_but_infos_def)
  ultimately show ?thesis using data_at_set_live [OF data] by blast
qed

section \<open>Completion\<close>

text \<open>A completed receive carries the channel, source and tag of the tag UCP matched.\<close>

definition finished :: "clh_request \<Rightarrow> clh_request" where
  "finished q =
     (case (req_type q, req_data q) of
        (CLH_REQUEST_TYPE_RECV, Recv_Data d) \<Rightarrow>
          (case recv_infos d of
             None \<Rightarrow> q
           | Some infos \<Rightarrow>
               (case clh_decode_tag (info_sender_tag infos) of (channel, source, tag) \<Rightarrow>
                  q\<lparr>req_channel := channel, req_source := source, req_tag := tag\<rparr>))
      | _ \<Rightarrow> q)\<lparr>req_completed := True\<rparr>"

lemma finished_completed [simp]: "req_completed (finished q)"
  by (simp add: finished_def split: prod.splits clh_request_type.splits clh_request_data.splits
      option.splits)

lemma finished_type [simp]: "req_type (finished q) = req_type q"
  by (simp add: finished_def split: prod.splits clh_request_type.splits clh_request_data.splits
      option.splits)

lemma finished_channel: "channel_ok (req_channel q) \<Longrightarrow> channel_ok (req_channel (finished q))"
  using decode_channel_ok
  by (auto simp: finished_def split: prod.splits clh_request_type.splits clh_request_data.splits
      option.splits) (metis fst_conv)

lemma complete_request_Some:
  "data_at (h_requests h) r = Some q \<Longrightarrow>
     complete_request h r = Inr (h\<lparr>h_requests := set_data (h_requests h) r (q\<lparr>req_completed := True\<rparr>)\<rparr>)"
  by (simp add: complete_request_def upd_request_Some)


lemma finish_op_run:
  assumes q: "req_at h r = Some q" and infos: "req_type q = CLH_REQUEST_TYPE_RECV \<longrightarrow> has_infos q"
    and rem: "array_remove (h_ops_queue h) idx = Inr arr'"
  shows "\<exists>H'. finish_op U h idx ur r =
           Inr (h\<lparr>h_requests := H', h_world := ucp_request_free U (h_world h) ur,
                  h_ops_queue := arr',
                  h_send_count := (if req_type q = CLH_REQUEST_TYPE_SEND then h_send_count h - 1
                                   else h_send_count h)\<rparr>) \<and>
         data_at H' = (data_at (h_requests h))(r \<mapsto> finished q) \<and>
         (\<forall>(Q :: clh_request_type \<Rightarrow> clh_request clh_list) qs fs.
            pool_inv UNIV H' Q qs fs = pool_inv UNIV (h_requests h) Q qs fs)"
proof -
  have data: "data_at (h_requests h) r = Some q" using q by (simp add: req_at_def)
  show ?thesis
  proof (cases "req_type q = CLH_REQUEST_TYPE_RECV")
    case False
    then have "finished q = q\<lparr>req_completed := True\<rparr>"
      by (cases "req_type q") (auto simp: finished_def)
    then show ?thesis
      using False data rem
      by (auto simp: finish_op_def complete_request_Some Let_def data_at_set_live
          intro!: exI [of _ "set_data (h_requests h) r (q\<lparr>req_completed := True\<rparr>)"])
  next
    case True
    with infos obtain d i where d: "req_data q = Recv_Data d" "recv_infos d = Some i"
      by (auto simp: has_infos_iff)
    obtain c s t where dec: "clh_decode_tag (info_sender_tag i) = (c, s, t)" by (rule prod_cases3)
    let ?q = "q\<lparr>req_channel := c, req_source := s, req_tag := t\<rparr>"
    let ?H = "set_data (set_data (h_requests h) r ?q) r (?q\<lparr>req_completed := True\<rparr>)"
    have "finished q = ?q\<lparr>req_completed := True\<rparr>" using True d dec by (simp add: finished_def)
    moreover have "data_at ?H = (data_at (h_requests h))(r \<mapsto> ?q\<lparr>req_completed := True\<rparr>)"
      using data by (simp add: data_at_set_live)
    ultimately show ?thesis
      using True data d dec rem
      by (auto simp: finish_op_def upd_request_Some complete_request_Some Let_def data_at_set_live
          intro!: exI [of _ ?H])
  qed
qed

text \<open>The fields an operation's test and completion leave alone.\<close>

definition same_rest :: "'u clh_handle \<Rightarrow> 'u clh_handle \<Rightarrow> bool" where
  "same_rest h h' \<longleftrightarrow> same_setup h h' \<and> h_request_queues h' = h_request_queues h \<and>
     h_messages h' = h_messages h \<and> h_recv_list h' = h_recv_list h \<and>
     h_buffer_cache h' = h_buffer_cache h"

lemma same_rest_refl [simp]: "same_rest h h"
  by (simp add: same_rest_def)

lemma same_rest_trans: "same_rest h h' \<Longrightarrow> same_rest h' h'' \<Longrightarrow> same_rest h h''"
  unfolding same_rest_def using same_setup_trans by auto

lemma finish_op_spec:
  assumes reqs: "reqs_ok h A qs fs" and idx: "idx < length (inflight h)"
    and q: "req_at h (op_request (inflight h ! idx)) = Some q"
    and infos: "req_type q = CLH_REQUEST_TYPE_RECV \<longrightarrow> has_infos q"
  defines "r \<equiv> op_request (inflight h ! idx)"
  shows "\<exists>h'. finish_op U h idx ur r = Inr h' \<and> reqs_ok h' A qs fs \<and> same_rest h h' \<and>
           inflight h' = butlast ((inflight h)[idx := last (inflight h)]) \<and>
           req_at h' = (req_at h)(r \<mapsto> finished q) \<and> h_world h' = ucp_request_free U (h_world h) ur"
proof -
  let ?taken = "pooled UNIV qs fs \<union> A"
  have ops: "ops_ok (h_requests h) ?taken (h_ops_queue h) (h_send_count h)"
    using reqs by (simp add: reqs_ok_def)
  then have idx': "idx < arr_len (h_ops_queue h)"
    using idx by (simp add: inflight_def length_array_list ops_ok_def)
  let ?n = "if req_type q = CLH_REQUEST_TYPE_SEND then h_send_count h - 1 else h_send_count h"
  have send: "is_send (h_requests h) (inflight h ! idx) \<longleftrightarrow> req_type q = CLH_REQUEST_TYPE_SEND"
    using q by (auto simp: is_send_def opt_all_iff req_at_def)
  from ops_ok_remove [OF ops idx'] obtain arr' where
    rem: "array_remove (h_ops_queue h) idx = Inr arr'"
      "array_list arr' = butlast ((inflight h)[idx := last (inflight h)])"
    and ok: "ops_ok (h_requests h) (insert r ?taken) arr' ?n"
    by (auto simp: send [unfolded inflight_def] r_def inflight_def)
  from finish_op_run [OF q infos rem(1), folded r_def] obtain H' where
    run: "finish_op U h idx ur r = Inr (h\<lparr>h_requests := H',
       h_world := ucp_request_free U (h_world h) ur, h_ops_queue := arr', h_send_count := ?n\<rparr>)"
    and data: "data_at H' = (data_at (h_requests h))(r \<mapsto> finished q)"
    and pool: "\<forall>(Q :: clh_request_type \<Rightarrow> clh_request clh_list) qs fs. pool_inv UNIV H' Q qs fs = pool_inv UNIV (h_requests h) Q qs fs"
    by blast
  have "r \<notin> ?taken"
    using reqs_ok_disjoint [OF reqs] idx unfolding r_def by (metis IntI emptyE image_eqI nth_mem)
  then have "queue_ok (h_endpoints h) H' qs"
    using reqs queue_ok_upd [OF _ _ data] by (auto simp: reqs_ok_def pooled_def)
  moreover have "channel_ok (req_channel q)"
    using reqs q by (auto simp: reqs_ok_def channels_ok_def req_at_def)
  then have "channels_ok H' (h_request_queues h)"
    using reqs channels_ok_upd [OF _ data] finished_channel by (auto simp: reqs_ok_def)
  moreover have "ops_ok H' ?taken arr' ?n"
    using ops_ok_anti [OF ok, of ?taken] ok
    by (subst ops_ok_cong [where H = "h_requests h"]) (auto simp: data ops_ok_def)
  ultimately have "reqs_ok (h\<lparr>h_requests := H', h_world := ucp_request_free U (h_world h) ur,
      h_ops_queue := arr', h_send_count := ?n\<rparr>) A qs fs"
    using reqs pool by (simp add: reqs_ok_def)
  then show ?thesis
    using run rem(2) data
    by (auto simp: same_rest_def same_setup_def inflight_def req_at_def fun_eq_iff)
qed


section \<open>The loop\<close>

definition swept :: "'u ucp \<Rightarrow> 'u clh_handle \<Rightarrow> nat \<Rightarrow> 'u clh_handle \<Rightarrow> bool" where
  "swept U h idx h' \<longleftrightarrow> same_rest h h' \<and>
     (\<forall>op \<in> set (inflight h).
        op \<in> set (inflight h') \<or> opt_all req_completed (req_at h' (op_request op))) \<and>
     mset (inflight h') \<subseteq># mset (inflight h) \<and>
     (\<forall>a. a \<notin> op_request ` set (inflight h) \<longrightarrow> req_at h' a = req_at h a) \<and>
     (\<forall>st W. statuses_fixed U st W \<and> W (h_world h) \<longrightarrow>
        mset (inflight h') = mset (take idx (inflight h)) +
          filter_mset (\<lambda>op. op_state st op \<noteq> UCS_OK) (mset (drop idx (inflight h))))"

lemma swept_refl: "length (inflight h) \<le> idx \<Longrightarrow> swept U h idx h"
  by (simp add: swept_def)

text \<open>The infos of a request in flight do not matter for what the loop does to the array.\<close>

lemma swept_skip:
  assumes sw: "swept U h1 (Suc idx) h'" and ops: "inflight h1 = inflight h"
    and idx: "idx < length (inflight h)" and rest: "same_rest h h1" and w: "h_world h1 = h_world h"
    and data: "\<forall>a. a \<notin> op_request ` set (inflight h) \<longrightarrow> req_at h1 a = req_at h a"
    and st: "\<forall>sf W. statuses_fixed U sf W \<and> W (h_world h) \<longrightarrow> op_state sf (inflight h ! idx) \<noteq> UCS_OK"
  shows "swept U h idx h'"
proof -
  let ?xs = "inflight h"
  have "mset (take (Suc idx) ?xs) + filter_mset P (mset (drop (Suc idx) ?xs)) =
      mset (take idx ?xs) + filter_mset P (mset (drop idx ?xs))" if "P (?xs ! idx)" for P
    using that idx by (simp add: take_Suc_conv_app_nth Cons_nth_drop_Suc [symmetric])
  then show ?thesis
    using sw ops w st data same_rest_trans [OF rest] unfolding swept_def by auto
qed

lemma swept_finish:
  assumes sw: "swept U h1 idx h'" and reqs: "reqs_ok h1 A qs fs"
    and ops: "inflight h1 = butlast ((inflight h)[idx := last (inflight h)])"
    and idx: "idx < length (inflight h)" and rest: "same_rest h h1"
    and w: "h_world h1 = ucp_request_free U (h_world h) ur"
    and data: "\<forall>a. a \<notin> op_request ` set (inflight h) \<longrightarrow> req_at h1 a = req_at h a"
    and dist: "distinct (map op_request (inflight h))"
    and comp: "opt_all req_completed (req_at h1 (op_request (inflight h ! idx)))"
    and st: "\<forall>sf W. statuses_fixed U sf W \<and> W (h_world h) \<longrightarrow> op_state sf (inflight h ! idx) = UCS_OK"
  shows "swept U h idx h'"
proof -
  let ?xs = "inflight h" and ?op = "inflight h ! idx"
  have perm: "mset (?op # inflight h1) = mset ?xs"
    using swap_remove_perm [OF idx] by (simp only: ops)
  then have set: "insert ?op (set (inflight h1)) = set ?xs"
    using mset_eq_setD [OF perm] by simp
  have "mset (map op_request (?op # inflight h1)) = mset (map op_request ?xs)"
    using perm by (simp only: mset_map)
  from mset_eq_imp_distinct_iff [OF this] dist have
    out: "op_request ?op \<notin> op_request ` set (inflight h1)" by simp
  have fin: "opt_all req_completed (req_at h' (op_request ?op))"
    using sw out comp by (simp add: swept_def)
  have "take idx (inflight h1) = take idx ?xs"
    using idx by (simp add: ops take_butlast)
  moreover have "mset (take idx (inflight h1)) + mset (drop idx (inflight h1)) = mset (inflight h1)"
    by (metis append_take_drop_id mset_append)
  moreover have "mset (take idx ?xs) + mset (drop idx ?xs) = mset ?xs"
    by (metis append_take_drop_id mset_append)
  ultimately have drop: "mset (drop idx ?xs) = add_mset ?op (mset (drop idx (inflight h1)))"
    using perm by (metis (no_types, lifting) add_left_imp_eq mset.simps(2) union_mset_add_mset_right)
  have count: "mset (inflight h') = mset (take idx ?xs) +
      filter_mset (\<lambda>op. op_state sf op \<noteq> UCS_OK) (mset (drop idx ?xs))"
    if "statuses_fixed U sf W" "W (h_world h)" for sf W
  proof -
    have "W (h_world h1)" using that w by (simp add: statuses_fixed_def)
    with sw that have "mset (inflight h') = mset (take idx (inflight h1)) +
        filter_mset (\<lambda>op. op_state sf op \<noteq> UCS_OK) (mset (drop idx (inflight h1)))"
      by (auto simp: swept_def)
    moreover have "op_state sf ?op = UCS_OK" using st that by blast
    ultimately show ?thesis using drop \<open>take idx (inflight h1) = take idx ?xs\<close> by simp
  qed
  have sub: "mset (inflight h') \<subseteq># mset ?xs"
    using sw perm by (metis mset.simps(2) mset_subset_eq_add_right subset_mset.order_trans swept_def
        add_mset_add_single union_commute)
  show ?thesis
    unfolding swept_def
  proof (intro conjI)
    show "same_rest h h'" using sw same_rest_trans [OF rest] by (simp add: swept_def)
    show "\<forall>op \<in> set ?xs. op \<in> set (inflight h') \<or> opt_all req_completed (req_at h' (op_request op))"
      using sw fin by (auto simp: swept_def set [symmetric])
    show "\<forall>a. a \<notin> op_request ` set ?xs \<longrightarrow> req_at h' a = req_at h a"
      using sw data by (auto simp: swept_def set [symmetric])
  qed (use count sub in auto)
qed


lemma array_len_inflight: "reqs_ok h A qs fs \<Longrightarrow> arr_len (h_ops_queue h) = length (inflight h)"
  by (simp add: reqs_ok_def ops_ok_def inflight_def length_array_list)

lemma array_get_inflight:
  "reqs_ok h A qs fs \<Longrightarrow> idx < length (inflight h) \<Longrightarrow>
     array_get (h_ops_queue h) idx = Inr (inflight h ! idx)"
  using array_get_spec [of "h_ops_queue h" idx]
  by (simp add: reqs_ok_def ops_ok_def inflight_def length_array_list)

definition swept_ok ::
  "'u ucp \<Rightarrow> 'u clh_handle \<Rightarrow> nat set \<Rightarrow> (clh_request_type \<Rightarrow> nat list) \<Rightarrow>
     (clh_request_type \<Rightarrow> nat list) \<Rightarrow> nat \<Rightarrow> 'u clh_handle \<Rightarrow> bool" where
  "swept_ok U h A qs fs idx h' \<longleftrightarrow> reqs_ok h' A qs fs \<and> swept U h idx h'"

text \<open>One round of the loop: the operation at the index is tested, and finished when it is done.\<close>

lemma ops_loop_round:
  assumes reqs: "reqs_ok h A qs fs" and idx: "idx < length (inflight h)" and U: "fills_infos U"
  defines "op \<equiv> inflight h ! idx"
  shows "\<exists>H' ur st x. process_ops_loop (Suc k) U h idx =
        (case st of
           UCS_INPROGRESS \<Rightarrow> process_ops_loop k U (h\<lparr>h_requests := H'\<rparr>) (idx + 1)
         | UCS_OK \<Rightarrow> ebind (finish_op U (h\<lparr>h_requests := H'\<rparr>) idx ur (op_request op))
             (\<lambda>h. process_ops_loop k U h idx)
         | UCS_ERR e \<Rightarrow> ebind (array_remove (h_ops_queue h) idx) (\<lambda>ops.
             Inr (h\<lparr>h_requests := H', h_ops_queue := ops\<rparr>, CLH_STATUS_ERROR))) \<and>
      reqs_ok (h\<lparr>h_requests := H'\<rparr>) A qs fs \<and>
      data_at H' = (data_at (h_requests h))(op_request op \<mapsto> x) \<and>
      (st = UCS_OK \<and> req_type x = CLH_REQUEST_TYPE_RECV \<longrightarrow> has_infos x) \<and>
      (ucp_reliable U \<longrightarrow> (\<forall>e. st \<noteq> UCS_ERR e)) \<and>
      (\<forall>sf W. statuses_fixed U sf W \<and> W (h_world h) \<longrightarrow> op_state sf op = st)"
proof -
  have op: "op \<in> set (inflight h)" using idx by (simp add: op_def)
  from op_in_flight [OF reqs op] obtain ur q where
    ur: "op_status_ptr op = Status_Request ur" and q: "req_at h (op_request op) = Some q" by blast
  from test_op_spec [OF reqs op ur q U] obtain H' st x where
    test: "test_op U h op = Inr (h\<lparr>h_requests := H'\<rparr>, st, ur)" and
    rest: "reqs_ok (h\<lparr>h_requests := H'\<rparr>) A qs fs"
      "data_at H' = (data_at (h_requests h))(op_request op \<mapsto> x)" "same_but_infos q x"
      "req_type q = CLH_REQUEST_TYPE_RECV \<and> st = UCS_OK \<longrightarrow> has_infos x"
      "ucp_reliable U \<longrightarrow> (\<forall>e. st \<noteq> UCS_ERR e)"
      "\<forall>sf W. statuses_fixed U sf W \<and> W (h_world h) \<longrightarrow> st = sf ur"
    by blast
  have "process_ops_loop (Suc k) U h idx =
        (case st of
           UCS_INPROGRESS \<Rightarrow> process_ops_loop k U (h\<lparr>h_requests := H'\<rparr>) (idx + 1)
         | UCS_OK \<Rightarrow> ebind (finish_op U (h\<lparr>h_requests := H'\<rparr>) idx ur (op_request op))
             (\<lambda>h. process_ops_loop k U h idx)
         | UCS_ERR e \<Rightarrow> ebind (array_remove (h_ops_queue h) idx) (\<lambda>ops.
             Inr (h\<lparr>h_requests := H', h_ops_queue := ops\<rparr>, CLH_STATUS_ERROR)))"
    using idx array_len_inflight [OF reqs] array_get_inflight [OF reqs idx] test
    by (subst process_ops_loop.simps) (simp add: op_def split: ucs_status.splits)
  moreover have "req_type x = req_type q" using rest(3) by (simp add: same_but_infos_def)
  moreover have "\<forall>sf W. statuses_fixed U sf W \<and> W (h_world h) \<longrightarrow> op_state sf op = st"
    using rest(6) ur by (auto simp: op_state_def)
  ultimately show ?thesis
    using rest(1,2,4,5) by (intro exI [of _ H'] exI [of _ ur] exI [of _ st] exI [of _ x]) simp
qed

text \<open>Finishing the operation at the index shortens the array and leaves the index in place.\<close>

lemma swept_ok_finish:
  assumes reqs: "reqs_ok h A qs fs" and idx: "idx < length (inflight h)"
    and reqs1: "reqs_ok (h\<lparr>h_requests := H'\<rparr>) A qs fs"
    and data: "data_at H' = (data_at (h_requests h))(op_request (inflight h ! idx) \<mapsto> x)"
    and infos: "req_type x = CLH_REQUEST_TYPE_RECV \<longrightarrow> has_infos x"
    and st: "\<forall>sf W. statuses_fixed U sf W \<and> W (h_world h) \<longrightarrow> op_state sf (inflight h ! idx) = UCS_OK"
  shows "\<exists>h1. finish_op U (h\<lparr>h_requests := H'\<rparr>) idx ur (op_request (inflight h ! idx)) = Inr h1 \<and>
      reqs_ok h1 A qs fs \<and> length (inflight h1) = length (inflight h) - 1 \<and>
      (\<forall>h'. swept_ok U h1 A qs fs idx h' \<longrightarrow> swept_ok U h A qs fs idx h')"
proof -
  let ?op = "inflight h ! idx" and ?h = "h\<lparr>h_requests := H'\<rparr>"
  have h: "inflight ?h = inflight h" "same_rest h ?h"
    "\<forall>a. a \<notin> op_request ` set (inflight h) \<longrightarrow> req_at ?h a = req_at h a"
    using data idx by (auto simp: inflight_def same_rest_def same_setup_def req_at_def)
  have at: "idx < length (inflight ?h)" "req_at ?h (op_request (inflight ?h ! idx)) = Some x"
    using idx data by (simp_all add: h(1) req_at_def)
  from finish_op_spec [OF reqs1 at infos, of U ur] obtain h1 where
    fin: "finish_op U ?h idx ur (op_request ?op) = Inr h1" "reqs_ok h1 A qs fs" "same_rest ?h h1"
      "inflight h1 = butlast ((inflight h)[idx := last (inflight h)])"
      "req_at h1 = (req_at ?h)(op_request ?op \<mapsto> finished x)"
      "h_world h1 = ucp_request_free U (h_world h) ur"
    by (auto simp: h(1))
  have "distinct (map op_request (inflight h))"
    using reqs by (simp add: reqs_ok_def ops_ok_def inflight_def)
  moreover have "\<forall>a. a \<notin> op_request ` set (inflight h) \<longrightarrow> req_at h1 a = req_at h a"
    using h(3) fin(5) idx by auto
  moreover have "same_rest h h1" using same_rest_trans [OF h(2) fin(3)] .
  moreover have "opt_all req_completed (req_at h1 (op_request ?op))"
    using fin(5) by (simp add: opt_all_iff)
  ultimately have "swept_ok U h A qs fs idx h'" if "swept_ok U h1 A qs fs idx h'" for h'
    using that swept_finish [OF _ fin(2,4) idx _ fin(6)] st by (simp add: swept_ok_def)
  with fin(1,2,4) show ?thesis by auto
qed

lemma process_ops_loop_outcome:
  assumes "reqs_ok h A qs fs" and U: "fills_infos U" "\<not> b \<longrightarrow> ucp_reliable U"
    and "length (inflight h) \<le> fuel + idx"
  shows "outcome b (process_ops_loop fuel U h idx) (\<lambda>(h', st).
           if st = CLH_STATUS_SUCCESS then swept_ok U h A qs fs idx h' else b)"
  using assms
proof (induction fuel arbitrary: h idx)
  case 0
  then show ?case
    using array_len_inflight [OF 0(1)]
    by (subst process_ops_loop.simps) (simp add: swept_ok_def swept_refl)
next
  case (Suc k)
  note reqs = Suc.prems(1)
  show ?case
  proof (cases "idx < length (inflight h)")
    case False
    then show ?thesis
      using array_len_inflight [OF reqs] reqs
      by (subst process_ops_loop.simps) (simp add: swept_ok_def swept_refl)
  next
    case idx: True
    from ops_loop_round [OF reqs idx U(1)] obtain H' ur st x where
      loop: "process_ops_loop (Suc k) U h idx =
        (case st of
           UCS_INPROGRESS \<Rightarrow> process_ops_loop k U (h\<lparr>h_requests := H'\<rparr>) (idx + 1)
         | UCS_OK \<Rightarrow> ebind (finish_op U (h\<lparr>h_requests := H'\<rparr>) idx ur (op_request (inflight h ! idx)))
             (\<lambda>h. process_ops_loop k U h idx)
         | UCS_ERR e \<Rightarrow> ebind (array_remove (h_ops_queue h) idx) (\<lambda>ops.
             Inr (h\<lparr>h_requests := H', h_ops_queue := ops\<rparr>, CLH_STATUS_ERROR)))"
      and reqs1: "reqs_ok (h\<lparr>h_requests := H'\<rparr>) A qs fs"
      and data: "data_at H' = (data_at (h_requests h))(op_request (inflight h ! idx) \<mapsto> x)"
      and infos: "st = UCS_OK \<and> req_type x = CLH_REQUEST_TYPE_RECV \<longrightarrow> has_infos x"
      and rel: "ucp_reliable U \<longrightarrow> (\<forall>e. st \<noteq> UCS_ERR e)"
      and state: "\<forall>sf W. statuses_fixed U sf W \<and> W (h_world h) \<longrightarrow> op_state sf (inflight h ! idx) = st"
      by blast
    let ?h = "h\<lparr>h_requests := H'\<rparr>"
    show ?thesis
    proof (cases st)
      case UCS_INPROGRESS
      have h: "inflight ?h = inflight h" "same_rest h ?h" "h_world ?h = h_world h"
        "\<forall>a. a \<notin> op_request ` set (inflight h) \<longrightarrow> req_at ?h a = req_at h a"
        using data idx by (auto simp: inflight_def same_rest_def same_setup_def req_at_def)
      have "swept_ok U h A qs fs idx h'" if "swept_ok U ?h A qs fs (idx + 1) h'" for h'
        using that swept_skip [OF _ h(1) idx h(2,3,4)] state UCS_INPROGRESS
        by (simp add: swept_ok_def)
      then show ?thesis
        using Suc.IH [OF reqs1 U, of "idx + 1"] Suc.prems(4) h(1)
        by (auto simp: loop UCS_INPROGRESS elim!: outcome_mono split: if_splits)
    next
      case UCS_OK
      from swept_ok_finish [OF reqs idx reqs1 data, of U ur] infos state UCS_OK obtain h1 where
        fin: "finish_op U ?h idx ur (op_request (inflight h ! idx)) = Inr h1" "reqs_ok h1 A qs fs"
          "length (inflight h1) = length (inflight h) - 1"
          "\<forall>h'. swept_ok U h1 A qs fs idx h' \<longrightarrow> swept_ok U h A qs fs idx h'"
        by auto
      have "length (inflight h1) \<le> k + idx" using Suc.prems(4) idx fin(3) by simp
      from Suc.IH [OF fin(2) U this] show ?thesis
        using fin(1,4) by (auto simp: loop UCS_OK elim!: outcome_mono split: if_splits)
    next
      case (UCS_ERR e)
      then have b using rel U(2) by blast
      moreover have "idx < arr_len (h_ops_queue h)" using idx array_len_inflight [OF reqs] by simp
      ultimately show ?thesis
        using array_remove_spec [of "h_ops_queue h" idx] reqs
        by (auto simp: loop UCS_ERR reqs_ok_def ops_ok_def)
    qed
  qed
qed

lemma process_ops_queue_outcome:
  assumes reqs: "reqs_ok h A qs fs" and U: "fills_infos U" "\<not> b \<longrightarrow> ucp_reliable U"
  shows "outcome b (process_ops_queue U h) (\<lambda>(h', st).
           if st = CLH_STATUS_SUCCESS then swept_ok U h A qs fs 0 h' else b)"
  unfolding process_ops_queue_def
  by (rule process_ops_loop_outcome [OF reqs U]) (simp add: array_len_inflight [OF reqs])

end
