(* ===== verification/Clh_Worker.thy ===== *)
theory Clh_Worker
  imports Clh_Ops_Props
begin

text \<open>
  The loop of the worker thread: fetching an incoming message into the list of its channel, one
  whole iteration, and the loop. An iteration keeps the invariant of the handle and loses no
  request; the loop ends with every queue empty.
\<close>

section \<open>Incoming messages\<close>

lemma push_message:
  assumes ok: "msgs_ok H Ls ms mf" and c: "c < CLH_MAX_CHANNELS" and m: "msg_ok c m"
  shows "\<exists>H' L' n mf'. clh_list_push_data (H, Ls ! c) m = Inr (H', L') \<and>
           msgs_ok H' (Ls[c := L']) (ms(c := ms c @ [n])) mf' \<and> data_at H' n = Some m \<and>
           (\<forall>j < CLH_MAX_CHANNELS. \<forall>a \<in> set (ms j). a \<noteq> n \<and> data_at H' a = data_at H a)"
proof -
  have pool: "pool_inv {..<CLH_MAX_CHANNELS} H (\<lambda>c. Ls ! c) ms mf" using ok by (simp add: msgs_ok_def)
  from pool_push_data [OF pool, of c m] c obtain H' L' n fs' where
    run: "clh_list_push_data (H, Ls ! c) m = Inr (H', L')" and
    pool': "pool_inv {..<CLH_MAX_CHANNELS} H' ((\<lambda>c. Ls ! c)(c := L')) (ms(c := ms c @ [n])) (mf(c := fs'))"
    and n: "data_at H' n = Some m" "n \<notin> (\<Union>j < CLH_MAX_CHANNELS. set (ms j))" and
    frame: "\<forall>a. a \<noteq> n \<longrightarrow> data_at H' a = data_at H a"
    by auto
  have old: "\<forall>j < CLH_MAX_CHANNELS. \<forall>a \<in> set (ms j). a \<noteq> n \<and> data_at H' a = data_at H a"
    using n(2) frame by (metis UN_I lessThan_iff)
  have "msgs_ok H' (Ls[c := L']) (ms(c := ms c @ [n])) (mf(c := fs'))"
    by (rule msgs_ok_upd [OF ok c pool']) (use old n(1) m in \<open>auto simp: opt_all_iff\<close>)
  then show ?thesis using run n(1) old by blast
qed

text \<open>The message the worker stores for what a probe reports.\<close>

definition message_of :: "ucp_tag_message_h \<Rightarrow> ucp_tag_recv_info \<Rightarrow> clh_message" where
  "message_of g infos =
     (case clh_decode_tag (info_sender_tag infos) of (channel, sender_id, sender_tag) \<Rightarrow>
        \<lparr>msg_channel = channel, msg_sender_id = sender_id, msg_sender_tag = sender_tag,
         msg_full_tag = info_sender_tag infos, msg_buffer_len = info_length infos, msg_msg = g\<rparr>)"

lemma message_of_ok: "msg_ok (unat (msg_channel (message_of g infos))) (message_of g infos)"
  by (auto simp: msg_ok_def message_of_def split: prod.splits)

lemma message_of_channel: "unat (msg_channel (message_of g infos)) < CLH_MAX_CHANNELS"
  using decode_channel_ok [of "info_sender_tag infos"]
  by (auto simp: message_of_def channel_ok_def CLH_MAX_CHANNELS_def split: prod.splits)

definition same_requests :: "'u clh_handle \<Rightarrow> 'u clh_handle \<Rightarrow> bool" where
  "same_requests h h' \<longleftrightarrow> same_setup h h' \<and> h_requests h' = h_requests h \<and>
     h_request_queues h' = h_request_queues h \<and> h_ops_queue h' = h_ops_queue h \<and>
     h_send_count h' = h_send_count h \<and> h_buffer_cache h' = h_buffer_cache h"

lemma same_requests_refl [simp]: "same_requests h h"
  by (simp add: same_requests_def)

lemma same_requests_trans: "same_requests h h' \<Longrightarrow> same_requests h' h'' \<Longrightarrow> same_requests h h''"
  unfolding same_requests_def using same_setup_trans by auto

text \<open>Messages are appended to their channels; nothing but the world changes besides.\<close>

definition fetched ::
  "'u clh_handle \<Rightarrow> (nat \<Rightarrow> nat list) \<Rightarrow> 'u clh_handle \<Rightarrow> (nat \<Rightarrow> nat list) \<Rightarrow> bool" where
  "fetched h ms h' ms' \<longleftrightarrow>
     same_requests h h' \<and> (\<forall>c. prefix (ms c) (ms' c)) \<and>
     (\<forall>c < CLH_MAX_CHANNELS. \<forall>a \<in> set (ms c).
        data_at (h_messages h') a = data_at (h_messages h) a)"

lemma fetched_refl: "fetched h ms h ms"
  by (simp add: fetched_def)

text \<open>One probe that finds something.\<close>

lemma probe_incoming_step:
  assumes msgs: "msgs_ok (h_messages h) (h_recv_list h) ms mf"
    and probe: "ucp_tag_probe_nb U (h_world h) 0 0 True = (g, infos, u')" "g \<noteq> 0"
  defines "m \<equiv> message_of g infos"
  defines "c \<equiv> unat (msg_channel m)"
  shows "\<exists>h1 n mf1. probe_incoming_loop (Suc i) U h = probe_incoming_loop i U h1 \<and>
           msgs_ok (h_messages h1) (h_recv_list h1) (ms(c := ms c @ [n])) mf1 \<and>
           data_at (h_messages h1) n = Some m \<and> fetched h ms h1 (ms(c := ms c @ [n])) \<and>
           h_world h1 = u'"
proof -
  have c: "c < CLH_MAX_CHANNELS" unfolding c_def m_def by (rule message_of_channel)
  have "msg_ok c m" unfolding c_def m_def by (rule message_of_ok)
  from push_message [OF msgs c this] obtain H' L' n mf' where
    push: "clh_list_push_data (h_messages h, h_recv_list h ! c) m = Inr (H', L')"
      "msgs_ok H' ((h_recv_list h)[c := L']) (ms(c := ms c @ [n])) mf'" "data_at H' n = Some m"
      "\<forall>j < CLH_MAX_CHANNELS. \<forall>a \<in> set (ms j). a \<noteq> n \<and> data_at H' a = data_at (h_messages h) a"
    by blast
  let ?h = "h\<lparr>h_world := u', h_messages := H', h_recv_list := (h_recv_list h)[c := L']\<rparr>"
  obtain ch s t where dec: "clh_decode_tag (info_sender_tag infos) = (ch, s, t)" by (rule prod_cases3)
  have len: "c < length (h_recv_list h)" using msgs c by (simp add: msgs_ok_def)
  have "m = \<lparr>msg_channel = ch, msg_sender_id = s, msg_sender_tag = t,
             msg_full_tag = info_sender_tag infos, msg_buffer_len = info_length infos, msg_msg = g\<rparr>"
    and "unat ch = c"
    using dec by (simp_all add: m_def message_of_def c_def)
  then have "probe_incoming_loop (Suc i) U h = probe_incoming_loop i U ?h"
    using probe dec push(1) len by (simp add: Let_def)
  moreover have "fetched h ms ?h (ms(c := ms c @ [n]))"
    using push(4) by (auto simp: fetched_def same_requests_def same_setup_def)
  ultimately show ?thesis using push(2,3) by (intro exI [of _ ?h] exI [of _ n] exI [of _ mf']) simp
qed

lemma fetched_trans:
  assumes a: "fetched h ms h1 ms1" and b: "fetched h1 ms1 h2 ms2"
  shows "fetched h ms h2 ms2"
proof -
  have p: "prefix (ms c) (ms1 c)" "prefix (ms1 c) (ms2 c)" for c
    using a b by (simp_all add: fetched_def)
  have "prefix (ms c) (ms2 c)" for c using p [of c] by (rule prefix_order.trans)
  moreover have "set (ms c) \<subseteq> set (ms1 c)" for c using p(1) [of c] by (rule set_mono_prefix)
  then have "data_at (h_messages h2) a = data_at (h_messages h) a"
    if "c < CLH_MAX_CHANNELS" "a \<in> set (ms c)" for c a
    using a b that unfolding fetched_def by (metis subsetD)
  moreover have "same_requests h h2"
    using a b same_requests_trans by (auto simp: fetched_def)
  ultimately show ?thesis by (simp add: fetched_def)
qed

lemma probe_incoming_outcome:
  assumes "msgs_ok (h_messages h) (h_recv_list h) ms mf"
  shows "\<exists>h' ms' mf'. probe_incoming_loop i U h = Inr h' \<and> fetched h ms h' ms' \<and>
           msgs_ok (h_messages h') (h_recv_list h') ms' mf'"
  using assms
proof (induction i arbitrary: h ms mf)
  case 0
  then show ?case using fetched_refl by auto
next
  case (Suc i)
  obtain g infos u' where probe: "ucp_tag_probe_nb U (h_world h) 0 0 True = (g, infos, u')"
    by (rule prod_cases3)
  show ?case
  proof (cases "g = 0")
    case True
    then have "probe_incoming_loop (Suc i) U h = Inr (h\<lparr>h_world := u'\<rparr>)" using probe by simp
    then show ?thesis
      using Suc.prems by (intro exI [of _ "h\<lparr>h_world := u'\<rparr>"] exI [of _ ms] exI [of _ mf])
        (simp add: fetched_def same_requests_def same_setup_def)
  next
    case False
    from probe_incoming_step [OF Suc.prems probe False, of i] Suc.IH fetched_trans
    show ?thesis by metis
  qed
qed


section \<open>One iteration\<close>

lemma worker_progress_world: "\<exists>u. fst (worker_progress_loop i U h n) = h\<lparr>h_world := u\<rparr>"
proof (induction i arbitrary: h n)
  case 0
  show ?case by (auto intro: exI [of _ "h_world h"])
next
  case (Suc i)
  obtain p u where "ucp_worker_progress U (h_world h) = (p, u)" by (rule prod.exhaust)
  then show ?case
    using Suc [of "h\<lparr>h_world := u\<rparr>" "n + p"] by (auto simp: Let_def)
qed

text \<open>
  What one iteration did: a message fetched, the queues passed over, UCP driven, the operations
  swept.
\<close>

definition iterated :: "'u ucp \<Rightarrow> 'u clh_handle \<Rightarrow> 'u clh_handle \<Rightarrow> bool" where
  "iterated U h h' \<longleftrightarrow>
     (\<exists>h1 ms mf h2 u. same_requests h h1 \<and> msgs_ok (h_messages h1) (h_recv_list h1) ms mf \<and>
        passed h1 (queued h) (released h) ms h2 \<and>
        swept_ok U (h2\<lparr>h_world := u\<rparr>) {} (queued h2) (released h) 0 h')"

lemma same_requests_queued:
  "same_requests h h' \<Longrightarrow> queued h' = queued h \<and> released h' = released h \<and> inflight h' = inflight h"
  by (auto simp: same_requests_def queued_def released_def inflight_def)

lemma same_requests_reqs: "same_requests h h' \<Longrightarrow> reqs_ok h' A qs fs = reqs_ok h A qs fs"
  by (simp add: same_requests_def same_setup_def reqs_ok_def)

text \<open>What a pass over the queues leaves.\<close>

lemma passed_after:
  assumes "passed h qs fs ms h'"
  shows "reqs_ok h' {} (queued h') fs" and "released h' = fs" and "cache_inv (h_buffer_cache h')"
    and "\<exists>ms' mf'. msgs_ok (h_messages h') (h_recv_list h') ms' mf'" and "same_setup h h'"
    and "queued h' CLH_REQUEST_TYPE_RECV = []"
    and "queued h' CLH_REQUEST_TYPE_SEND =
           rev (drop (CONF_SEND_THRESH - sends_of (h_requests h) (inflight h))
             (rev (qs CLH_REQUEST_TYPE_SEND)))"
    and "\<exists>ops1 ops2. inflight h' = inflight h @ ops1 @ ops2 \<and>
           map op_request ops1 = take (CONF_SEND_THRESH - sends_of (h_requests h) (inflight h))
             (rev (qs CLH_REQUEST_TYPE_SEND)) \<and>
           map op_request ops2 = qs CLH_REQUEST_TYPE_RECV"
proof -
  let ?m = "CONF_SEND_THRESH - sends_of (h_requests h) (inflight h)"
  let ?xs = "rev (qs CLH_REQUEST_TYPE_SEND)"
  from assms obtain h1 where s: "sent h qs fs h1" and
    r: "received_all h1 ((queued h1)(CLH_REQUEST_TYPE_RECV := [])) fs ms (qs CLH_REQUEST_TYPE_RECV) h'"
    by (auto simp: passed_def)
  have q1: "queued h1 = qs(CLH_REQUEST_TYPE_SEND := rev (drop ?m ?xs))"
    using s reqs_ok_queued [of h1] by (auto simp: sent_def Let_def)
  have reqs: "reqs_ok h' {} ((queued h1)(CLH_REQUEST_TYPE_RECV := [])) fs"
    using r by (simp add: received_all_def)
  have q': "queued h' = (queued h1)(CLH_REQUEST_TYPE_RECV := [])" "released h' = fs"
    using reqs_ok_queued [OF reqs] by simp_all
  show "reqs_ok h' {} (queued h') fs" using reqs q' by simp
  show "released h' = fs" by (rule q'(2))
  show "cache_inv (h_buffer_cache h')"
    and "\<exists>ms' mf'. msgs_ok (h_messages h') (h_recv_list h') ms' mf'"
    using r by (auto simp: received_all_def)
  show "same_setup h h'"
    using s r same_setup_trans [of h h1 h'] by (simp add: sent_def received_all_def Let_def)
  show "queued h' CLH_REQUEST_TYPE_RECV = []"
    and "queued h' CLH_REQUEST_TYPE_SEND = rev (drop ?m ?xs)"
    using q' q1 by simp_all
  show "\<exists>ops1 ops2. inflight h' = inflight h @ ops1 @ ops2 \<and>
      map op_request ops1 = take ?m ?xs \<and> map op_request ops2 = qs CLH_REQUEST_TYPE_RECV"
  proof -
    from s obtain ops1 where "inflight h1 = inflight h @ ops1" "map op_request ops1 = take ?m ?xs"
      by (auto simp: sent_def Let_def)
    moreover from r obtain ops2 where "inflight h' = inflight h1 @ ops2"
      "map op_request ops2 = qs CLH_REQUEST_TYPE_RECV"
      by (auto simp: received_all_def)
    ultimately show ?thesis by (intro exI [of _ ops1] exI [of _ ops2]) simp
  qed
qed

lemma swept_ok_after:
  assumes "swept_ok U h A qs fs idx h'"
  shows "reqs_ok h' A qs fs" and "queued h' = qs" and "released h' = fs" and "same_rest h h'"
  using assms reqs_ok_queued by (auto simp: swept_ok_def swept_def)

lemma run_body_outcome:
  assumes inv: "handle_inv h" and U: "posts_requests U" "fills_infos U" "\<not> b \<longrightarrow> ucp_reliable U"
  shows "outcome b (run_body U h) (iterated U h)"
proof -
  from inv obtain ms mf where msgs: "msgs_ok (h_messages h) (h_recv_list h) ms mf" and
    cache: "cache_inv (h_buffer_cache h)"
    by (auto simp: handle_inv_def handle_rep_def)
  note reqs = handle_inv_reqs [OF inv]
  from probe_incoming_outcome [OF msgs, of CONF_PROBE_THRESH U] obtain h1 ms1 mf1 where
    probe: "probe_incomming_messages U h = Inr h1" and f: "fetched h ms h1 ms1" and
    msgs1: "msgs_ok (h_messages h1) (h_recv_list h1) ms1 mf1"
    by (auto simp: probe_incomming_messages_def)
  have same: "same_requests h h1" using f by (simp add: fetched_def)
  have reqs1: "reqs_ok h1 {} (queued h) (released h)" and cache1: "cache_inv (h_buffer_cache h1)"
    using reqs cache same same_requests_reqs [OF same] by (simp_all add: same_requests_def)
  have ops: "outcome b
      (ebind (process_ops_queue U h3) (\<lambda>(h, status).
       ebind (c_assert (status = CLH_STATUS_SUCCESS)) (\<lambda>_. Inr h))) (iterated U h)"
    if p: "passed h1 (queued h) (released h) ms1 h2" and h3: "h3 = h2\<lparr>h_world := u\<rparr>" for h2 h3 u
  proof -
    have "reqs_ok h3 {} (queued h2) (released h)"
      using passed_after(1) [OF p] by (simp add: h3 reqs_ok_def)
    note sweep = process_ops_queue_outcome [OF this U(2,3)]
    have "iterated U h h'" if "swept_ok U h3 {} (queued h2) (released h) 0 h'" for h'
      using same msgs1 p that unfolding h3 iterated_def by blast
    then show ?thesis
      by (auto split: if_splits intro!: outcome_bind [OF sweep] outcome_assert)
  qed
  show ?thesis
    unfolding run_body_def probe ebind.simps
  proof (rule outcome_bind [OF process_shared_queues_outcome [OF reqs1 cache1 msgs1 U(1,3)]],
      clarify)
    fix h2 st assume p: "passed h1 (queued h) (released h) ms1 h2"
    obtain h3 n where wp: "worker_progress_loop CONF_PROGRESS_COUNT U h2 0 = (h3, n)"
      by (rule prod.exhaust)
    with worker_progress_world [of CONF_PROGRESS_COUNT U h2 0] obtain u where
      "h3 = h2\<lparr>h_world := u\<rparr>" by auto
    from ops [OF p this] wp
    show "outcome b (case worker_progress_loop CONF_PROGRESS_COUNT U h2 0 of
        (h, progress_count) \<Rightarrow> ebind (process_ops_queue U h) (\<lambda>(h, status).
           ebind (c_assert (status = CLH_STATUS_SUCCESS)) (\<lambda>_. Inr h))) (iterated U h)"
      by simp
  qed
qed

section \<open>What an iteration guarantees\<close>

lemma iteratedE:
  assumes "iterated U h h'"
  obtains h1 ms mf h2 u where "same_requests h h1"
    "msgs_ok (h_messages h1) (h_recv_list h1) ms mf"
    "passed h1 (queued h) (released h) ms h2"
    "swept_ok U (h2\<lparr>h_world := u\<rparr>) {} (queued h2) (released h) 0 h'"
  using assms by (auto simp: iterated_def)

lemma iterated_inv:
  assumes "iterated U h h'"
  shows "handle_inv h'" and "same_setup h h'" and "released h' = released h"
  using assms
proof (atomize (full), elim iteratedE, goal_cases)
  case (1 h1 ms mf h2 u)
  note p = passed_after [OF 1(3)] and sw = swept_ok_after [OF 1(4)]
  from p(4) obtain ms' mf' where "msgs_ok (h_messages h') (h_recv_list h') ms' mf'"
    using sw(4) by (auto simp: same_rest_def)
  moreover have "cache_inv (h_buffer_cache h')" using p(3) sw(4) by (simp add: same_rest_def)
  ultimately have "handle_inv h'"
    using sw(1) unfolding handle_inv_def handle_rep_def by blast
  moreover have "same_setup h h'"
    using 1(1) p(5) sw(4) by (auto simp: same_requests_def same_rest_def same_setup_def)
  ultimately show ?case using sw(3) by simp
qed


text \<open>The requests the worker is responsible for.\<close>

definition tracked :: "'u clh_handle \<Rightarrow> nat set" where
  "tracked h = set (queued h CLH_REQUEST_TYPE_SEND) \<union> set (queued h CLH_REQUEST_TYPE_RECV) \<union>
     op_request ` set (inflight h)"

definition completed_in :: "'u clh_handle \<Rightarrow> nat \<Rightarrow> bool" where
  "completed_in h r \<longleftrightarrow> opt_all req_completed (req_at h r)"

lemma completed_not_tracked: "handle_inv h \<Longrightarrow> completed_in h r \<Longrightarrow> r \<notin> tracked h"
  using handle_inv_reqs [of h]
  by (fastforce simp: completed_in_def tracked_def reqs_ok_def queue_ok_def ops_ok_def op_ready_def
      inflight_def opt_all_iff req_at_def send_ready_iff recv_ready_iff)

lemma iterated_inflight:
  assumes "iterated U h h'"
  shows "\<exists>h2 u. swept_ok U (h2\<lparr>h_world := u\<rparr>) {} (queued h2) (released h) 0 h' \<and>
           queued h2 CLH_REQUEST_TYPE_RECV = [] \<and>
           queued h2 CLH_REQUEST_TYPE_SEND =
             rev (drop (CONF_SEND_THRESH - sends_of (h_requests h) (inflight h))
               (rev (queued h CLH_REQUEST_TYPE_SEND))) \<and>
           op_request ` set (inflight h2) = op_request ` set (inflight h) \<union>
             set (take (CONF_SEND_THRESH - sends_of (h_requests h) (inflight h))
                (rev (queued h CLH_REQUEST_TYPE_SEND))) \<union> set (queued h CLH_REQUEST_TYPE_RECV) \<and>
           reqs_ok h2 {} (queued h2) (released h) \<and>
           (\<forall>a. a \<notin> tracked h \<longrightarrow> req_at h2 a = req_at h a)"
  using assms
proof (elim iteratedE, goal_cases)
  case (1 h1 ms mf h2 u)
  note q = same_requests_queued [OF 1(1)] and p = passed_after [OF 1(3)]
  let ?m = "CONF_SEND_THRESH - sends_of (h_requests h1) (inflight h1)"
  from p(8) obtain ops1 ops2 where ops: "inflight h2 = inflight h1 @ ops1 @ ops2"
    "map op_request ops1 = take ?m (rev (queued h CLH_REQUEST_TYPE_SEND))"
    "map op_request ops2 = queued h CLH_REQUEST_TYPE_RECV"
    by blast
  have "op_request ` set (inflight h2) = op_request ` set (inflight h1) \<union>
      set (map op_request ops1) \<union> set (map op_request ops2)"
    by (simp only: ops(1) set_append image_Un list.set_map Un_assoc)
  then have "op_request ` set (inflight h2) = op_request ` set (inflight h) \<union>
      set (take ?m (rev (queued h CLH_REQUEST_TYPE_SEND))) \<union> set (queued h CLH_REQUEST_TYPE_RECV)"
    by (simp only: ops(2,3) q)
  moreover have "h_requests h1 = h_requests h" using 1(1) by (simp add: same_requests_def)
  moreover have "req_at h2 a = req_at h1 a" if "a \<notin> set (queued h CLH_REQUEST_TYPE_RECV)" for a
    using 1(3) that by (auto simp: passed_def sent_def received_all_def Let_def req_at_def)
  ultimately show ?case
    using 1(4) p q by (intro exI [of _ h2] exI [of _ u]) (simp add: tracked_def req_at_def)
qed

text \<open>The queues after an iteration.\<close>

lemma iterated_queues:
  assumes "iterated U h h'"
  shows "queued h' CLH_REQUEST_TYPE_RECV = []"
    and "queued h' CLH_REQUEST_TYPE_SEND =
           rev (drop (CONF_SEND_THRESH - sends_of (h_requests h) (inflight h))
             (rev (queued h CLH_REQUEST_TYPE_SEND)))"
  using iterated_inflight [OF assms] swept_ok_after(2) by metis+

text \<open>Whatever the worker does not track stays as it is.\<close>

lemma iterated_others:
  assumes "iterated U h h'" and "a \<notin> tracked h"
  shows "req_at h' a = req_at h a"
proof -
  from iterated_inflight [OF assms(1)] obtain h2 u where
    sw: "swept_ok U (h2\<lparr>h_world := u\<rparr>) {} (queued h2) (released h) 0 h'" and
    ops: "op_request ` set (inflight h2) = op_request ` set (inflight h) \<union>
       set (take (CONF_SEND_THRESH - sends_of (h_requests h) (inflight h))
          (rev (queued h CLH_REQUEST_TYPE_SEND))) \<union> set (queued h CLH_REQUEST_TYPE_RECV)" and
    data: "\<forall>a. a \<notin> tracked h \<longrightarrow> req_at h2 a = req_at h a"
    by blast
  have "op_request ` set (inflight h2) \<subseteq> tracked h"
    unfolding ops tracked_def using set_take_subset by fastforce
  then have "a \<notin> op_request ` set (inflight (h2\<lparr>h_world := u\<rparr>))"
    using assms(2) by (auto simp: inflight_def)
  then have "req_at h' a = req_at (h2\<lparr>h_world := u\<rparr>) a"
    using sw unfolding swept_ok_def swept_def by blast
  then show ?thesis using data assms(2) by (simp add: req_at_def)
qed

text \<open>The worker takes on nothing by itself.\<close>

lemma iterated_tracked_sub:
  assumes "iterated U h h'"
  shows "tracked h' \<subseteq> tracked h"
proof -
  let ?m = "CONF_SEND_THRESH - sends_of (h_requests h) (inflight h)"
  let ?xs = "rev (queued h CLH_REQUEST_TYPE_SEND)"
  from iterated_inflight [OF assms] obtain h2 u where
    sw: "swept_ok U (h2\<lparr>h_world := u\<rparr>) {} (queued h2) (released h) 0 h'" and
    ops: "op_request ` set (inflight h2) = op_request ` set (inflight h) \<union>
       set (take ?m ?xs) \<union> set (queued h CLH_REQUEST_TYPE_RECV)"
    by blast
  have "mset (inflight h') \<subseteq># mset (inflight (h2\<lparr>h_world := u\<rparr>))"
    using sw unfolding swept_ok_def swept_def by blast
  then have "set (inflight h') \<subseteq> set (inflight h2)"
    by (metis set_mset_mono set_mset_mset inflight_def clh_handle.select_convs(9)
        clh_handle.update_convs(2) clh_handle.surjective)
  then have "op_request ` set (inflight h') \<subseteq> tracked h"
    using ops set_take_subset [of ?m ?xs] by (auto simp: tracked_def)
  moreover have "set (queued h' CLH_REQUEST_TYPE_SEND) \<subseteq> set (queued h CLH_REQUEST_TYPE_SEND)"
    using set_drop_subset [of ?m ?xs] by (simp add: iterated_queues(2) [OF assms])
  ultimately show ?thesis by (auto simp: tracked_def iterated_queues(1) [OF assms])
qed

text \<open>No request gets lost: it stays with the worker until it is completed.\<close>

lemma iterated_tracked:
  assumes "iterated U h h'" and "r \<in> tracked h"
  shows "r \<in> tracked h' \<or> completed_in h' r"
proof -
  let ?m = "CONF_SEND_THRESH - sends_of (h_requests h) (inflight h)"
  let ?xs = "rev (queued h CLH_REQUEST_TYPE_SEND)"
  from iterated_inflight [OF assms(1)] obtain h2 u where
    sw: "swept_ok U (h2\<lparr>h_world := u\<rparr>) {} (queued h2) (released h) 0 h'" and
    send: "queued h2 CLH_REQUEST_TYPE_SEND = rev (drop ?m ?xs)" and
    ops: "op_request ` set (inflight h2) = op_request ` set (inflight h) \<union>
       set (take ?m ?xs) \<union> set (queued h CLH_REQUEST_TYPE_RECV)"
    by blast
  have "set (queued h CLH_REQUEST_TYPE_SEND) = set (take ?m ?xs) \<union> set (queued h2 CLH_REQUEST_TYPE_SEND)"
    unfolding send by (metis append_take_drop_id set_append set_rev)
  then have "r \<in> set (queued h2 CLH_REQUEST_TYPE_SEND) \<or> r \<in> op_request ` set (inflight h2)"
    using assms(2) unfolding ops tracked_def by blast
  then show ?thesis
  proof
    assume "r \<in> set (queued h2 CLH_REQUEST_TYPE_SEND)"
    then show ?thesis using swept_ok_after(2) [OF sw] by (simp add: tracked_def)
  next
    assume "r \<in> op_request ` set (inflight h2)"
    then obtain op where "op \<in> set (inflight (h2\<lparr>h_world := u\<rparr>))" "r = op_request op"
      by (auto simp: inflight_def)
    then show ?thesis
      using sw unfolding swept_ok_def swept_def tracked_def completed_in_def by blast
  qed
qed

section \<open>The loop\<close>

text \<open>A library that has finished every operation by the time it is tested.\<close>

definition finishes :: "'u ucp \<Rightarrow> bool" where
  "finishes U \<longleftrightarrow> statuses_fixed U (\<lambda>_. UCS_OK) (\<lambda>_. True)"

lemma iterated_finishes:
  assumes it: "iterated U h h'" and "finishes U"
  shows "inflight h' = []"
proof -
  from iterated_inflight [OF it] obtain h2 u where
    sw: "swept_ok U (h2\<lparr>h_world := u\<rparr>) {} (queued h2) (released h) 0 h'" and
    reqs: "reqs_ok h2 {} (queued h2) (released h)"
    by blast
  let ?h = "h2\<lparr>h_world := u\<rparr>"
  have "op_state (\<lambda>_. UCS_OK) op = UCS_OK" if "op \<in> set (inflight ?h)" for op
    using op_in_flight [OF reqs, of op] that by (auto simp: op_state_def inflight_def)
  moreover have "mset (inflight h') =
      filter_mset (\<lambda>op. op_state (\<lambda>_. UCS_OK) op \<noteq> UCS_OK) (mset (inflight ?h))"
    using sw assms(2) unfolding swept_ok_def swept_def finishes_def
    by (elim conjE allE [of _ "\<lambda>_. UCS_OK"] allE [of _ "\<lambda>_. True"]) simp
  ultimately have "mset (inflight h') = {#}"
    by (simp add: mset_filter [symmetric] filter_empty_conv del: mset_filter)
  then show ?thesis by simp
qed

lemma queue_len:
  assumes "reqs_ok h A qs fs"
  shows "list_len (h_request_queues h ty) = of_nat (length (qs ty))"
proof -
  have "pool_inv UNIV (h_requests h) (h_request_queues h) qs fs" using assms by (simp add: reqs_ok_def)
  from pool_inv_list [OF this UNIV_I [of ty]] show ?thesis by (simp add: list_inv_def)
qed

lemma queues_empty_if:
  assumes "handle_inv h" and "inflight h = []"
    and "queued h CLH_REQUEST_TYPE_SEND = []" and "queued h CLH_REQUEST_TYPE_RECV = []"
  shows "queues_empty h"
proof -
  note reqs = handle_inv_reqs [OF assms(1)]
  have "queued h CLH_REQUEST_TYPE_PROBE = []" using reqs by (simp add: reqs_ok_def queue_ok_def)
  then show ?thesis
    using queue_len [OF reqs] array_len_inflight [OF reqs] assms by (simp add: queues_empty_def)
qed

text \<open>Lengths are kept on 64 bits; a queue longer than that does not fit in memory.\<close>

definition queues_fit :: "'u clh_handle \<Rightarrow> bool" where
  "queues_fit h \<longleftrightarrow> (\<forall>ty. length (queued h ty) < 2 ^ 64)"

lemma queues_empty_only:
  assumes inv: "handle_inv h" and "queues_empty h" and fit: "queues_fit h"
  shows "inflight h = []" and "queued h ty = []"
proof -
  note reqs = handle_inv_reqs [OF inv]
  show "inflight h = []"
    using array_len_inflight [OF reqs] assms(2) by (simp add: queues_empty_def)
  have "list_len (h_request_queues h ty) = 0"
    using assms(2) queue_len [OF reqs, of ty] reqs
    by (cases ty) (auto simp: queues_empty_def)
  then have "(of_nat (length (queued h ty)) :: clh_u64) = 0" using queue_len [OF reqs, of ty] by simp
  moreover have "length (queued h ty) < 2 ^ 64" using fit by (simp add: queues_fit_def)
  ultimately have "length (queued h ty) = 0"
    using unat_of_nat [of "length (queued h ty)", where 'a = 64] by simp
  then show "queued h ty = []" by simp
qed

lemma queues_empty_untracked:
  "handle_inv h \<Longrightarrow> queues_empty h \<Longrightarrow> queues_fit h \<Longrightarrow> tracked h = {}"
  using queues_empty_only [of h] by (simp add: tracked_def)

lemma iterated_fit:
  assumes "iterated U h h'" and "queues_fit h"
  shows "queues_fit h'"
proof -
  have "queued h' CLH_REQUEST_TYPE_PROBE = []"
    using handle_inv_reqs [OF iterated_inv(1) [OF assms(1)]] by (simp add: reqs_ok_def queue_ok_def)
  moreover have "length (queued h' CLH_REQUEST_TYPE_SEND) \<le> length (queued h CLH_REQUEST_TYPE_SEND)"
    using iterated_queues(2) [OF assms(1)] by simp
  ultimately have "length (queued h' ty) < 2 ^ 64" for ty
    using assms(2) iterated_queues(1) [OF assms(1)] le_less_trans
    by (cases ty) (auto simp: queues_fit_def)
  then show ?thesis by (simp add: queues_fit_def)
qed

lemma run_loop_stops:
  assumes "\<not> h_run h" and "queues_empty h"
  shows "run_loop fuel U h = Inr h"
  using assms by (subst run_loop.simps) simp

text \<open>When the loop ends, the flag is down and the queues are empty.\<close>

lemma run_loop_end: "run_loop fuel U h = Inr h' \<Longrightarrow> \<not> h_run h' \<and> queues_empty h'"
proof (induction fuel arbitrary: h)
  case 0
  then show ?case by (subst (asm) run_loop.simps) (auto split: if_splits)
next
  case (Suc k)
  then show ?case by (subst (asm) (2) run_loop.simps) (auto split: if_splits simp: ebind_Inr_iff)
qed

text \<open>
  The loop keeps the invariant however often it runs; when the library does not fail it either
  ends or goes on for ever.
\<close>

lemma run_loop_inv:
  assumes "handle_inv h" and U: "posts_requests U" "fills_infos U"
  shows "(case run_loop fuel U h of Inr h' \<Rightarrow> handle_inv h'
          | Inl e \<Rightarrow> e = Diverges \<or> (e = Assert_Failed \<and> \<not> ucp_reliable U))"
  using assms
proof (induction fuel arbitrary: h)
  case 0
  then show ?case by (subst run_loop.simps) simp
next
  case (Suc k)
  have body: "outcome (\<not> ucp_reliable U) (run_body U h) (iterated U h)"
    by (rule run_body_outcome [OF Suc.prems]) simp
  show ?case
  proof (cases "run_body U h")
    case (Inl e)
    then show ?thesis using body Suc.prems by (subst run_loop.simps) simp
  next
    case (Inr h1)
    then have "iterated U h h1" using body by simp
    then have "handle_inv h1" by (rule iterated_inv)
    from Suc.IH [OF this U] Inr Suc.prems show ?thesis by (subst run_loop.simps) simp
  qed
qed

text \<open>
  With a library that finishes what it is given the loop ends: every iteration empties the
  receive queue and the operations and takes the sends that fit.
\<close>

lemma sends_of_Nil [simp]: "sends_of H [] = 0"
  by (simp add: sends_of_def)

lemma iterated_completes:
  assumes "iterated U h h'" and "handle_inv h" and "r \<in> tracked h \<or> completed_in h r"
  shows "r \<in> tracked h' \<or> completed_in h' r"
  using iterated_tracked [OF assms(1), of r] iterated_others [OF assms(1), of r]
    completed_not_tracked [OF assms(2), of r] assms(3) by (auto simp: completed_in_def)

lemma run_loop_drain:
  assumes "handle_inv h" and "\<not> h_run h" and "queues_fit h"
    and U: "posts_requests U" "fills_infos U" "ucp_reliable U" "finishes U"
    and "length (queued h CLH_REQUEST_TYPE_SEND) + sends_of (h_requests h) (inflight h)
           \<le> k * CONF_SEND_THRESH"
  shows "\<exists>h'. run_loop (Suc k) U h = Inr h' \<and> handle_inv h' \<and> queues_empty h' \<and>
           (\<forall>r. r \<in> tracked h \<or> completed_in h r \<longrightarrow> completed_in h' r)"
  using assms
proof (induction k arbitrary: h)
  case 0
  show ?case
  proof (cases "queues_empty h")
    case True
    then show ?thesis
      using 0 run_loop_stops [of h] queues_empty_untracked [of h] by auto
  next
    case False
    from run_body_outcome [OF 0(1) U(1,2), of False] U(3) obtain h1 where
      run: "run_body U h = Inr h1" and it: "iterated U h h1"
      by (auto simp: outcome_False)
    have inv1: "handle_inv h1" and run1: "\<not> h_run h1"
      using iterated_inv [OF it] 0(2) by (simp_all add: same_setup_def)
    have none: "queued h1 CLH_REQUEST_TYPE_RECV = []" "queued h1 CLH_REQUEST_TYPE_SEND = []"
      "inflight h1 = []"
      using iterated_queues [OF it] iterated_finishes [OF it U(4)] 0(8) by simp_all
    then have empty: "queues_empty h1" by (intro queues_empty_if [OF inv1]) auto
    have "tracked h1 = {}" using none by (simp add: tracked_def)
    then have "\<forall>r. r \<in> tracked h \<or> completed_in h r \<longrightarrow> completed_in h1 r"
      using iterated_completes [OF it 0(1)] by blast
    then show ?thesis
      using False run run_loop_stops [OF run1 empty] inv1 empty by (subst run_loop.simps) auto
  qed
next
  case (Suc k)
  show ?case
  proof (cases "queues_empty h")
    case True
    then show ?thesis
      using Suc.prems run_loop_stops [of h] queues_empty_untracked [of h] by auto
  next
    case False
    from run_body_outcome [OF Suc.prems(1) U(1,2), of False] U(3) obtain h1 where
      run: "run_body U h = Inr h1" and it: "iterated U h h1"
      by (auto simp: outcome_False)
    have inv1: "handle_inv h1" and run1: "\<not> h_run h1" and fit1: "queues_fit h1"
      using iterated_inv [OF it] iterated_fit [OF it] Suc.prems by (simp_all add: same_setup_def)
    have "length (queued h1 CLH_REQUEST_TYPE_SEND) + sends_of (h_requests h1) (inflight h1)
        \<le> k * CONF_SEND_THRESH"
      using iterated_queues(2) [OF it] iterated_finishes [OF it U(4)] Suc.prems(8) by simp
    from Suc.IH [OF inv1 run1 fit1 U this] obtain h' where
      "run_loop (Suc k) U h1 = Inr h'" "handle_inv h'" "queues_empty h'"
      "\<forall>r. r \<in> tracked h1 \<or> completed_in h1 r \<longrightarrow> completed_in h' r"
      by blast
    then show ?thesis
      using False run iterated_completes [OF it Suc.prems(1)] by (subst run_loop.simps) auto
  qed
qed

end
