(* ===== verification/Clh_Api_Props.thy ===== *)
theory Clh_Api_Props
  imports Clh_Worker
begin

text \<open>
  The operations of the user on a handle in order: each succeeds under the conditions its caller
  is responsible for, keeps the invariant, and changes the queues, the requests and the messages
  as the interface promises.
\<close>

section \<open>Taking, pushing and releasing a request\<close>

lemma handle_inv_cong:
  assumes "handle_inv h" and "reqs_ok h' {} qs fs"
    and "h_messages h' = h_messages h" "h_recv_list h' = h_recv_list h"
    and "h_buffer_cache h' = h_buffer_cache h"
  shows "handle_inv h'"
  using assms unfolding handle_inv_def handle_rep_def by auto

text \<open>\<open>A\<close> are requests in the hands of others; they exist and are in no list.\<close>

lemma take_request_in:
  assumes reqs: "reqs_ok h A qs fs" and A: "A \<inter> pooled UNIV qs fs = {}"
    and live: "\<forall>a \<in> A. req_at h a \<noteq> None"
  shows "\<exists>S n fs' q. clh_list_new_node (queue_state h ty) = Inr (S, n) \<and>
           reqs_ok (set_queue h ty S) (insert n A) qs (fs(ty := fs')) \<and>
           n \<notin> pooled UNIV qs (fs(ty := fs')) \<and> n \<notin> A \<and> req_at (set_queue h ty S) n = Some q \<and>
           (\<forall>a. a \<noteq> n \<longrightarrow> req_at (set_queue h ty S) a = req_at h a) \<and>
           (n \<in> set (fs ty) \<or> req_at h n = None) \<and> set fs' \<subseteq> set (fs ty) \<and>
           (\<forall>a. a \<noteq> n \<longrightarrow> cells (fst S) a = cells (h_requests h) a)"
proof -
  let ?H = "h_requests h" and ?Q = "h_request_queues h"
  have pool: "pool_inv UNIV ?H ?Q qs fs" and queue: "queue_ok (h_endpoints h) ?H qs"
    and chan: "channels_ok ?H ?Q"
    and ops: "ops_ok ?H (pooled UNIV qs fs \<union> A) (h_ops_queue h) (h_send_count h)"
    using reqs by (simp_all add: reqs_ok_def)
  from pool_new [OF pool UNIV_I [of ty]] obtain H' L' n fs' where
    run: "clh_list_new_node (?H, ?Q ty) = Inr ((H', L'), n)" and
    pool': "pool_inv UNIV H' (?Q(ty := L')) qs (fs(ty := fs'))" and
    tk: "takes_node ?H (?Q ty) (fs ty) n fs' H'" and live': "cells H' n \<noteq> None" and
    n: "n \<notin> pooled UNIV qs (fs(ty := fs'))" and conf: "same_config (?Q ty) L'"
    by blast
  have other: "data_at H' a = data_at ?H a" if "a \<noteq> n" for a
    using tk that by (simp add: takes_node_def data_at_def)
  have sub: "set fs' \<subseteq> set (fs ty)" using tk by (auto simp: takes_node_def)
  have from_free: "n \<in> set (fs ty) \<or> data_at ?H n = None"
    using tk pool_inv_heap [OF pool] by (auto simp: takes_node_def data_at_def heap_inv_def)
  have not_op: "op_request op \<noteq> n" if "op \<in> set (array_list (h_ops_queue h))" for op
  proof
    assume "op_request op = n"
    then have "n \<notin> pooled UNIV qs fs" "data_at ?H n \<noteq> None"
      using ops that by (auto simp: ops_ok_def op_ready_def opt_all_iff)
    then show False using from_free pooledI [OF UNIV_I, of n qs ty fs] by auto
  qed
  have "pooled UNIV qs (fs(ty := fs')) \<subseteq> pooled UNIV qs fs"
    by (rule pooled_mono) (use sub in auto)
  then have "ops_ok ?H (pooled UNIV qs (fs(ty := fs')) \<union> insert n A) (h_ops_queue h) (h_send_count h)"
    using ops not_op unfolding ops_ok_def by blast
  then have "ops_ok H' (pooled UNIV qs (fs(ty := fs')) \<union> insert n A) (h_ops_queue h) (h_send_count h)"
    using ops_ok_cong [of "h_ops_queue h" H' ?H] other not_op by simp
  moreover have "queue_ok (h_endpoints h) H' qs"
  proof -
    have "a \<noteq> n" if "a \<in> set (qs t)" for a t
      using n that pooledI [OF UNIV_I, of a qs t] by auto
    then show ?thesis using queue other by (auto simp: queue_ok_def)
  qed
  moreover have "channels_ok H' (?Q(ty := L'))"
  proof -
    have "data_at H' n = data_at ?H n \<or> data_at H' n = Some (node_data (list_allocator (?Q ty) n))"
      using tk by (auto simp: takes_node_def)
    then have "channel_ok (req_channel q)" if "data_at H' a = Some q" for a q
      using chan other that by (cases "a = n") (auto simp: channels_ok_def)
    then show ?thesis using chan conf by (auto simp: channels_ok_def same_config_def)
  qed
  moreover have "n \<notin> A"
    using from_free A live pooledI [OF UNIV_I, of n qs ty fs] by (auto simp: req_at_def)
  moreover have "\<forall>a. a \<noteq> n \<longrightarrow> cells H' a = cells ?H a" using tk by (simp add: takes_node_def)
  moreover obtain q where "data_at H' n = Some q" using live' by (auto simp: data_at_def)
  ultimately show ?thesis
    using run pool' n other from_free sub
    by (intro exI [of _ "(H', L')"] exI [of _ n] exI [of _ fs'] exI [of _ q])
      (simp add: queue_state_def set_queue_def reqs_ok_def req_at_def)
qed

lemma take_request:
  assumes reqs: "reqs_ok h {} qs fs"
  shows "\<exists>S n fs' q. clh_list_new_node (queue_state h ty) = Inr (S, n) \<and>
           reqs_ok (set_queue h ty S) {n} qs (fs(ty := fs')) \<and>
           n \<notin> pooled UNIV qs (fs(ty := fs')) \<and> req_at (set_queue h ty S) n = Some q \<and>
           (\<forall>a. a \<noteq> n \<longrightarrow> req_at (set_queue h ty S) a = req_at h a) \<and>
           (n \<in> set (fs ty) \<or> req_at h n = None) \<and> set fs' \<subseteq> set (fs ty)"
  using take_request_in [OF reqs, of ty] by fastforce

lemma push_request_in:
  assumes reqs: "reqs_ok h (insert n A) qs fs" and n: "n \<notin> pooled UNIV qs fs" and q: "req_at h n = Some q"
    and fits: "ty = CLH_REQUEST_TYPE_SEND \<and> send_ready (h_endpoints h) q \<or>
      ty = CLH_REQUEST_TYPE_RECV \<and> recv_ready q"
  shows "\<exists>S. clh_list_push_node (queue_state h ty) n = Inr S \<and>
           reqs_ok (set_queue h ty S) A (qs(ty := qs ty @ [n])) fs \<and>
           req_at (set_queue h ty S) = req_at h \<and>
           (\<forall>a. a \<notin> insert n (set (qs ty)) \<longrightarrow> cells (fst S) a = cells (h_requests h) a)"
proof -
  have pool: "pool_inv UNIV (h_requests h) (h_request_queues h) qs fs"
    and queue: "queue_ok (h_endpoints h) (h_requests h) qs"
    using reqs by (simp_all add: reqs_ok_def)
  have live: "cells (h_requests h) n \<noteq> None" using q by (auto simp: req_at_def data_at_def)
  from pool_push [OF pool UNIV_I [of ty] live n] obtain H' L' where
    run: "clh_list_push_node (h_requests h, h_request_queues h ty) n = Inr (H', L')" and
    pool': "pool_inv UNIV H' ((h_request_queues h)(ty := L')) (qs(ty := qs ty @ [n])) fs" and
    data: "data_at H' = data_at (h_requests h)" and conf: "same_config (h_request_queues h ty) L'"
    and re: "relinks (insert n (set (qs ty))) (h_requests h) H'"
    by blast
  have "pooled UNIV (qs(ty := qs ty @ [n])) fs \<subseteq> pooled UNIV qs fs \<union> {n}"
    by (auto simp: pooled_def split: if_splits)
  then have "op_request ` set (inflight h) \<inter> (pooled UNIV (qs(ty := qs ty @ [n])) fs \<union> A) = {}"
    using reqs_ok_disjoint [OF reqs] by blast
  moreover have "queue_ok (h_endpoints h) (h_requests h) (qs(ty := qs ty @ [n]))"
    using queue fits q by (auto simp: queue_ok_def req_at_def opt_all_iff)
  ultimately show ?thesis
    using run reqs_ok_set_queue [OF reqs data pool' conf] data re
    by (intro exI [of _ "(H', L')"])
      (auto simp: queue_state_def set_queue_def req_at_def fun_eq_iff relinks_def)
qed

lemma push_request:
  assumes "reqs_ok h {n} qs fs" and "n \<notin> pooled UNIV qs fs" and "req_at h n = Some q"
    and "ty = CLH_REQUEST_TYPE_SEND \<and> send_ready (h_endpoints h) q \<or>
      ty = CLH_REQUEST_TYPE_RECV \<and> recv_ready q"
  shows "\<exists>S. clh_list_push_node (queue_state h ty) n = Inr S \<and>
           reqs_ok (set_queue h ty S) {} (qs(ty := qs ty @ [n])) fs \<and>
           req_at (set_queue h ty S) = req_at h"
  using push_request_in [OF assms] by blast

text \<open>Releasing what the user holds.\<close>

lemma user_holds_free:
  assumes "handle_inv h" and "user_holds h r"
  shows "r \<notin> pooled UNIV (queued h) (released h)" and "\<exists>q. req_at h r = Some q"
  using assms by (auto simp: user_holds_def pooled_def)

lemma release_request_in:
  assumes reqs: "reqs_ok h A qs fs" and n: "n \<notin> pooled UNIV qs fs"
    and ops: "n \<notin> op_request ` set (inflight h)" and q: "req_at h n = Some q"
  shows "\<exists>S. clh_request_release h n = Inr (set_queue h (req_type q) S) \<and>
           reqs_ok (set_queue h (req_type q) S) A qs (fs(req_type q := n # fs (req_type q))) \<and>
           data_at (fst S) = data_at (h_requests h) \<and>
           (\<forall>a. a \<noteq> n \<longrightarrow> cells (fst S) a = cells (h_requests h) a)"
proof -
  let ?ty = "req_type q"
  let ?fs = "fs(?ty := n # fs ?ty)"
  have pool: "pool_inv UNIV (h_requests h) (h_request_queues h) qs fs"
    and queue: "queue_ok (h_endpoints h) (h_requests h) qs"
    using reqs by (simp_all add: reqs_ok_def)
  have live: "cells (h_requests h) n \<noteq> None" using q by (auto simp: req_at_def data_at_def)
  from pool_release [OF pool UNIV_I [of ?ty] live n] obtain H' L' where
    run: "clh_list_release_data (h_requests h, h_request_queues h ?ty) n = Inr (H', L')" and
    pool': "pool_inv UNIV H' ((h_request_queues h)(?ty := L')) qs ?fs" and
    data: "data_at H' = data_at (h_requests h)" and conf: "same_config (h_request_queues h ?ty) L'"
    and re: "relinks {n} (h_requests h) H'"
    by blast
  have "pooled UNIV qs ?fs \<subseteq> pooled UNIV qs fs \<union> {n}"
    by (auto simp: pooled_def split: if_splits)
  then have "op_request ` set (inflight h) \<inter> (pooled UNIV qs ?fs \<union> A) = {}"
    using reqs_ok_disjoint [OF reqs] ops by blast
  from reqs_ok_set_queue [OF reqs data pool' conf queue this]
  have "reqs_ok (set_queue h ?ty (H', L')) A qs ?fs" .
  moreover have "clh_request_release h n = Inr (set_queue h ?ty (H', L'))"
    using run q by (simp add: clh_request_release_def queue_state_def)
  ultimately show ?thesis using data re by (intro exI [of _ "(H', L')"]) (simp add: relinks_def)
qed

lemma release_request:
  assumes inv: "handle_inv h" and r: "user_holds h r"
  shows "\<exists>h' q. clh_request_release h r = Inr h' \<and> req_at h r = Some q \<and> handle_inv h' \<and>
           released h' = (released h)(req_type q := r # released h (req_type q)) \<and>
           queued h' = queued h \<and> inflight h' = inflight h \<and> req_at h' = req_at h \<and>
           received h' = received h"
proof -
  note reqs = handle_inv_reqs [OF inv] and free = user_holds_free [OF inv r]
  from free(2) obtain q where q: "req_at h r = Some q" by blast
  have ops: "r \<notin> op_request ` set (inflight h)" using r by (simp add: user_holds_def)
  from release_request_in [OF reqs free(1) ops q] obtain S where
    run: "clh_request_release h r = Inr (set_queue h (req_type q) S)" and
    reqs': "reqs_ok (set_queue h (req_type q) S) {} (queued h)
       ((released h)(req_type q := r # released h (req_type q)))" and
    data: "data_at (fst S) = data_at (h_requests h)"
    by blast
  let ?h = "set_queue h (req_type q) S"
  from handle_inv_cong [OF inv reqs'] have "handle_inv ?h" by (simp add: set_queue_def)
  moreover have "inflight ?h = inflight h" "req_at ?h = req_at h" "received ?h = received h"
    using data by (auto simp: set_queue_def inflight_def req_at_def received_def fun_eq_iff)
  ultimately show ?thesis using run q reqs_ok_queued [OF reqs'] by auto
qed


section \<open>Sending\<close>

text \<open>The request \<open>clh_send\<close> fills in.\<close>

definition send_request ::
  "'u clh_handle \<Rightarrow> clh_u32 \<Rightarrow> clh_u32 \<Rightarrow> clh_u32 \<Rightarrow> clh_buffer \<Rightarrow> clh_request" where
  "send_request h channel dest tag buffer =
     \<lparr>req_type = CLH_REQUEST_TYPE_SEND, req_completed = False, req_channel = channel,
      req_source = clh_node_id h, req_tag = tag,
      req_data = Send_Data \<lparr>send_buffer = buffer,
                            send_tag = clh_encode_tag channel (clh_node_id h) tag,
                            send_dest = dest\<rparr>\<rparr>"

text \<open>
  A new request at the end of one queue; every other request, the messages and the operations
  stay. The node was free or did not exist.
\<close>

definition enqueued ::
  "'u clh_handle \<Rightarrow> clh_request_type \<Rightarrow> nat \<Rightarrow> clh_request \<Rightarrow> 'u clh_handle \<Rightarrow> bool" where
  "enqueued h ty n q h' \<longleftrightarrow> handle_inv h' \<and>
     queued h' = (queued h)(ty := queued h ty @ [n]) \<and> req_at h' = (req_at h)(n \<mapsto> q) \<and>
     inflight h' = inflight h \<and> received h' = received h \<and>
     (n \<in> set (released h ty) \<or> req_at h n = None) \<and>
     (\<forall>t. set (released h' t) \<subseteq> set (released h t))"

lemma set_queue_fields [simp]:
  "h_endpoints (set_queue h ty S) = h_endpoints h" "h_pmi (set_queue h ty S) = h_pmi h"
  "h_messages (set_queue h ty S) = h_messages h" "h_recv_list (set_queue h ty S) = h_recv_list h"
  "h_buffer_cache (set_queue h ty S) = h_buffer_cache h"
  "h_ops_queue (set_queue h ty S) = h_ops_queue h"
  by (simp_all add: set_queue_def)

lemma req_at_set:
  "req_at h n = Some q \<Longrightarrow>
     req_at (h\<lparr>h_requests := set_data (h_requests h) n x\<rparr>) = (req_at h)(n \<mapsto> x)"
  by (auto simp: req_at_def data_at_set_live fun_eq_iff)

text \<open>
  The common part of sending and receiving: take a node, fill it in, push it.
\<close>

lemma enqueue_new:
  assumes inv: "handle_inv h"
    and fits: "\<And>q. channel_ok (req_channel q) \<Longrightarrow> channel_ok (req_channel (f q)) \<and>
      (ty = CLH_REQUEST_TYPE_SEND \<and> send_ready (h_endpoints h) (f q) \<or>
       ty = CLH_REQUEST_TYPE_RECV \<and> recv_ready (f q))"
  shows "\<exists>S n q S'. clh_list_new_node (queue_state h ty) = Inr (S, n) \<and>
      (let h1 = set_queue h ty S; h2 = h1\<lparr>h_requests := set_data (h_requests h1) n (f q)\<rparr> in
       upd_request h1 n f = Inr h2 \<and> clh_list_push_node (queue_state h2 ty) n = Inr S' \<and>
       enqueued h ty n (f q) (set_queue h2 ty S'))"
proof -
  note reqs = handle_inv_reqs [OF inv]
  from take_request [OF reqs, of ty] obtain S n fs' q where
    new: "clh_list_new_node (queue_state h ty) = Inr (S, n)" and
    reqs1: "reqs_ok (set_queue h ty S) {n} (queued h) ((released h)(ty := fs'))" and
    n: "n \<notin> pooled UNIV (queued h) ((released h)(ty := fs'))" and
    q: "req_at (set_queue h ty S) n = Some q" and
    other: "\<forall>a. a \<noteq> n \<longrightarrow> req_at (set_queue h ty S) a = req_at h a" and
    orig: "n \<in> set (released h ty) \<or> req_at h n = None" "set fs' \<subseteq> set (released h ty)"
    by blast
  let ?h1 = "set_queue h ty S"
  let ?h2 = "?h1\<lparr>h_requests := set_data (h_requests ?h1) n (f q)\<rparr>"
  have "channel_ok (req_channel q)"
    using reqs1 q by (auto simp: reqs_ok_def channels_ok_def req_at_def)
  note fq = fits [OF this]
  have upd: "upd_request ?h1 n f = Inr ?h2" using q upd_request_Some by (simp add: req_at_def)
  have reqs2: "reqs_ok ?h2 {n} (queued h) ((released h)(ty := fs'))"
    using reqs_ok_upd [OF reqs1 n, of "f q"] fq q by simp
  have at2: "req_at ?h2 = (req_at h)(n \<mapsto> f q)"
    using req_at_set [OF q] other by (auto simp: fun_eq_iff)
  then have "req_at ?h2 n = Some (f q)" by simp
  from push_request [OF reqs2 n this, of ty] fq obtain S' where
    push: "clh_list_push_node (queue_state ?h2 ty) n = Inr S'" and
    reqs3: "reqs_ok (set_queue ?h2 ty S') {} ((queued h)(ty := queued h ty @ [n])) ((released h)(ty := fs'))"
    and at3: "req_at (set_queue ?h2 ty S') = req_at ?h2"
    by auto
  have "handle_inv (set_queue ?h2 ty S')"
    by (rule handle_inv_cong [OF inv reqs3]) simp_all
  moreover have "released (set_queue ?h2 ty S') = (released h)(ty := fs')"
    using reqs_ok_queued [OF reqs3] by simp
  then have "\<forall>t. set (released (set_queue ?h2 ty S') t) \<subseteq> set (released h t)"
    using orig(2) by simp
  ultimately have "enqueued h ty n (f q) (set_queue ?h2 ty S')"
    using reqs_ok_queued [OF reqs3] at2 at3 orig(1)
    by (simp add: enqueued_def inflight_def received_def fun_eq_iff)
  then show ?thesis using new upd push by (metis (no_types, lifting))
qed

lemma send_spec:
  assumes inv: "handle_inv h" and chan: "channel_ok channel"
    and dest: "unat dest < length (h_endpoints h)" "h_endpoints h ! unat dest \<noteq> None"
  shows "\<exists>h' n. clh_send h channel dest tag buffer = Inr (h', n) \<and>
           enqueued h CLH_REQUEST_TYPE_SEND n (send_request h channel dest tag buffer) h'"
proof -
  let ?x = "send_request h channel dest tag buffer"
  have x: "send_ready (h_endpoints h) ?x"
    using dest by (auto simp: send_ready_iff send_request_def)
  have "channel_ok (req_channel ?x)" using chan by (simp add: send_request_def)
  with enqueue_new [OF inv, of "\<lambda>_. ?x" CLH_REQUEST_TYPE_SEND] x
  have "\<exists>S n q S'. clh_list_new_node (queue_state h CLH_REQUEST_TYPE_SEND) = Inr (S, n) \<and>
      (let h1 = set_queue h CLH_REQUEST_TYPE_SEND S; h2 = h1\<lparr>h_requests := set_data (h_requests h1) n ?x\<rparr> in
       upd_request h1 n (\<lambda>_. ?x) = Inr h2 \<and>
       clh_list_push_node (queue_state h2 CLH_REQUEST_TYPE_SEND) n = Inr S' \<and>
       enqueued h CLH_REQUEST_TYPE_SEND n ?x (set_queue h2 CLH_REQUEST_TYPE_SEND S'))"
    by simp
  moreover have "(\<lambda>q. q\<lparr>req_type := CLH_REQUEST_TYPE_SEND, req_completed := False,
      req_channel := channel, req_tag := tag, req_source := clh_node_id h,
      req_data := Send_Data \<lparr>send_buffer = buffer,
        send_tag = clh_encode_tag channel (clh_node_id h) tag, send_dest = dest\<rparr>\<rparr>) = (\<lambda>_. ?x)"
    by (simp add: fun_eq_iff send_request_def)
  moreover have "clh_node_id (set_queue h ty S) = clh_node_id h" for ty S
    by (simp add: clh_node_id_def)
  ultimately show ?thesis by (auto simp: clh_send_def Let_def)
qed

text \<open>Whether the destination has an endpoint does not matter to \<open>clh_send\<close>.\<close>

lemma send_anywhere:
  assumes inv: "handle_inv h"
  shows "\<exists>h' n. clh_send h channel dest tag buffer = Inr (h', n) \<and>
           req_at h' n = Some (send_request h channel dest tag buffer)"
proof -
  let ?ty = CLH_REQUEST_TYPE_SEND and ?x = "send_request h channel dest tag buffer"
  from take_request [OF handle_inv_reqs [OF inv], of ?ty] obtain S n fs' q where
    new: "clh_list_new_node (queue_state h ?ty) = Inr (S, n)" and
    reqs1: "reqs_ok (set_queue h ?ty S) {n} (queued h) ((released h)(?ty := fs'))" and
    n: "n \<notin> pooled UNIV (queued h) ((released h)(?ty := fs'))" and
    q: "req_at (set_queue h ?ty S) n = Some q"
    by blast
  let ?h1 = "set_queue h ?ty S"
  let ?H2 = "set_data (h_requests ?h1) n ?x"
  have "pool_inv UNIV ?H2 (h_request_queues ?h1) (queued h) ((released h)(?ty := fs'))"
    using reqs1 by (simp add: reqs_ok_def)
  moreover have "cells ?H2 n \<noteq> None" using q by (auto simp: req_at_def data_at_def)
  ultimately obtain H' L' where
    push: "clh_list_push_node (?H2, h_request_queues ?h1 ?ty) n = Inr (H', L')" and
    data: "data_at H' = data_at ?H2"
    using pool_push [OF _ UNIV_I _ n] by blast
  have upd: "upd_request ?h1 n f = Inr (?h1\<lparr>h_requests := set_data (h_requests ?h1) n (f q)\<rparr>)" for f
    using q upd_request_Some by (simp add: req_at_def)
  have x: "q\<lparr>req_type := ?ty, req_completed := False,
      req_channel := channel, req_tag := tag, req_source := clh_node_id h,
      req_data := Send_Data \<lparr>send_buffer = buffer,
        send_tag = clh_encode_tag channel (clh_node_id h) tag, send_dest = dest\<rparr>\<rparr> = ?x"
    by (simp add: send_request_def)
  have "clh_node_id ?h1 = clh_node_id h" by (simp add: clh_node_id_def)
  then have "clh_send h channel dest tag buffer =
      Inr (set_queue (?h1\<lparr>h_requests := ?H2\<rparr>) ?ty (H', L'), n)"
    using new push by (simp add: clh_send_def upd x queue_state_def)
  moreover have "req_at (set_queue (?h1\<lparr>h_requests := ?H2\<rparr>) ?ty (H', L')) n = Some ?x"
    using data q by (simp add: req_at_def set_queue_def data_at_set_live)
  ultimately show ?thesis by blast
qed

section \<open>Receiving\<close>

text \<open>The request \<open>clh_recv_\<close> leaves: channel, source and tag are those of the node.\<close>

definition recv_request ::
  "clh_u64 \<Rightarrow> clh_u64 \<Rightarrow> clh_buffer \<Rightarrow> clh_request \<Rightarrow> clh_request" where
  "recv_request tag tag_mask buffer q =
     q\<lparr>req_type := CLH_REQUEST_TYPE_RECV, req_completed := False,
       req_data := Recv_Data \<lparr>recv_buffer = buffer, recv_tag = tag, recv_tag_mask = tag_mask,
                              recv_infos = None, recv_msg = 0\<rparr>\<rparr>"

lemma recv_post_spec:
  assumes inv: "handle_inv h"
  shows "\<exists>h' n q. clh_recv_post h tag tag_mask buffer = Inr (h', n) \<and>
           enqueued h CLH_REQUEST_TYPE_RECV n (recv_request tag tag_mask buffer q) h'"
proof -
  have "channel_ok (req_channel (recv_request tag tag_mask buffer q)) = channel_ok (req_channel q) \<and>
      recv_ready (recv_request tag tag_mask buffer q)" for q
    by (simp add: recv_request_def recv_ready_iff)
  with enqueue_new [OF inv, of "recv_request tag tag_mask buffer" CLH_REQUEST_TYPE_RECV]
  show ?thesis
    by (auto simp: clh_recv_post_def Let_def recv_request_def [abs_def])
qed

lemma recv_spec:
  assumes "handle_inv h"
  shows "\<exists>h' n q. clh_recv h channel tag tag_mask buffer = Inr (h', n) \<and>
           enqueued h CLH_REQUEST_TYPE_RECV n
             (recv_request (clh_encode_tag channel 0 tag) (CHANNEL_MASK OR ucast tag_mask) buffer q) h'"
  unfolding clh_recv_def Let_def by (rule recv_post_spec [OF assms])

lemma recv_from_spec:
  assumes "handle_inv h"
  shows "\<exists>h' n q. clh_recv_from h channel source tag tag_mask buffer = Inr (h', n) \<and>
           enqueued h CLH_REQUEST_TYPE_RECV n
             (recv_request (clh_encode_tag channel source tag)
               (CHANNEL_MASK OR SENDER_ID_MASK OR ucast tag_mask) buffer q) h'"
  unfolding clh_recv_from_def Let_def by (rule recv_post_spec [OF assms])


text \<open>Receiving what a successful probe found, into the request of the probe.\<close>

lemma request_recv_spec:
  assumes inv: "handle_inv h" and r: "user_holds h r" and q: "req_at h r = Some q"
    and probe: "req_type q = CLH_REQUEST_TYPE_PROBE" "req_data q = Probe_Data d"
      "probe_sender_tag d = Some tag"
  shows "\<exists>h'. clh_request_recv h r buffer = Inr (h', r) \<and> handle_inv h' \<and>
           queued h' = (queued h)(CLH_REQUEST_TYPE_RECV := queued h CLH_REQUEST_TYPE_RECV @ [r]) \<and>
           req_at h' = (req_at h)(r \<mapsto> q\<lparr>req_completed := False,
             req_data := Recv_Data \<lparr>recv_buffer = buffer, recv_tag = tag,
               recv_tag_mask = 0xFFFFFFFFFFFFFFFF, recv_infos = None,
               recv_msg = (if probe_remove d then probe_msg d else 0)\<rparr>\<rparr>) \<and>
           inflight h' = inflight h \<and> received h' = received h \<and> released h' = released h"
proof -
  note reqs = handle_inv_reqs [OF inv] and free = user_holds_free(1) [OF inv r]
  let ?rd = "Recv_Data \<lparr>recv_buffer = buffer, recv_tag = tag,
      recv_tag_mask = 0xFFFFFFFFFFFFFFFF, recv_infos = None,
      recv_msg = (if probe_remove d then probe_msg d else 0)\<rparr>"
  let ?x = "q\<lparr>req_completed := False, req_data := ?rd\<rparr>"
  have reqs1: "reqs_ok h {r} (queued h) (released h)"
    using reqs r by (auto simp: reqs_ok_def ops_ok_def user_holds_def inflight_def)
  have "channel_ok (req_channel q)" using reqs q by (auto simp: reqs_ok_def channels_ok_def req_at_def)
  then have chan: "channel_ok (req_channel ?x)" by simp
  let ?h1 = "h\<lparr>h_requests := set_data (h_requests h) r ?x\<rparr>"
  have reqs2: "reqs_ok ?h1 {r} (queued h) (released h)"
    using reqs_ok_upd [OF reqs1 free chan] q by simp
  have at1: "req_at ?h1 = (req_at h)(r \<mapsto> ?x)" by (rule req_at_set [OF q])
  then have "req_at ?h1 r = Some ?x" by simp
  moreover have "recv_ready ?x" using probe by (simp add: recv_ready_iff)
  ultimately obtain S where
    push: "clh_list_push_node (queue_state ?h1 CLH_REQUEST_TYPE_RECV) r = Inr S" and
    reqs3: "reqs_ok (set_queue ?h1 CLH_REQUEST_TYPE_RECV S) {}
      ((queued h)(CLH_REQUEST_TYPE_RECV := queued h CLH_REQUEST_TYPE_RECV @ [r])) (released h)" and
    at3: "req_at (set_queue ?h1 CLH_REQUEST_TYPE_RECV S) = req_at ?h1"
    using push_request [OF reqs2 free, of ?x CLH_REQUEST_TYPE_RECV] by auto
  have data: "data_at (h_requests h) r = Some q" using q by (simp add: req_at_def)
  have upd: "upd_request h r (\<lambda>q. q\<lparr>req_completed := False, req_data := ?rd\<rparr>) = Inr ?h1"
    by (rule upd_request_Some [OF data])
  have "handle_inv (set_queue ?h1 CLH_REQUEST_TYPE_RECV S)"
    by (rule handle_inv_cong [OF inv reqs3]) simp_all
  moreover have "clh_request_recv h r buffer = Inr (set_queue ?h1 CLH_REQUEST_TYPE_RECV S, r)"
    using q probe upd push
    by (simp add: clh_request_recv_def clh_list_node_from_data_def Let_def del: if_split_asm split del: if_split)
  ultimately show ?thesis
    using reqs_ok_queued [OF reqs3] at1 at3
    by (intro exI [of _ "set_queue ?h1 CLH_REQUEST_TYPE_RECV S"])
      (simp add: inflight_def received_def fun_eq_iff)
qed

section \<open>Probing\<close>

text \<open>The request of a probe that found nothing, and of one that found the message \<open>m\<close>.\<close>

definition probe_data :: "bool \<Rightarrow> clh_u64 \<Rightarrow> clh_u64 \<Rightarrow> clh_probe_data" where
  "probe_data remove tag tag_mask =
     \<lparr>probe_result = False, probe_remove = remove, probe_tag = tag, probe_tag_mask = tag_mask,
      probe_sender_tag = None, probe_buffer_len = None, probe_msg = 0\<rparr>"

definition probe_miss :: "bool \<Rightarrow> clh_u64 \<Rightarrow> clh_u64 \<Rightarrow> clh_request \<Rightarrow> clh_request" where
  "probe_miss remove tag tag_mask q =
     q\<lparr>req_type := CLH_REQUEST_TYPE_PROBE, req_completed := True,
       req_data := Probe_Data (probe_data remove tag tag_mask)\<rparr>"

definition probe_hit ::
  "bool \<Rightarrow> clh_u64 \<Rightarrow> clh_u64 \<Rightarrow> clh_message \<Rightarrow> clh_request \<Rightarrow> clh_request" where
  "probe_hit remove tag tag_mask m q =
     (probe_miss remove tag tag_mask q)
       \<lparr>req_data := Probe_Data ((probe_data remove tag tag_mask)
          \<lparr>probe_result := True, probe_sender_tag := Some (msg_full_tag m),
           probe_buffer_len := Some (msg_buffer_len m), probe_msg := msg_msg m\<rparr>),
        req_channel := msg_channel m, req_source := msg_sender_id m, req_tag := msg_sender_tag m\<rparr>"

definition probe_match :: "'u clh_handle \<Rightarrow> clh_u32 \<Rightarrow> clh_u64 \<Rightarrow> clh_u64 \<Rightarrow> nat option" where
  "probe_match h channel tag tag_mask =
     List.find (\<lambda>a. tag_matches (msg_full_tag (msg_at h a)) tag tag_mask)
       (received h (unat channel))"

text \<open>A probe only adds a request, in the hands of the user.\<close>

definition probed :: "'u clh_handle \<Rightarrow> nat \<Rightarrow> clh_request \<Rightarrow> 'u clh_handle \<Rightarrow> bool" where
  "probed h n q h' \<longleftrightarrow> handle_inv h' \<and> user_holds h' n \<and> queued h' = queued h \<and>
     inflight h' = inflight h \<and> req_at h' = (req_at h)(n \<mapsto> q) \<and>
     data_at (h_messages h') = data_at (h_messages h) \<and>
     (n \<in> set (released h CLH_REQUEST_TYPE_PROBE) \<or> req_at h n = None) \<and>
     (\<forall>t. set (released h' t) \<subseteq> set (released h t))"

lemma probed_intro:
  assumes reqs: "reqs_ok h' {n} qs fs" and n: "n \<notin> pooled UNIV qs fs"
    and at: "req_at h' = (req_at h)(n \<mapsto> q)"
    and msgs: "msgs_ok (h_messages h') (h_recv_list h') ms mf"
    and cache: "cache_inv (h_buffer_cache h')"
    and same: "qs = queued h" "inflight h' = inflight h"
      "data_at (h_messages h') = data_at (h_messages h)"
    and orig: "n \<in> set (released h CLH_REQUEST_TYPE_PROBE) \<or> req_at h n = None"
      "\<forall>t. set (fs t) \<subseteq> set (released h t)"
  shows "probed h n q h'"
proof -
  have "reqs_ok h' {} qs fs"
    using reqs by (auto simp: reqs_ok_def intro: ops_ok_anti)
  then have "handle_inv h'" using msgs cache unfolding handle_inv_def handle_rep_def by blast
  moreover have "user_holds h' n"
    using n at reqs_ok_queued [OF reqs] reqs_ok_disjoint [OF reqs]
    by (auto simp: user_holds_def pooled_def)
  ultimately show ?thesis
    using at same orig reqs_ok_queued [OF reqs] by (simp add: probed_def)
qed


text \<open>The request of a probe, taken and filled in as one that found nothing.\<close>

lemma probe_taken:
  assumes inv: "handle_inv h"
  shows "\<exists>S n fs' q. clh_list_new_node (queue_state h CLH_REQUEST_TYPE_PROBE) = Inr (S, n) \<and>
     (let h1 = set_queue h CLH_REQUEST_TYPE_PROBE S; x = probe_miss remove tag tag_mask q;
          h2 = h1\<lparr>h_requests := set_data (h_requests h1) n x\<rparr>;
          fs = (released h)(CLH_REQUEST_TYPE_PROBE := fs') in
      upd_request h1 n (\<lambda>q. q\<lparr>req_type := CLH_REQUEST_TYPE_PROBE, req_completed := True,
        req_data := Probe_Data (probe_data remove tag tag_mask)\<rparr>) = Inr h2 \<and>
      reqs_ok h2 {n} (queued h) fs \<and> n \<notin> pooled UNIV (queued h) fs \<and>
      req_at h2 = (req_at h)(n \<mapsto> x)) \<and>
     (n \<in> set (released h CLH_REQUEST_TYPE_PROBE) \<or> req_at h n = None) \<and>
     set fs' \<subseteq> set (released h CLH_REQUEST_TYPE_PROBE)"
proof -
  note reqs = handle_inv_reqs [OF inv]
  from take_request [OF reqs, of CLH_REQUEST_TYPE_PROBE] obtain S n fs' q where
    new: "clh_list_new_node (queue_state h CLH_REQUEST_TYPE_PROBE) = Inr (S, n)" and
    reqs1: "reqs_ok (set_queue h CLH_REQUEST_TYPE_PROBE S) {n} (queued h)
      ((released h)(CLH_REQUEST_TYPE_PROBE := fs'))" and
    n: "n \<notin> pooled UNIV (queued h) ((released h)(CLH_REQUEST_TYPE_PROBE := fs'))" and
    q: "req_at (set_queue h CLH_REQUEST_TYPE_PROBE S) n = Some q" and
    other: "\<forall>a. a \<noteq> n \<longrightarrow> req_at (set_queue h CLH_REQUEST_TYPE_PROBE S) a = req_at h a" and
    orig: "n \<in> set (released h CLH_REQUEST_TYPE_PROBE) \<or> req_at h n = None"
      "set fs' \<subseteq> set (released h CLH_REQUEST_TYPE_PROBE)"
    by blast
  let ?h1 = "set_queue h CLH_REQUEST_TYPE_PROBE S"
  let ?x = "probe_miss remove tag tag_mask q"
  let ?h2 = "?h1\<lparr>h_requests := set_data (h_requests ?h1) n ?x\<rparr>"
  let ?fs = "(released h)(CLH_REQUEST_TYPE_PROBE := fs')"
  have q_ok: "channel_ok (req_channel q)" using reqs1 q by (auto simp: reqs_ok_def channels_ok_def req_at_def)
  then have "reqs_ok ?h2 {n} (queued h) ?fs"
    using reqs_ok_upd [OF reqs1 n, of ?x] q by (simp add: probe_miss_def)
  moreover have "req_at ?h2 = (req_at h)(n \<mapsto> ?x)"
    using req_at_set [OF q] other by (auto simp: fun_eq_iff)
  moreover have "data_at (h_requests ?h1) n = Some q" using q by (simp add: req_at_def)
  then have "upd_request ?h1 n (\<lambda>q. q\<lparr>req_type := CLH_REQUEST_TYPE_PROBE, req_completed := True,
      req_data := Probe_Data (probe_data remove tag tag_mask)\<rparr>) = Inr ?h2"
    unfolding probe_miss_def by (rule upd_request_Some)
  ultimately show ?thesis using new n orig by (metis (no_types, lifting))
qed

text \<open>The search of a probe, on the list of its channel.\<close>

lemma probe_search:
  assumes msgs: "msgs_ok (h_messages h) (h_recv_list h) ms mf" and chan: "channel_ok channel"
  shows "message_search (h_messages h, h_recv_list h ! unat channel) tag tag_mask =
      Inr ((h_messages h, h_recv_list h ! unat channel), probe_match h channel tag tag_mask)"
  using message_search_spec [of "h_messages h" "h_recv_list h ! unat channel" "ms (unat channel)"
      "mf (unat channel)" tag tag_mask] msgs_ok_list [OF msgs channel_lt [OF chan]]
    msgs_ok_received [OF msgs channel_lt [OF chan]]
  by (simp add: probe_match_def msg_at_def)

lemma probe_match_message:
  assumes msgs: "msgs_ok (h_messages h) (h_recv_list h) ms mf" and chan: "channel_ok channel"
    and found: "probe_match h channel tag tag_mask = Some a"
  shows "a \<in> set (received h (unat channel))"
    and "\<exists>nd. cells (h_messages h) a = Some nd \<and> node_data nd = msg_at h a"
    and "channel_ok (msg_channel (msg_at h a))"
proof -
  have c: "unat channel < CLH_MAX_CHANNELS" by (rule channel_lt [OF chan])
  show a: "a \<in> set (received h (unat channel))"
    using found find_split by (fastforce simp: probe_match_def)
  with msgs c have "opt_all (msg_ok (unat channel)) (data_at (h_messages h) a)"
    using msgs_ok_received [OF msgs c] by (simp add: msgs_ok_def)
  then show "\<exists>nd. cells (h_messages h) a = Some nd \<and> node_data nd = msg_at h a"
    and "channel_ok (msg_channel (msg_at h a))"
    using chan by (auto simp: opt_all_iff msg_ok_def data_at_def msg_at_def channel_ok_def)
qed

text \<open>The handle with the probe's request filled in as a miss; only the requests have changed.\<close>

definition probe_begun ::
  "'u clh_handle \<Rightarrow> nat \<Rightarrow> clh_request \<Rightarrow> (clh_request_type \<Rightarrow> nat list) \<Rightarrow> 'u clh_handle \<Rightarrow> bool" where
  "probe_begun h n x fs h' \<longleftrightarrow>
     reqs_ok h' {n} (queued h) fs \<and> n \<notin> pooled UNIV (queued h) fs \<and> req_at h' = (req_at h)(n \<mapsto> x) \<and>
     h_messages h' = h_messages h \<and> h_recv_list h' = h_recv_list h \<and>
     h_buffer_cache h' = h_buffer_cache h \<and> inflight h' = inflight h \<and>
     (n \<in> set (released h CLH_REQUEST_TYPE_PROBE) \<or> req_at h n = None) \<and>
     (\<forall>t. set (fs t) \<subseteq> set (released h t))"

lemma probe_begun_hit:
  assumes beg: "probe_begun h n (probe_miss remove tag tag_mask q) fs h1"
    and chan: "channel_ok (msg_channel m)"
  defines "h2 \<equiv> h1\<lparr>h_requests := set_data (h_requests h1) n (probe_hit remove tag tag_mask m q)\<rparr>"
  shows "upd_request h1 n (\<lambda>q. q\<lparr>
           req_data := Probe_Data ((probe_data remove tag tag_mask)
             \<lparr>probe_result := True, probe_sender_tag := Some (msg_full_tag m),
              probe_buffer_len := Some (msg_buffer_len m), probe_msg := msg_msg m\<rparr>),
           req_channel := msg_channel m, req_source := msg_sender_id m,
           req_tag := msg_sender_tag m\<rparr>) = Inr h2"
    and "probe_begun h n (probe_hit remove tag tag_mask m q) fs h2"
proof -
  have at: "req_at h1 n = Some (probe_miss remove tag tag_mask q)"
    using beg by (simp add: probe_begun_def)
  then have data: "data_at (h_requests h1) n = Some (probe_miss remove tag tag_mask q)"
    by (simp add: req_at_def)
  show "upd_request h1 n (\<lambda>q. q\<lparr>
           req_data := Probe_Data ((probe_data remove tag tag_mask)
             \<lparr>probe_result := True, probe_sender_tag := Some (msg_full_tag m),
              probe_buffer_len := Some (msg_buffer_len m), probe_msg := msg_msg m\<rparr>),
           req_channel := msg_channel m, req_source := msg_sender_id m,
           req_tag := msg_sender_tag m\<rparr>) = Inr h2"
    unfolding h2_def probe_hit_def by (rule upd_request_Some [OF data])
  have "reqs_ok h2 {n} (queued h) fs"
    unfolding h2_def using beg at chan
    by (intro reqs_ok_upd) (auto simp: probe_begun_def probe_hit_def)
  moreover have "req_at h2 = (req_at h)(n \<mapsto> probe_hit remove tag tag_mask m q)"
    unfolding h2_def using req_at_set [OF at] beg by (simp add: probe_begun_def)
  ultimately show "probe_begun h n (probe_hit remove tag tag_mask m q) fs h2"
    using beg by (simp add: probe_begun_def h2_def inflight_def)
qed

lemma probe_begun_same:
  "probe_begun h n x fs h1 \<Longrightarrow> h1\<lparr>h_messages := h_messages h, h_recv_list := h_recv_list h\<rparr> = h1"
  by (simp add: probe_begun_def)

text \<open>What a probe runs, on its branches.\<close>

lemma probe_run:
  assumes inv: "handle_inv h" and chan: "channel_ok channel"
  shows "\<exists>h1 n q fs. probe_begun h n (probe_miss remove tag tag_mask q) fs h1 \<and>
     clh_probe_channel h channel tag tag_mask remove =
       (case probe_match h channel tag tag_mask of
          None \<Rightarrow> Inr (h1, n)
        | Some a \<Rightarrow>
            let h2 = h1\<lparr>h_requests := set_data (h_requests h1) n
              (probe_hit remove tag tag_mask (msg_at h a) q)\<rparr> in
            if remove
            then ebind (clh_list_remove_node (h_messages h, h_recv_list h ! unat channel) a) (\<lambda>(H, L).
                   Inr (h2\<lparr>h_messages := H, h_recv_list := (h_recv_list h)[unat channel := L]\<rparr>, n))
            else Inr (h2, n))"
proof -
  from inv obtain ms mf where msgs: "msgs_ok (h_messages h) (h_recv_list h) ms mf"
    by (auto simp: handle_inv_def handle_rep_def)
  from probe_taken [OF inv, of remove tag tag_mask] obtain S n fs' q where
    new: "clh_list_new_node (queue_state h CLH_REQUEST_TYPE_PROBE) = Inr (S, n)" and
    taken: "let h1 = set_queue h CLH_REQUEST_TYPE_PROBE S; x = probe_miss remove tag tag_mask q;
          h2 = h1\<lparr>h_requests := set_data (h_requests h1) n x\<rparr>;
          fs = (released h)(CLH_REQUEST_TYPE_PROBE := fs') in
      upd_request h1 n (\<lambda>q. q\<lparr>req_type := CLH_REQUEST_TYPE_PROBE, req_completed := True,
        req_data := Probe_Data (probe_data remove tag tag_mask)\<rparr>) = Inr h2 \<and>
      reqs_ok h2 {n} (queued h) fs \<and> n \<notin> pooled UNIV (queued h) fs \<and>
      req_at h2 = (req_at h)(n \<mapsto> x)" and
    orig: "n \<in> set (released h CLH_REQUEST_TYPE_PROBE) \<or> req_at h n = None"
      "set fs' \<subseteq> set (released h CLH_REQUEST_TYPE_PROBE)"
    by blast
  define h1 where "h1 = (set_queue h CLH_REQUEST_TYPE_PROBE S)
    \<lparr>h_requests := set_data (h_requests (set_queue h CLH_REQUEST_TYPE_PROBE S)) n
       (probe_miss remove tag tag_mask q)\<rparr>"
  have same: "h_messages h1 = h_messages h" "h_recv_list h1 = h_recv_list h"
    by (simp_all add: h1_def set_queue_def)
  have beg: "probe_begun h n (probe_miss remove tag tag_mask q)
      ((released h)(CLH_REQUEST_TYPE_PROBE := fs')) h1"
    using taken orig same by (simp add: Let_def h1_def probe_begun_def inflight_def)
  have upd: "upd_request (set_queue h CLH_REQUEST_TYPE_PROBE S) n (\<lambda>q. q\<lparr>
      req_type := CLH_REQUEST_TYPE_PROBE, req_completed := True,
      req_data := Probe_Data (probe_data remove tag tag_mask)\<rparr>) = Inr h1"
    using taken by (simp add: Let_def h1_def)
  note run = new upd [unfolded probe_data_def] same probe_search [OF msgs chan]
    msgs_ok_list(1) [OF msgs channel_lt [OF chan]]
  show ?thesis
  proof (cases "probe_match h channel tag tag_mask")
    case None
    have "clh_probe_channel h channel tag tag_mask remove = Inr (h1, n)"
      using run None by (simp add: clh_probe_channel_def Let_def probe_begun_same [OF beg])
    then show ?thesis using beg None by auto
  next
    case (Some a)
    note msg = probe_match_message [OF msgs chan Some]
    from msg(2) obtain nd where "cells (h_messages h) a = Some nd" "node_data nd = msg_at h a" by blast
    with run Some probe_begun_hit(1) [OF beg msg(3), unfolded probe_data_def] beg show ?thesis
      by (intro exI [of _ h1] exI [of _ n] exI [of _ q]
          exI [of _ "(released h)(CLH_REQUEST_TYPE_PROBE := fs')"])
        (simp add: clh_probe_channel_def Let_def probe_begun_same [OF beg])
  qed
qed

lemma probe_begun_probed:
  assumes beg: "probe_begun h n x fs h1" and msgs: "msgs_ok H Ls ms mf"
    and data: "data_at H = data_at (h_messages h)" and cache: "cache_inv (h_buffer_cache h)"
  shows "probed h n x (h1\<lparr>h_messages := H, h_recv_list := Ls\<rparr>)"
  by (rule probed_intro [of _ _ "queued h" fs _ _ ms mf])
    (use assms in \<open>auto simp: probe_begun_def inflight_def reqs_ok_def req_at_def fun_eq_iff\<close>)

lemma probe_spec:
  assumes inv: "handle_inv h" and chan: "channel_ok channel"
  defines "c \<equiv> unat channel"
  shows "\<exists>h' n q. clh_probe_channel h channel tag tag_mask remove = Inr (h', n) \<and>
     (case probe_match h channel tag tag_mask of
        None \<Rightarrow> probed h n (probe_miss remove tag tag_mask q) h' \<and> received h' = received h
      | Some a \<Rightarrow>
          probed h n (probe_hit remove tag tag_mask (msg_at h a) q) h' \<and>
          a \<in> set (received h c) \<and>
          (\<forall>j < CLH_MAX_CHANNELS. received h' j =
             (if remove \<and> j = c then remove1 a (received h c) else received h j)))"
proof -
  from inv obtain ms mf where msgs: "msgs_ok (h_messages h) (h_recv_list h) ms mf" and
    cache: "cache_inv (h_buffer_cache h)"
    by (auto simp: handle_inv_def handle_rep_def)
  have c: "c < CLH_MAX_CHANNELS" unfolding c_def by (rule channel_lt [OF chan])
  note rcv = msgs_ok_received [OF msgs]
  obtain h1 n q fs where beg: "probe_begun h n (probe_miss remove tag tag_mask q) fs h1" and
    run: "clh_probe_channel h channel tag tag_mask remove =
       (case probe_match h channel tag tag_mask of
          None \<Rightarrow> Inr (h1, n)
        | Some a \<Rightarrow>
            let h2 = h1\<lparr>h_requests := set_data (h_requests h1) n
              (probe_hit remove tag tag_mask (msg_at h a) q)\<rparr> in
            if remove
            then ebind (clh_list_remove_node (h_messages h, h_recv_list h ! c) a) (\<lambda>(H, L).
                   Inr (h2\<lparr>h_messages := H, h_recv_list := (h_recv_list h)[c := L]\<rparr>, n))
            else Inr (h2, n))"
    using probe_run [OF inv chan, folded c_def] by blast
  have done_with: "probed h n x h'" "received h' = received h" if "probe_begun h n x fs h'" for x h'
    using probe_begun_probed [OF that msgs refl cache] that
    unfolding probe_begun_same [OF that] by (simp_all add: probe_begun_def received_def fun_eq_iff)
  show ?thesis
  proof (cases "probe_match h channel tag tag_mask")
    case None
    then show ?thesis using run done_with [OF beg] by auto
  next
    case (Some a)
    note msg = probe_match_message [OF msgs chan Some, folded c_def]
    define h2 where "h2 = h1\<lparr>h_requests := set_data (h_requests h1) n
      (probe_hit remove tag tag_mask (msg_at h a) q)\<rparr>"
    have run2: "clh_probe_channel h channel tag tag_mask remove = (if remove
        then ebind (clh_list_remove_node (h_messages h, h_recv_list h ! c) a) (\<lambda>(H, L).
               Inr (h2\<lparr>h_messages := H, h_recv_list := (h_recv_list h)[c := L]\<rparr>, n))
        else Inr (h2, n))"
      using run Some by (simp add: h2_def)
    have hit: "probe_begun h n (probe_hit remove tag tag_mask (msg_at h a) q) fs h2"
      unfolding h2_def by (rule probe_begun_hit(2) [OF beg msg(3)])
    show ?thesis
    proof (cases remove)
      case False
      then show ?thesis using run2 Some done_with [OF hit] msg(1) by auto
    next
      case True
      have "a \<in> set (ms c)" using msg(1) rcv [OF c] by simp
      from take_message [OF msgs c this] obtain H' L' where
        take: "clh_list_remove_node (h_messages h, h_recv_list h ! c) a = Inr (H', L')" and
        msgs': "msgs_ok H' ((h_recv_list h)[c := L']) (ms(c := remove1 a (ms c))) (mf(c := a # mf c))"
        and data: "data_at H' = data_at (h_messages h)"
        by blast
      let ?h = "h2\<lparr>h_messages := H', h_recv_list := (h_recv_list h)[c := L']\<rparr>"
      have "received ?h j = (if j = c then remove1 a (received h c) else received h j)"
        if "j < CLH_MAX_CHANNELS" for j
        using msgs_ok_received [of ?h, OF _ that] msgs' rcv [OF that] by auto
      then show ?thesis
        using run2 Some True take probe_begun_probed [OF hit msgs' data cache] msg(1) by auto
    qed
  qed
qed

end
