(* ===== verification/Clh_System.thy ===== *)
theory Clh_System
  imports Clh_Api_Props Clh_Interfaces
begin

text \<open>
  The library as a system: the worker iterates, the user posts, probes, receives and releases,
  the rest of the world changes, each as one step of a labelled relation. Every state reached
  keeps the invariant; a request belongs to the library from the call that posts it until it is
  completed, and to the user from then until it is released.
\<close>

section \<open>Steps\<close>

text \<open>A step is labelled with the request it hands out, takes back or releases.\<close>

datatype clh_event = Work | World | Post nat | Probed nat | Repost nat | Release nat

text \<open>
  What the user has to respect: channels in range, destinations with an endpoint, and only
  completed requests that were not released yet are released or received into.
\<close>

definition may_release :: "'u clh_handle \<Rightarrow> nat \<Rightarrow> bool" where
  "may_release h r \<longleftrightarrow> completed_in h r \<and> (\<forall>ty. r \<notin> set (released h ty))"

definition found_something :: "'u clh_handle \<Rightarrow> nat \<Rightarrow> bool" where
  "found_something h r \<longleftrightarrow>
     opt_all (\<lambda>q. req_type q = CLH_REQUEST_TYPE_PROBE \<and>
       (case req_data q of Probe_Data d \<Rightarrow> probe_sender_tag d \<noteq> None | _ \<Rightarrow> False)) (req_at h r)"

lemma found_something_iff:
  "found_something h r \<longleftrightarrow> (\<exists>q d tag. req_at h r = Some q \<and> req_type q = CLH_REQUEST_TYPE_PROBE \<and>
     req_data q = Probe_Data d \<and> probe_sender_tag d = Some tag)"
proof (cases "req_at h r")
  case (Some q)
  then show ?thesis by (cases "req_data q") (auto simp: found_something_def opt_all_iff)
qed (simp add: found_something_def opt_all_iff)

inductive sys_step :: "'u ucp \<Rightarrow> 'u clh_handle \<Rightarrow> clh_event \<Rightarrow> 'u clh_handle \<Rightarrow> bool" for U where
  work: "run_body U h = Inr h' \<Longrightarrow> sys_step U h Work h'"
| world: "sys_step U h World (h\<lparr>h_world := u\<rparr>)"
| send: "channel_ok channel \<Longrightarrow> unat dest < length (h_endpoints h) \<Longrightarrow>
    h_endpoints h ! unat dest \<noteq> None \<Longrightarrow>
    clh_send h channel dest tag buffer = Inr (h', n) \<Longrightarrow> sys_step U h (Post n) h'"
| recv: "clh_recv h channel tag tag_mask buffer = Inr (h', n) \<Longrightarrow> sys_step U h (Post n) h'"
| recv_from: "clh_recv_from h channel source tag tag_mask buffer = Inr (h', n) \<Longrightarrow>
    sys_step U h (Post n) h'"
| probe: "channel_ok channel \<Longrightarrow> clh_probe h channel tag tag_mask remove = Inr (h', n) \<Longrightarrow>
    sys_step U h (Probed n) h'"
| probe_source: "channel_ok channel \<Longrightarrow>
    clh_probe_source h channel source tag tag_mask remove = Inr (h', n) \<Longrightarrow>
    sys_step U h (Probed n) h'"
| request_recv: "may_release h r \<Longrightarrow> found_something h r \<Longrightarrow>
    clh_request_recv h r buffer = Inr (h', n) \<Longrightarrow> sys_step U h (Repost r) h'"
| release: "may_release h r \<Longrightarrow> clh_request_release h r = Inr h' \<Longrightarrow> sys_step U h (Release r) h'"

inductive_cases work_elim: "sys_step U h Work h'"
inductive_cases post_elim: "sys_step U h (Post n) h'"
inductive_cases probed_elim: "sys_step U h (Probed n) h'"
inductive_cases repost_elim: "sys_step U h (Repost r) h'"
inductive_cases release_elim: "sys_step U h (Release r) h'"
inductive_simps world_simp: "sys_step U h World h'"

lemma may_release_held:
  assumes "handle_inv h" and "may_release h r"
  shows "user_holds h r"
proof -
  from assms(2) obtain q where "req_at h r = Some q" "req_completed q"
    by (auto simp: may_release_def completed_in_def opt_all_iff)
  then show ?thesis using completed_held [OF assms(1)] assms(2) by (simp add: may_release_def)
qed

section \<open>What each kind of step does\<close>

text \<open>The effect of an event on the requests, whatever the call behind it.\<close>

definition reposted :: "'u clh_handle \<Rightarrow> nat \<Rightarrow> 'u clh_handle \<Rightarrow> bool" where
  "reposted h r h' \<longleftrightarrow> handle_inv h' \<and> r \<in> set (queued h' CLH_REQUEST_TYPE_RECV) \<and>
     (\<forall>ty. set (queued h ty) \<subseteq> set (queued h' ty)) \<and> inflight h' = inflight h \<and>
     (\<forall>a. a \<noteq> r \<longrightarrow> req_at h' a = req_at h a) \<and>
     set (queued h' CLH_REQUEST_TYPE_RECV) \<subseteq> insert r (set (queued h CLH_REQUEST_TYPE_RECV)) \<and>
     queued h' CLH_REQUEST_TYPE_SEND = queued h CLH_REQUEST_TYPE_SEND \<and> released h' = released h"

lemma post_effect:
  assumes "handle_inv h" and "sys_step U h (Post n) h'"
  shows "\<exists>ty q. (ty = CLH_REQUEST_TYPE_SEND \<or> ty = CLH_REQUEST_TYPE_RECV) \<and> enqueued h ty n q h'"
  using assms(2)
proof cases
  case (send channel dest tag buffer)
  then show ?thesis using send_spec [OF assms(1) send(1,2,3), of tag buffer] by auto
next
  case (recv channel tag tag_mask buffer)
  then show ?thesis using recv_spec [OF assms(1), of channel tag tag_mask buffer] by auto
next
  case (recv_from channel source tag tag_mask buffer)
  then show ?thesis using recv_from_spec [OF assms(1), of channel source tag tag_mask buffer] by auto
qed

lemma probe_effect:
  assumes "handle_inv h" and "sys_step U h (Probed n) h'"
  shows "\<exists>q. probed h n q h'"
  using assms(2)
proof cases
  case (probe channel tag tag_mask remove)
  then show ?thesis
    using probe_spec [OF assms(1) probe(1), of "clh_encode_tag channel 0 tag"
        "CHANNEL_MASK OR ucast tag_mask" remove]
    by (auto simp: clh_probe_def Let_def split: option.splits)
next
  case (probe_source channel source tag tag_mask remove)
  then show ?thesis
    using probe_spec [OF assms(1) probe_source(1), of "clh_encode_tag channel source tag"
        "CHANNEL_MASK OR SENDER_ID_MASK OR ucast tag_mask" remove]
    by (auto simp: clh_probe_source_def Let_def split: option.splits)
qed

lemma repost_effect:
  assumes inv: "handle_inv h" and step: "sys_step U h (Repost r) h'"
  shows "user_holds h r" and "reposted h r h'"
proof -
  from step have "user_holds h r \<and> reposted h r h'"
  proof cases
    case (request_recv buffer n)
    then obtain q d tag where q: "req_at h r = Some q" "req_type q = CLH_REQUEST_TYPE_PROBE"
      "req_data q = Probe_Data d" "probe_sender_tag d = Some tag"
      by (auto simp: found_something_iff)
    have held: "user_holds h r" by (rule may_release_held [OF inv request_recv(1)])
    from request_recv_spec [OF inv held q, of buffer] request_recv(3) held show ?thesis
      by (auto simp: reposted_def)
  qed
  then show "user_holds h r" and "reposted h r h'" by simp_all
qed

lemma release_effect:
  assumes inv: "handle_inv h" and step: "sys_step U h (Release r) h'"
  shows "user_holds h r" and "handle_inv h'" and "queued h' = queued h"
    and "inflight h' = inflight h" and "req_at h' = req_at h"
    and "\<exists>ty. released h' = (released h)(ty := r # released h ty)"
proof -
  from step have m: "may_release h r" and run: "clh_request_release h r = Inr h'"
    by (auto elim: release_elim)
  show held: "user_holds h r" by (rule may_release_held [OF inv m])
  show "handle_inv h'" and "queued h' = queued h" and "inflight h' = inflight h"
    and "req_at h' = req_at h" and "\<exists>ty. released h' = (released h)(ty := r # released h ty)"
    using release_request [OF inv held] run by auto
qed

lemma work_effect:
  assumes "handle_inv h" and "posts_requests U" "fills_infos U" and "sys_step U h Work h'"
  shows "iterated U h h'"
  using run_body_outcome [OF assms(1-3), of True] assms(4) by (auto elim: work_elim)

lemma world_effect:
  assumes "sys_step U h World h'"
  shows "handle_inv h' = handle_inv h" and "queued h' = queued h" and "released h' = released h"
    and "inflight h' = inflight h" and "req_at h' = req_at h"
proof -
  from assms obtain u where h': "h' = h\<lparr>h_world := u\<rparr>" by (auto simp: world_simp)
  have "handle_rep h' = handle_rep h" by (simp add: h' fun_eq_iff handle_rep_def reqs_ok_def)
  then show "handle_inv h' = handle_inv h" by (simp add: handle_inv_def)
  show "queued h' = queued h" and "released h' = released h" and "inflight h' = inflight h"
    and "req_at h' = req_at h"
    by (simp_all add: h' queued_def released_def inflight_def req_at_def fun_eq_iff)
qed

section \<open>The invariant\<close>

lemma sys_step_inv:
  assumes "handle_inv h" and U: "posts_requests U" "fills_infos U" and step: "sys_step U h e h'"
  shows "handle_inv h'"
proof (cases e)
  case Work
  then show ?thesis using iterated_inv(1) work_effect [OF assms(1) U] step by metis
next
  case World
  then show ?thesis using world_effect(1) [of U h h'] step assms(1) by simp
next
  case (Post n)
  then show ?thesis using post_effect [OF assms(1), of U n h'] step by (auto simp: enqueued_def)
next
  case (Probed n)
  then show ?thesis using probe_effect [OF assms(1), of U n h'] step by (auto simp: probed_def)
next
  case (Repost r)
  then show ?thesis using repost_effect(2) [OF assms(1), of U r h'] step by (simp add: reposted_def)
next
  case (Release r)
  then show ?thesis using release_effect(2) [OF assms(1), of U r h'] step by simp
qed

definition ucp_ok :: "'u ucp \<Rightarrow> bool" where
  "ucp_ok U \<longleftrightarrow> posts_requests U \<and> fills_infos U"

interpretation sys: invariant_system "\<lambda>h h'. \<exists>e. sys_step U h e h'" "\<lambda>h. ucp_ok U \<and> handle_inv h"
  for U :: "'u ucp"
  by unfold_locales (auto simp: ucp_ok_def intro: sys_step_inv)

text \<open>The worker alone, as a system that settles what it owes.\<close>

interpretation wk: obligation_system "iterated U" handle_inv "\<lambda>h r. r \<in> tracked h" completed_in
  for U :: "'u ucp"
proof unfold_locales
  fix h h' :: "'u clh_handle" and r
  assume inv: "handle_inv h" and it: "iterated U h h'"
  show "handle_inv h'" by (rule iterated_inv(1) [OF it])
  show "r \<in> tracked h' \<or> completed_in h' r" if "r \<in> tracked h"
    by (rule iterated_tracked [OF it that])
  show "completed_in h' r" if "completed_in h r"
    using iterated_others [OF it completed_not_tracked [OF inv that]] that
    by (simp add: completed_in_def)
qed

section \<open>Ownership\<close>

text \<open>What the library was given it keeps until it is completed.\<close>

lemma sys_step_tracked:
  assumes inv: "handle_inv h" and U: "posts_requests U" "fills_infos U"
    and step: "sys_step U h e h'" and r: "r \<in> tracked h"
  shows "r \<in> tracked h' \<or> completed_in h' r"
proof (cases e)
  case Work
  then show ?thesis using iterated_tracked work_effect [OF inv U] step r by metis
next
  case World
  then show ?thesis using world_effect [of U h h'] step r by (simp add: tracked_def)
next
  case (Post n)
  then obtain ty q where "enqueued h ty n q h'" using post_effect [OF inv, of U n h'] step by auto
  then have "inflight h' = inflight h" "\<forall>t. set (queued h t) \<subseteq> set (queued h' t)"
    by (auto simp: enqueued_def)
  then show ?thesis using r by (auto simp: tracked_def)
next
  case (Probed n)
  then obtain q where "probed h n q h'" using probe_effect [OF inv, of U n h'] step by auto
  then show ?thesis using r by (simp add: probed_def tracked_def)
next
  case (Repost n)
  then have "reposted h n h'" using repost_effect [OF inv, of U n h'] step by simp
  then show ?thesis using r by (auto simp: reposted_def tracked_def)
next
  case (Release n)
  then show ?thesis using release_effect [OF inv, of U n h'] step r by (simp add: tracked_def)
qed

text \<open>A request handed out is in nobody's use.\<close>

lemma handed_out_fresh:
  assumes inv: "handle_inv h" and orig: "n \<in> set (released h ty) \<or> req_at h n = None"
  shows "n \<notin> tracked h" and "\<not> user_holds h n"
proof -
  note reqs = handle_inv_reqs [OF inv]
  have pool: "pool_inv UNIV (h_requests h) (h_request_queues h) (queued h) (released h)"
    using reqs by (simp add: reqs_ok_def)
  show "\<not> user_holds h n" using orig by (auto simp: user_holds_def)
  show "n \<notin> tracked h"
    using orig
  proof
    assume free: "n \<in> set (released h ty)"
    then have "n \<in> pooled UNIV (queued h) (released h)" by (auto intro: pooledI)
    then have "n \<notin> op_request ` set (inflight h)" using reqs_ok_disjoint [OF reqs] by blast
    moreover have "n \<notin> set (queued h t)" for t
      using free pool_other [OF pool UNIV_I [of ty] UNIV_I [of t]]
        list_inv_distinct [OF pool_inv_list [OF pool UNIV_I [of ty]]] by (cases "t = ty") auto
    ultimately show ?thesis by (simp add: tracked_def)
  next
    assume dead: "req_at h n = None"
    then have "n \<notin> pooled UNIV (queued h) (released h)"
      using pooled_live [OF pool, of n] by (auto simp: req_at_def data_at_def)
    then have "n \<notin> set (queued h t)" for t by (auto simp: pooled_def)
    moreover have "n \<notin> op_request ` set (inflight h)"
      using op_in_flight [OF reqs] dead by fastforce
    ultimately show ?thesis by (simp add: tracked_def)
  qed
qed


text \<open>The user holds what exists, is not free and not tracked.\<close>

lemma user_holds_iff:
  assumes "handle_inv h"
  shows "user_holds h r \<longleftrightarrow>
     req_at h r \<noteq> None \<and> r \<notin> tracked h \<and> (\<forall>ty. r \<notin> set (released h ty))"
proof -
  have "queued h CLH_REQUEST_TYPE_PROBE = []"
    using handle_inv_reqs [OF assms] by (simp add: reqs_ok_def queue_ok_def)
  then have "(\<forall>ty. r \<notin> set (queued h ty)) \<longleftrightarrow>
      r \<notin> set (queued h CLH_REQUEST_TYPE_SEND) \<and> r \<notin> set (queued h CLH_REQUEST_TYPE_RECV)"
    by (metis clh_request_type.exhaust empty_iff list.set(1))
  then show ?thesis by (auto simp: user_holds_def tracked_def)
qed

text \<open>
  What the user holds nobody touches: only the user's own call on that very request does.
\<close>

lemma sys_step_held:
  assumes inv: "handle_inv h" and U: "posts_requests U" "fills_infos U"
    and step: "sys_step U h e h'" and r: "user_holds h r" and e: "e \<noteq> Release r" "e \<noteq> Repost r"
  shows "user_holds h' r \<and> req_at h' r = req_at h r"
proof -
  note inv' = sys_step_inv [OF inv U step]
  have held: "req_at h r \<noteq> None" "r \<notin> tracked h" "\<And>ty. r \<notin> set (released h ty)"
    using r user_holds_iff [OF inv] by auto
  show ?thesis
  proof (cases e)
    case Work
    then have it: "iterated U h h'" using work_effect [OF inv U] step by simp
    then show ?thesis
      using held iterated_others [OF it held(2)] iterated_tracked_sub [OF it]
        iterated_inv(3) [OF it] user_holds_iff [OF inv'] by auto
  next
    case World
    then show ?thesis using world_effect [of U h h'] step r by (simp add: user_holds_def)
  next
    case (Post n)
    then obtain ty q where en: "enqueued h ty n q h'" using post_effect [OF inv, of U n h'] step by auto
    have "n \<noteq> r" using en held by (auto simp: enqueued_def)
    moreover have "\<forall>t. r \<notin> set (released h' t)" using en held(3) unfolding enqueued_def by blast
    ultimately show ?thesis
      using en held user_holds_iff [OF inv'] by (auto simp: enqueued_def tracked_def split: if_splits)
  next
    case (Probed n)
    then obtain q where pr: "probed h n q h'" using probe_effect [OF inv, of U n h'] step by auto
    have "n \<noteq> r" using pr held by (auto simp: probed_def)
    moreover have "\<forall>t. r \<notin> set (released h' t)" using pr held(3) unfolding probed_def by blast
    ultimately show ?thesis
      using pr held user_holds_iff [OF inv'] by (auto simp: probed_def tracked_def)
  next
    case (Repost n)
    then have "reposted h n h'" "n \<noteq> r" using repost_effect [OF inv, of U n h'] step e by auto
    then show ?thesis
      using held user_holds_iff [OF inv'] by (auto simp: reposted_def tracked_def)
  next
    case (Release n)
    then show ?thesis
      using release_effect [OF inv, of U n h'] step r e by (auto simp: user_holds_def split: if_splits)
  qed
qed

end
