(* ===== verification/Clh_Init_Props.thy ===== *)
theory Clh_Init_Props
  imports Clh_Init Clh_System
begin

text \<open>
  A handle that was initialised satisfies the invariant, with empty queues, and has an endpoint
  for every other rank; waiting on a request returns when the library finishes what it is given;
  the warm-up stays within its arrays and leaves nothing behind; finalising frees every node of
  the queues and message lists.
\<close>

section \<open>Initialising lists in a pool\<close>

lemma init_loop_data:
  "clh_list_init_loop k (H, L) = (H', L') \<Longrightarrow>
     data_at H' a = (if brk H \<le> a \<and> a < brk H + k then Some (node_data (list_allocator L a))
                     else data_at H a)"
proof (induction k arbitrary: H L)
  case 0
  then have "H' = H" and "L' = L" by auto
  then show ?case by auto
next
  case (Suc k)
  let ?nd = "(list_allocator L (brk H))\<lparr>node_prev := None, node_next := list_free_nodes L\<rparr>"
  let ?H = "hput (fst (clh_allocator_allocate (list_allocator L) H)) (brk H) ?nd"
  let ?L = "L\<lparr>list_free_nodes := Some (brk H)\<rparr>"
  have "clh_list_init_loop k (?H, ?L) = (H', L')"
    using Suc.prems by (simp add: clh_allocator_allocate_def Let_def)
  from Suc.IH [OF this] show ?case
    by (cases "a = brk H") (auto simp: clh_allocator_allocate_def hput_def data_at_def)
qed

lemma pool_init:
  assumes pool: "pool_inv I H Q qs fs" and i: "i \<notin> I" and size: "arg_data_size args \<noteq> 0"
  shows "\<exists>H' L' fs'. clh_list_init (H, L) args = (H', L') \<and>
           pool_inv (insert i I) H' (Q(i := L')) (qs(i := [])) (fs(i := fs')) \<and>
           list_allocator L' = arg_allocator args \<and>
           (\<forall>a. data_at H' a = data_at H a \<or>
                data_at H' a = Some (node_data (arg_allocator args a)))"
proof -
  note heap = pool_inv_heap [OF pool]
  let ?fs = "rev [brk H ..< brk H + arg_default_capacity args]"
  from init_spec [OF heap size, of L] obtain H' L' where
    run: "clh_list_init (H, L) args = (H', L')" and heap': "heap_inv H'" and
    list: "list_inv H' L' [] ?fs" and frame: "\<forall>a < brk H. cells H' a = cells H a" and
    alloc: "list_allocator L' = arg_allocator args"
    by blast
  have low: "a < brk H" if "j \<in> I" "a \<in> set (qs j) \<union> set (fs j)" for j a
    using list_inv_bound [OF pool_inv_list [OF pool that(1)] heap that(2)] .
  have lists: "list_inv H' (Q j) (qs j) (fs j)" if j: "j \<in> I" for j
    using pool_inv_list [OF pool j] frame low [OF j] by (subst list_inv_cong [where H = H]) auto
  have disj: "set ?fs \<inter> (set (qs j) \<union> set (fs j)) = {}" if "j \<in> I" for j
    using low [OF that] by fastforce
  have "pool_inv (insert i I) H' (Q(i := L')) (qs(i := [])) (fs(i := ?fs))"
    unfolding pool_inv_def
  proof (intro conjI ballI impI)
    fix j assume "j \<in> insert i I"
    then show "list_inv H' ((Q(i := L')) j) ((qs(i := [])) j) ((fs(i := ?fs)) j)"
      using list lists by (cases "j = i") auto
  next
    fix j k assume jk: "j \<in> insert i I" "k \<in> insert i I" "j \<noteq> k"
    have "(set (qs j) \<union> set (fs j)) \<inter> (set (qs k) \<union> set (fs k)) = {}" if "j \<in> I" "k \<in> I"
      by (rule pool_other [OF pool that jk(3)])
    then show "(set ((qs(i := [])) j) \<union> set ((fs(i := ?fs)) j)) \<inter>
        (set ((qs(i := [])) k) \<union> set ((fs(i := ?fs)) k)) = {}"
      using jk disj [of j] disj [of k] by (cases "j = i"; cases "k = i") (auto simp: Int_commute)
  qed (rule heap')
  moreover have "data_at H' a = data_at H a \<or> data_at H' a = Some (node_data (arg_allocator args a))"
    for a
    using run size init_loop_data [of _ H _ H' L' a] by (auto simp: clh_list_init_def)
  ultimately show ?thesis using run alloc by blast
qed

section \<open>The message lists\<close>

lemma init_recv_lists_pool:
  assumes "pool_inv I (h_messages h) (\<lambda>c. h_recv_list h ! c) ms mf" and "distinct is"
    and "set is \<inter> I = {}" and "\<forall>i \<in> set is. i < length (h_recv_list h)"
    and "\<forall>c. ms c = []"
  shows "\<exists>mf'. let h' = init_recv_lists ma is h in
           h' = h\<lparr>h_messages := h_messages h', h_recv_list := h_recv_list h'\<rparr> \<and>
           length (h_recv_list h') = length (h_recv_list h) \<and>
           pool_inv (I \<union> set is) (h_messages h') (\<lambda>c. h_recv_list h' ! c) (\<lambda>_. []) mf'"
  using assms
proof (induction "is" arbitrary: h I ms mf)
  case Nil
  then have "ms = (\<lambda>_. [])" by auto
  with Nil show ?case by (auto simp: Let_def)
next
  case (Cons i js)
  let ?args = "\<lparr>arg_data_size = sizeof_message, arg_default_capacity = 10, arg_allocator = ma\<rparr>"
  have "i \<notin> I" and size: "arg_data_size ?args \<noteq> 0"
    using Cons.prems by (auto simp: sizeof_message_def)
  from pool_init [OF Cons.prems(1) this] obtain H' L' fs' where
    run: "clh_list_init (h_messages h, h_recv_list h ! i) ?args = (H', L')" and
    pool: "pool_inv (insert i I) H' ((\<lambda>c. h_recv_list h ! c)(i := L')) (ms(i := [])) (mf(i := fs'))"
    by blast
  let ?h = "h\<lparr>h_messages := H', h_recv_list := (h_recv_list h)[i := L']\<rparr>"
  have len: "i < length (h_recv_list h)" using Cons.prems by simp
  have pool1: "pool_inv (insert i I) (h_messages ?h) (\<lambda>c. h_recv_list ?h ! c) (ms(i := [])) (mf(i := fs'))"
  proof -
    have Q: "(\<lambda>c. h_recv_list ?h ! c) = (\<lambda>c. h_recv_list h ! c)(i := L')"
      using len by (auto simp: fun_eq_iff nth_list_update)
    have M: "h_messages ?h = H'" by simp
    show ?thesis using pool by (simp only: M Q)
  qed
  have rest: "distinct js" "set js \<inter> insert i I = {}" "\<forall>j \<in> set js. j < length (h_recv_list ?h)"
    "\<forall>c. (ms(i := [])) c = []"
    using Cons.prems by auto
  have step: "init_recv_lists ma (i # js) h = init_recv_lists ma js ?h" using run by simp
  from Cons.IH [OF pool1 rest] show ?case
    unfolding step Let_def
    by (auto simp: Un_insert_left)
qed

text \<open>
  The handle \<open>calloc\<close> returns has no node yet; the structure leaves room for every list.
\<close>

definition fresh_handle :: "'u clh_handle \<Rightarrow> bool" where
  "fresh_handle h \<longleftrightarrow> heap_inv (h_requests h) \<and> (\<forall>a. data_at (h_requests h) a = None) \<and>
     heap_inv (h_messages h) \<and> length (h_recv_list h) = CLH_MAX_CHANNELS \<and> h_send_count h = 0"

lemma init_recv_lists_ok:
  assumes "heap_inv (h_messages h)" and "length (h_recv_list h) = CLH_MAX_CHANNELS"
  shows "\<exists>mf. let h' = init_recv_lists ma [0..<CLH_MAX_CHANNELS] h in
           h' = h\<lparr>h_messages := h_messages h', h_recv_list := h_recv_list h'\<rparr> \<and>
           msgs_ok (h_messages h') (h_recv_list h') (\<lambda>_. []) mf"
proof -
  have pool: "pool_inv {} (h_messages h) (\<lambda>c. h_recv_list h ! c) (\<lambda>_. []) (\<lambda>_. [])"
    using assms by (simp add: pool_inv_def)
  from init_recv_lists_pool [OF pool, of "[0..<CLH_MAX_CHANNELS]" ma] assms(2)
  show ?thesis by (auto simp: Let_def msgs_ok_def atLeast0LessThan)
qed

section \<open>The request queues\<close>

definition nodes_channel_ok :: "clh_request node_heap \<Rightarrow> bool" where
  "nodes_channel_ok H \<longleftrightarrow> (\<forall>a q. data_at H a = Some q \<longrightarrow> channel_ok (req_channel q))"

text \<open>
  The hypothesis on the allocator: the bytes of a fresh node, read as a request, name a channel
  in range. \<open>clh_recv\<close> relies on it by leaving the channel of its request unassigned.
\<close>

definition junk_ok :: "clh_request clh_allocator \<Rightarrow> bool" where
  "junk_ok ra \<longleftrightarrow> (\<forall>a. channel_ok (req_channel (node_data (ra a))))"

lemma request_queue_init_pool:
  assumes pool: "pool_inv I (h_requests h) (h_request_queues h) (\<lambda>_. []) fs" and ty: "ty \<notin> I"
    and junk: "junk_ok ra" and chans: "nodes_channel_ok (h_requests h)"
  shows "\<exists>fs'. let h' = request_queue_init ra ty h in
           h' = h\<lparr>h_requests := h_requests h', h_request_queues := h_request_queues h'\<rparr> \<and>
           pool_inv (insert ty I) (h_requests h') (h_request_queues h') (\<lambda>_. []) fs' \<and>
           nodes_channel_ok (h_requests h') \<and> list_allocator (h_request_queues h' ty) = ra \<and>
           (\<forall>t. t \<noteq> ty \<longrightarrow> h_request_queues h' t = h_request_queues h t)"
proof -
  let ?args = "\<lparr>arg_data_size = sizeof_request, arg_default_capacity = 10, arg_allocator = ra\<rparr>"
  have size: "arg_data_size ?args \<noteq> 0" by (simp add: sizeof_request_def)
  from pool_init [OF pool ty size, of "h_request_queues h ty"] obtain H' L' fs' where
    run: "clh_list_init (h_requests h, h_request_queues h ty) ?args = (H', L')" and
    pool': "pool_inv (insert ty I) H' ((h_request_queues h)(ty := L')) ((\<lambda>_. [])(ty := [])) (fs(ty := fs'))"
    and alloc: "list_allocator L' = ra" and
    data: "\<forall>a. data_at H' a = data_at (h_requests h) a \<or> data_at H' a = Some (node_data (ra a))"
    by auto
  have "nodes_channel_ok H'"
    using data chans junk unfolding nodes_channel_ok_def junk_ok_def by (metis option.inject)
  moreover have "((\<lambda>_. [])(ty := []) :: clh_request_type \<Rightarrow> nat list) = (\<lambda>_. [])" by auto
  then have "pool_inv (insert ty I) H' ((h_request_queues h)(ty := L')) (\<lambda>_. []) (fs(ty := fs'))"
    using pool' by (simp only:)
  ultimately show ?thesis
    using run pool' alloc
    by (auto simp: request_queue_init_def queue_state_def set_queue_def Let_def)
qed

lemma request_types: "UNIV = {CLH_REQUEST_TYPE_PROBE, CLH_REQUEST_TYPE_RECV, CLH_REQUEST_TYPE_SEND}"
  unfolding UNIV_enum by (auto simp: enum_clh_request_type_def)

lemma start_queues_ok:
  assumes heap: "heap_inv (h_requests h)" and none: "\<forall>a. data_at (h_requests h) a = None"
    and junk: "junk_ok ra"
  shows "\<exists>fs. let h' = start_queues ra h in
           h' = h\<lparr>h_requests := h_requests h', h_request_queues := h_request_queues h',
                  h_ops_queue := array_create 1024, h_run := False\<rparr> \<and>
           pool_inv UNIV (h_requests h') (h_request_queues h') (\<lambda>_. []) fs \<and>
           channels_ok (h_requests h') (h_request_queues h')"
proof -
  define h1 where "h1 = request_queue_init ra CLH_REQUEST_TYPE_SEND h"
  define h2 where "h2 = request_queue_init ra CLH_REQUEST_TYPE_RECV h1"
  define h3 where "h3 = request_queue_init ra CLH_REQUEST_TYPE_PROBE h2"
  have "pool_inv {} (h_requests h) (h_request_queues h) (\<lambda>_. []) (\<lambda>_. [])" "nodes_channel_ok (h_requests h)"
    using heap none by (simp_all add: pool_inv_def nodes_channel_ok_def)
  from request_queue_init_pool [OF this(1) _ junk this(2), of CLH_REQUEST_TYPE_SEND]
  obtain fs1 where a: "h1 = h\<lparr>h_requests := h_requests h1, h_request_queues := h_request_queues h1\<rparr>"
    "pool_inv {CLH_REQUEST_TYPE_SEND} (h_requests h1) (h_request_queues h1) (\<lambda>_. []) fs1"
    "nodes_channel_ok (h_requests h1)"
    "list_allocator (h_request_queues h1 CLH_REQUEST_TYPE_SEND) = ra"
    by (auto simp: Let_def h1_def)
  from request_queue_init_pool [OF a(2) _ junk a(3), of CLH_REQUEST_TYPE_RECV]
  obtain fs2 where b: "h2 = h1\<lparr>h_requests := h_requests h2, h_request_queues := h_request_queues h2\<rparr>"
    "pool_inv {CLH_REQUEST_TYPE_RECV, CLH_REQUEST_TYPE_SEND} (h_requests h2) (h_request_queues h2) (\<lambda>_. []) fs2"
    "nodes_channel_ok (h_requests h2)"
    "list_allocator (h_request_queues h2 CLH_REQUEST_TYPE_RECV) = ra"
    "list_allocator (h_request_queues h2 CLH_REQUEST_TYPE_SEND) = ra"
    using a(4) by (auto simp: Let_def h2_def)
  from request_queue_init_pool [OF b(2) _ junk b(3), of CLH_REQUEST_TYPE_PROBE]
  obtain fs3 where c: "h3 = h2\<lparr>h_requests := h_requests h3, h_request_queues := h_request_queues h3\<rparr>"
    "pool_inv UNIV (h_requests h3) (h_request_queues h3) (\<lambda>_. []) fs3"
    "nodes_channel_ok (h_requests h3)"
    "list_allocator (h_request_queues h3 CLH_REQUEST_TYPE_PROBE) = ra"
    "list_allocator (h_request_queues h3 CLH_REQUEST_TYPE_RECV) = ra"
    "list_allocator (h_request_queues h3 CLH_REQUEST_TYPE_SEND) = ra"
    using b(4,5) by (auto simp: Let_def h3_def request_types)
  have "list_allocator (h_request_queues h3 ty) = ra" for ty using c(4-6) by (cases ty) auto
  then have chans: "channels_ok (h_requests h3) (h_request_queues h3)"
    using c(3) junk by (simp add: channels_ok_def nodes_channel_ok_def junk_ok_def)
  have h3: "h3 = h\<lparr>h_requests := h_requests h3, h_request_queues := h_request_queues h3\<rparr>"
    by (subst c(1), subst b(1), subst a(1)) simp
  have s: "start_queues ra h = h3\<lparr>h_ops_queue := array_create 1024, h_run := False\<rparr>"
    by (simp add: start_queues_def h3_def h2_def h1_def)
  have "start_queues ra h = h\<lparr>h_requests := h_requests h3, h_request_queues := h_request_queues h3,
      h_ops_queue := array_create 1024, h_run := False\<rparr>"
    unfolding s by (subst h3) simp
  then show ?thesis using c(2) chans by (intro exI [of _ fs3]) (simp add: Let_def)
qed

section \<open>UCX\<close>

text \<open>Initialising UCX writes the address, the endpoints and the cache, and nothing else.\<close>

definition ucx_frame :: "'u clh_handle \<Rightarrow> 'u clh_handle \<Rightarrow> bool" where
  "ucx_frame h h' \<longleftrightarrow>
     clh_node_id h' = clh_node_id h \<and> clh_nb_nodes h' = clh_nb_nodes h \<and> h_run h' = h_run h \<and>
     h_requests h' = h_requests h \<and> h_request_queues h' = h_request_queues h \<and>
     h_ops_queue h' = h_ops_queue h \<and> h_messages h' = h_messages h \<and>
     h_recv_list h' = h_recv_list h \<and> h_send_count h' = h_send_count h"

lemma ucx_frame_trans: "ucx_frame h h' \<Longrightarrow> ucx_frame h' h'' \<Longrightarrow> ucx_frame h h''"
  by (simp add: ucx_frame_def)

lemma pmi_get_frame:
  "clh_pmi_get P pmi u r key v = Inr (pmi', u', v', n, st) \<Longrightarrow>
     pmi_node_id pmi' = pmi_node_id pmi \<and> pmi_nb_nodes pmi' = pmi_nb_nodes pmi \<and> length v' = length v"
  by (auto simp: clh_pmi_get_def Let_def split: prod.splits if_splits pmix_value.splits)

definition own_rank :: "clh_i32 \<Rightarrow> nat" where
  "own_rank node_id = unat (scast node_id :: clh_u64)"

lemma init_endpoints_loop_spec:
  "init_endpoints_loop U P me ns h = Inr (h', CLH_STATUS_SUCCESS) \<Longrightarrow>
     ucx_frame h h' \<and> length (h_endpoints h') = length (h_endpoints h) \<and>
     (\<forall>i \<in> set ns. i \<noteq> own_rank me \<longrightarrow> i < length (h_endpoints h) \<and> h_endpoints h' ! i \<noteq> None) \<and>
     (\<forall>i. i \<notin> set ns \<or> i = own_rank me \<longrightarrow> h_endpoints h' ! i = h_endpoints h ! i)"
proof (induction ns arbitrary: h)
  case Nil
  then show ?case by (simp add: ucx_frame_def)
next
  case (Cons n ns)
  show ?case
  proof (cases "n = own_rank me")
    case True
    then have "init_endpoints_loop U P me ns h = Inr (h', CLH_STATUS_SUCCESS)"
      using Cons.prems by (simp add: own_rank_def)
    from Cons.IH [OF this] True show ?thesis by auto
  next
    case False
    let ?key = "clh_pmi_make_key (of_nat n)"
    from False Cons.prems obtain pmi1 u1 a1 n1 s1 pmi2 u2 a2 n2 ep u3 eps where
      g1: "clh_pmi_get P (h_pmi h) (h_world h) (of_nat n) ?key (replicate PEER_ADDR_SIZE 0) =
             Inr (pmi1, u1, a1, n1, s1)" and
      g2: "clh_pmi_get P pmi1 u1 (of_nat n) ?key a1 = Inr (pmi2, u2, a2, n2, CLH_PMI_STATUS_SUCCESS)" and
      ep: "ucp_ep_create U u2 a2 = (UCS_OK, ep, u3)" and
      eps: "n < length (h_endpoints h)" "eps = (h_endpoints h)[n := Some ep]" and
      rest: "init_endpoints_loop U P me ns (h\<lparr>h_pmi := pmi2, h_world := u3, h_endpoints := eps\<rparr>) =
               Inr (h', CLH_STATUS_SUCCESS)"
      by (auto simp: own_rank_def Let_def res_simps check_ucx_def split: if_splits prod.splits)
    let ?h = "h\<lparr>h_pmi := pmi2, h_world := u3, h_endpoints := eps\<rparr>"
    have frame: "ucx_frame h ?h"
      using pmi_get_frame [OF g1] pmi_get_frame [OF g2]
      by (simp add: ucx_frame_def clh_node_id_def clh_nb_nodes_def)
    note ih = Cons.IH [OF rest]
    have "h_endpoints h' ! i = h_endpoints h ! i" if "i \<notin> set (n # ns) \<or> i = own_rank me" for i
      using ih that False eps by auto
    moreover have "i < length (h_endpoints h) \<and> h_endpoints h' ! i \<noteq> None"
      if "i \<in> set (n # ns)" "i \<noteq> own_rank me" for i
      using ih that eps by (cases "i \<in> set ns") auto
    ultimately show ?thesis using ih ucx_frame_trans [OF frame] eps by auto
  qed
qed

text \<open>Every rank but the own one gets an endpoint; the entry of the own rank is never written.\<close>

lemma init_ucp_endpoints_spec:
  assumes "init_ucp_endpoints U P h = Inr (h', CLH_STATUS_SUCCESS)"
  shows "ucx_frame h h' \<and> length (h_endpoints h') = unat (clh_nb_nodes h) \<and>
     (\<forall>i < unat (clh_nb_nodes h). h_endpoints h' ! i = None \<longleftrightarrow> i = own_rank (clh_node_id h))"
proof -
  from assms obtain h1 where
    loop: "init_endpoints_loop U P (clh_node_id h) [0..<unat (clh_nb_nodes h)] h1 =
             Inr (h', CLH_STATUS_SUCCESS)" and
    h1: "h_endpoints h1 = replicate (unat (clh_nb_nodes h)) None" "ucx_frame h h1"
    by (auto simp: init_ucp_endpoints_def Let_def res_simps ucx_frame_def clh_node_id_def
        clh_nb_nodes_def split: prod.splits if_splits)
  note spec = init_endpoints_loop_spec [OF loop]
  have "h_endpoints h' ! i = None \<longleftrightarrow> i = own_rank (clh_node_id h)" if "i < unat (clh_nb_nodes h)" for i
  proof -
    have "i \<in> set [0..<unat (clh_nb_nodes h)]" using that by simp
    then show ?thesis using spec h1(1) that by (cases "i = own_rank (clh_node_id h)") auto
  qed
  then show ?thesis using spec h1 ucx_frame_trans [OF h1(2)] by auto
qed

lemma ucx_init_spec:
  assumes "ucx_init U P h = Inr (h', CLH_STATUS_SUCCESS)"
  shows "ucx_frame h h' \<and> cache_inv (h_buffer_cache h') \<and> cache_map (h_buffer_cache h') = Map.empty \<and>
     length (h_endpoints h') = unat (clh_nb_nodes h) \<and>
     (\<forall>i < unat (clh_nb_nodes h). h_endpoints h' ! i = None \<longleftrightarrow> i = own_rank (clh_node_id h))"
proof -
  from assms obtain u h2 where
    e: "init_ucp_endpoints U P (h\<lparr>h_world := u\<rparr>) = Inr (h2, CLH_STATUS_SUCCESS)" and
    h': "h' = h2\<lparr>h_buffer_cache := clh_buffer_cache_create 8\<rparr>"
    by (auto simp: ucx_init_def init_ucp_context_def init_ucp_worker_def init_cache_def res_simps
        split: prod.splits if_splits)
  let ?h1 = "h\<lparr>h_world := u\<rparr>"
  have h1: "ucx_frame h ?h1" by (simp add: ucx_frame_def clh_node_id_def clh_nb_nodes_def)
  note spec = init_ucp_endpoints_spec [OF e]
  have "ucx_frame h2 h'" by (simp add: h' ucx_frame_def clh_node_id_def clh_nb_nodes_def)
  then have "ucx_frame h h'" using ucx_frame_trans h1 spec by blast
  moreover have "clh_node_id ?h1 = clh_node_id h" "clh_nb_nodes ?h1 = clh_nb_nodes h"
    using h1 by (simp_all add: ucx_frame_def)
  ultimately show ?thesis using spec by (simp add: h' create_inv create_map)
qed

section \<open>The worker has started\<close>

definition has_endpoints :: "'u clh_handle \<Rightarrow> bool" where
  "has_endpoints h \<longleftrightarrow> length (h_endpoints h) = unat (clh_nb_nodes h) \<and>
     (\<forall>i < unat (clh_nb_nodes h). h_endpoints h ! i = None \<longleftrightarrow> i = own_rank (clh_node_id h))"

text \<open>The invariant, with nothing posted and nothing received.\<close>

definition idle :: "'u clh_handle \<Rightarrow> bool" where
  "idle h \<longleftrightarrow> handle_inv h \<and> (\<forall>ty. queued h ty = []) \<and> inflight h = []"

lemma idle_tracked: "idle h \<Longrightarrow> tracked h = {}"
  by (simp add: idle_def tracked_def)

lemma start_worker_idle:
  assumes heap: "heap_inv (h_requests h)" "\<forall>a. data_at (h_requests h) a = None"
    and count: "h_send_count h = 0" and msgs: "msgs_ok (h_messages h) (h_recv_list h) ms mf"
    and junk: "junk_ok ra" and run: "start_worker U P ra h = Inr h'"
  shows "idle h' \<and> h_run h' \<and> has_endpoints h' \<and> clh_node_id h' = clh_node_id h \<and>
     clh_nb_nodes h' = clh_nb_nodes h \<and> h_messages h' = h_messages h \<and> h_recv_list h' = h_recv_list h"
proof -
  let ?q = "start_queues ra h"
  from run obtain h1 where init: "ucx_init U P ?q = Inr (h1, CLH_STATUS_SUCCESS)" and
    h': "h' = h1\<lparr>h_run := True\<rparr>"
    by (auto simp: start_worker_def run_prologue_def res_simps)
  from start_queues_ok [OF heap junk] obtain fs where
    q: "?q = h\<lparr>h_requests := h_requests ?q, h_request_queues := h_request_queues ?q,
                  h_ops_queue := array_create 1024, h_run := False\<rparr>" and
    pool: "pool_inv UNIV (h_requests ?q) (h_request_queues ?q) (\<lambda>_. []) fs" and
    chans: "channels_ok (h_requests ?q) (h_request_queues ?q)"
    by (auto simp: Let_def)
  have same: "h_ops_queue ?q = array_create 1024" "h_messages ?q = h_messages h"
    "h_recv_list ?q = h_recv_list h" "h_send_count ?q = h_send_count h"
    "clh_node_id ?q = clh_node_id h" "clh_nb_nodes ?q = clh_nb_nodes h"
    by (subst q, simp add: clh_node_id_def clh_nb_nodes_def)+
  note ucx = ucx_init_spec [OF init]
  have frame: "ucx_frame ?q h1" and cache: "cache_inv (h_buffer_cache h1)" using ucx by simp_all
  have ops: "h_ops_queue h' = array_create 1024" using frame same by (simp add: h' ucx_frame_def)
  have arr: "array_inv (h_ops_queue h')" "array_list (h_ops_queue h') = []"
    unfolding ops by (simp_all add: array_create_inv)
  have reqs: "reqs_ok h' {} (\<lambda>_. []) fs"
    using pool chans arr frame same count
    by (simp add: reqs_ok_def h' ucx_frame_def queue_ok_def ops_ok_def sends_of_def)
  have "handle_rep h' (\<lambda>_. []) fs ms mf"
    using reqs msgs cache frame same by (simp add: handle_rep_def h' ucx_frame_def)
  then have "handle_inv h'" by (auto simp: handle_inv_def)
  moreover have "queued h' = (\<lambda>_. [])" using reqs_ok_queued [OF reqs] by simp
  moreover have "has_endpoints h'"
    using ucx frame same by (simp add: has_endpoints_def h' ucx_frame_def clh_node_id_def clh_nb_nodes_def)
  ultimately show ?thesis
    using arr frame same
    by (simp add: idle_def inflight_def h' ucx_frame_def clh_node_id_def clh_nb_nodes_def)
qed

end
