(* ===== verification/Clh_Warmup.thy ===== *)
theory Clh_Warmup
  imports Clh_Init_Props
begin

text \<open>
  Waiting for a request while the worker runs, and the warm-up of \<open>clh_init\<close>: its indices stay
  within the arrays, every request it posts is completed before it is released, and it leaves
  the handle as idle as it found it.
\<close>

section \<open>Computations that wait\<close>

text \<open>
  \<open>settles b m P\<close>: the computation returns a value satisfying \<open>P\<close>; when \<open>b\<close> allows it, it may
  also go on for ever or abort in an \<open>assert\<close>. No other fault is possible.
\<close>

definition settles :: "bool \<Rightarrow> 'a res \<Rightarrow> ('a \<Rightarrow> bool) \<Rightarrow> bool" where
  "settles b m P \<longleftrightarrow>
     (case m of Inl e \<Rightarrow> b \<and> (e = Diverges \<or> e = Assert_Failed) | Inr x \<Rightarrow> P x)"

lemma settles_Inr [simp]: "settles b (Inr x) P \<longleftrightarrow> P x"
  by (simp add: settles_def)

lemma settles_Inl [simp]: "settles b (Inl e) P \<longleftrightarrow> b \<and> (e = Diverges \<or> e = Assert_Failed)"
  by (simp add: settles_def)

lemma settles_bind:
  "settles b m Q \<Longrightarrow> (\<And>x. Q x \<Longrightarrow> settles b (f x) P) \<Longrightarrow> settles b (ebind m f) P"
  by (cases m) auto

lemma settles_mono: "settles b m Q \<Longrightarrow> (\<And>x. Q x \<Longrightarrow> P x) \<Longrightarrow> settles b m P"
  by (cases m) auto

lemma outcome_settles: "outcome b m P \<Longrightarrow> settles b m P"
  by (cases m) auto

section \<open>Waiting\<close>

text \<open>The sends still to be posted or completed, which bound the iterations of the worker.\<close>

definition load :: "'u clh_handle \<Rightarrow> nat" where
  "load h = length (queued h CLH_REQUEST_TYPE_SEND) + sends_of (h_requests h) (inflight h)"

lemma iterated_load:
  assumes "iterated U h h'" and "finishes U"
  shows "load h' \<le> load h - CONF_SEND_THRESH"
  using iterated_queues(2) [OF assms(1)] iterated_finishes [OF assms] by (simp add: load_def)

text \<open>A request the library has to complete or has completed, and that was not released.\<close>

definition pending :: "'u clh_handle \<Rightarrow> nat \<Rightarrow> bool" where
  "pending h r \<longleftrightarrow> r \<in> tracked h \<or> (completed_in h r \<and> (\<forall>ty. r \<notin> set (released h ty)))"

lemma iterated_pending:
  assumes it: "iterated U h h'" and inv: "handle_inv h" and "pending h r"
  shows "pending h' r"
proof -
  have "r \<in> tracked h' \<or> completed_in h' r"
    using iterated_completes [OF it inv] assms(3) by (auto simp: pending_def)
  moreover have "r \<notin> set (released h' ty)" if "r \<in> tracked h" for ty
    using handed_out_fresh(1) [OF inv, of r ty] that iterated_inv(3) [OF it] by auto
  ultimately show ?thesis
    using assms(3) iterated_inv(3) [OF it] by (auto simp: pending_def)
qed

text \<open>What a stretch of the worker keeps, beside completing requests.\<close>

definition served :: "'u ucp \<Rightarrow> 'u clh_handle \<Rightarrow> 'u clh_handle \<Rightarrow> bool" where
  "served U h h' \<longleftrightarrow> handle_inv h' \<and> same_setup h h' \<and> released h' = released h \<and>
     tracked h' \<subseteq> tracked h \<and> (\<forall>r. pending h r \<longrightarrow> pending h' r) \<and>
     (finishes U \<longrightarrow> load h' \<le> load h)"

lemma served_refl: "handle_inv h \<Longrightarrow> served U h h"
  by (simp add: served_def)

lemma served_trans: "served U h h1 \<Longrightarrow> served U h1 h2 \<Longrightarrow> served U h h2"
  unfolding served_def using same_setup_trans by fastforce

lemma iterated_served: "iterated U h h' \<Longrightarrow> handle_inv h \<Longrightarrow> served U h h'"
  unfolding served_def
  using iterated_inv [of U h h'] iterated_tracked_sub [of U h h'] iterated_pending [of U h h']
    iterated_load [of U h h'] by (auto dest: le_trans)

lemma pending_request: "handle_inv h \<Longrightarrow> pending h r \<Longrightarrow> \<exists>q. req_at h r = Some q"
  using handle_inv_reqs [of h] op_in_flight [of h "{}" "queued h" "released h"]
  by (fastforce simp: pending_def completed_in_def opt_all_iff tracked_def reqs_ok_def queue_ok_def req_at_def)

lemma completed_value:
  "req_at h r = Some q \<Longrightarrow> clh_request_completed h r = Inr (req_completed q)"
  by (simp add: clh_request_completed_def)

lemma wait_served_settles:
  assumes "handle_inv h" and "posts_requests U" "fills_infos U" and "pending h r"
    and "b \<or> (ucp_reliable U \<and> finishes U \<and> load h \<le> k * CONF_SEND_THRESH \<and> Suc k \<le> fuel)"
  shows "settles b (clh_wait_served fuel U h r) (\<lambda>h'. served U h h' \<and> completed_in h' r)"
  using assms
proof (induction fuel arbitrary: h k)
  case 0
  from pending_request [OF 0(1,4)] obtain q where "req_at h r = Some q" by blast
  then show ?case
    using 0 served_refl by (subst clh_wait_served.simps)
      (auto simp: completed_value completed_in_def opt_all_iff)
next
  case (Suc fuel)
  from pending_request [OF Suc.prems(1,4)] obtain q where q: "req_at h r = Some q" by blast
  show ?case
  proof (cases "req_completed q")
    case True
    then show ?thesis
      using q Suc.prems served_refl by (subst clh_wait_served.simps)
        (auto simp: completed_value completed_in_def opt_all_iff)
  next
    case False
    have body: "settles b (run_body U h) (iterated U h)"
      using Suc.prems(1,2,3,5) by (intro outcome_settles run_body_outcome) auto
    have rest: "settles b (clh_wait_served fuel U h1 r) (\<lambda>h'. served U h h' \<and> completed_in h' r)"
      if it: "iterated U h h1" for h1
    proof -
      note sv = iterated_served [OF it Suc.prems(1)]
      have inv1: "handle_inv h1" and pend1: "pending h1 r"
        using sv Suc.prems(4) by (auto simp: served_def)
      have r: "r \<in> tracked h"
        using Suc.prems(4) q False by (auto simp: pending_def completed_in_def opt_all_iff)
      show ?thesis
      proof (cases "\<not> b \<and> k = 0")
        case True
        then have fin: "finishes U" and "load h = 0" using Suc.prems(5) by auto
        have "tracked h1 = {}"
          using iterated_queues [OF it] iterated_finishes [OF it fin] \<open>load h = 0\<close>
          by (simp add: tracked_def load_def)
        then have "completed_in h1 r" using iterated_tracked [OF it r] by simp
        then show ?thesis
          using sv by (subst clh_wait_served.simps)
            (auto simp: completed_value completed_in_def opt_all_iff)
      next
        case False
        have "b \<or> (ucp_reliable U \<and> finishes U \<and> load h1 \<le> (k - 1) * CONF_SEND_THRESH \<and> Suc (k - 1) \<le> fuel)"
          using Suc.prems(5) False iterated_load [OF it] by (cases k) auto
        from Suc.IH [OF inv1 Suc.prems(2,3) pend1 this] show ?thesis
          by (rule settles_mono) (use sv served_trans in blast)
      qed
    qed
    show ?thesis
      using q False settles_bind [OF body rest]
      by (subst clh_wait_served.simps) (simp add: completed_value)
  qed
qed

section \<open>Posting\<close>

lemma send_setup: "clh_send h channel dest tag buffer = Inr (h', n) \<Longrightarrow> same_setup h h'"
  by (auto simp: clh_send_def Let_def res_simps upd_request_def set_queue_def same_setup_def)

lemma recv_post_setup: "clh_recv_post h tag tag_mask buffer = Inr (h', n) \<Longrightarrow> same_setup h h'"
  by (auto simp: clh_recv_post_def Let_def res_simps upd_request_def set_queue_def same_setup_def)

text \<open>A request posted besides those there are.\<close>

definition posted_new :: "'u clh_handle \<Rightarrow> nat \<Rightarrow> nat \<Rightarrow> 'u clh_handle \<Rightarrow> bool" where
  "posted_new h n k h' \<longleftrightarrow> handle_inv h' \<and> same_setup h h' \<and> n \<notin> tracked h \<and>
     tracked h' = insert n (tracked h) \<and> load h' = load h + k"

lemma enqueued_load:
  assumes inv: "handle_inv h" and en: "enqueued h ty n q h'"
  shows "load h' = load h + (if ty = CLH_REQUEST_TYPE_SEND then 1 else 0)"
proof -
  have n: "n \<notin> tracked h" using handed_out_fresh(1) [OF inv] en by (auto simp: enqueued_def)
  have "data_at (h_requests h') (op_request op) = data_at (h_requests h) (op_request op)"
    if "op \<in> set (inflight h)" for op
    using en n that by (auto simp: enqueued_def tracked_def req_at_def fun_eq_iff)
  then have "sends_of (h_requests h') (inflight h) = sends_of (h_requests h) (inflight h)"
    by (rule sends_of_cong)
  then show ?thesis using en by (simp add: load_def enqueued_def)
qed

lemma enqueued_posted:
  assumes inv: "handle_inv h" and en: "enqueued h ty n q h'" and stp: "same_setup h h'"
    and ty: "ty = CLH_REQUEST_TYPE_SEND \<or> ty = CLH_REQUEST_TYPE_RECV"
  shows "posted_new h n (if ty = CLH_REQUEST_TYPE_SEND then 1 else 0) h'"
proof -
  have "n \<notin> tracked h" using handed_out_fresh(1) [OF inv] en by (auto simp: enqueued_def)
  moreover have "tracked h' = insert n (tracked h)"
    using en ty by (auto simp: enqueued_def tracked_def)
  ultimately show ?thesis
    using enqueued_load [OF inv en] en stp by (simp add: posted_new_def enqueued_def)
qed

lemma send_posted:
  assumes inv: "handle_inv h" and "channel_ok channel" "unat dest < length (h_endpoints h)"
    "h_endpoints h ! unat dest \<noteq> None"
  shows "\<exists>h' n. clh_send h channel dest tag buffer = Inr (h', n) \<and> posted_new h n 1 h'"
proof -
  from send_spec [OF assms, of tag buffer] obtain h' n where
    run: "clh_send h channel dest tag buffer = Inr (h', n)" and
    en: "enqueued h CLH_REQUEST_TYPE_SEND n (send_request h channel dest tag buffer) h'" by blast
  show ?thesis using run enqueued_posted [OF inv en send_setup [OF run]] by auto
qed

lemma recv_from_posted:
  assumes inv: "handle_inv h"
  shows "\<exists>h' n. clh_recv_from h channel source tag tag_mask buffer = Inr (h', n) \<and> posted_new h n 0 h'"
proof -
  from recv_from_spec [OF inv, of channel source tag tag_mask buffer] obtain h' n q where
    run: "clh_recv_from h channel source tag tag_mask buffer = Inr (h', n)" and
    en: "enqueued h CLH_REQUEST_TYPE_RECV n (recv_request (clh_encode_tag channel source tag)
          (CHANNEL_MASK OR SENDER_ID_MASK OR ucast tag_mask) buffer q) h'" by blast
  have "same_setup h h'" using run by (auto simp: clh_recv_from_def Let_def dest: recv_post_setup)
  from enqueued_posted [OF inv en this] run show ?thesis by auto
qed

section \<open>The warm-up\<close>

definition warm_idx :: "nat \<Rightarrow> nat \<times> nat \<Rightarrow> nat" where
  "warm_idx nb p = fst p * nb + snd p"

text \<open>The pairs are in range and no two share an entry of the arrays.\<close>

definition warm_ok :: "'u clh_handle \<Rightarrow> nat \<Rightarrow> nat \<Rightarrow> (nat \<times> nat) list \<Rightarrow> bool" where
  "warm_ok h nb len ps \<longleftrightarrow> distinct (map (warm_idx nb) ps) \<and>
     (\<forall>p \<in> set ps. warm_idx nb p < len \<and> snd p < 2 ^ 32 \<and> snd p < length (h_endpoints h) \<and>
        h_endpoints h ! snd p \<noteq> None)"

lemma warmup_index_ok:
  assumes h: "has_endpoints h" and nb: "nb = unat (clh_nb_nodes h)"
  shows "warm_ok h nb (CONF_WARMUP_LOOP_COUNT * nb) (warmup_index (scast (clh_node_id h)) nb)"
proof -
  let ?ps = "warmup_index (scast (clh_node_id h)) nb"
  have mem: "fst p < CONF_WARMUP_LOOP_COUNT \<and> snd p < nb \<and> snd p \<noteq> own_rank (clh_node_id h)"
    if "p \<in> set ?ps" for p
    using that by (auto simp: warmup_index_def own_rank_def)
  have "fst p * nb + snd p < CONF_WARMUP_LOOP_COUNT * nb" if "p \<in> set ?ps" for p
  proof -
    have "fst p * nb + snd p < Suc (fst p) * nb" using mem [OF that] by simp
    also have "\<dots> \<le> CONF_WARMUP_LOOP_COUNT * nb" using mem [OF that] by (intro mult_le_mono1) simp
    finally show ?thesis .
  qed
  moreover have "inj_on (warm_idx nb) (set ?ps)"
  proof (rule inj_onI)
    fix p p' assume p: "p \<in> set ?ps" "p' \<in> set ?ps" and eq: "warm_idx nb p = warm_idx nb p'"
    have "(fst p * nb + snd p) div nb = fst p" "(fst p * nb + snd p) mod nb = snd p"
      if "p \<in> set ?ps" for p
      using mem [OF that] by simp_all
    then show "p = p'" using p eq by (metis warm_idx_def prod_eqI)
  qed
  moreover have "distinct ?ps" by (simp add: warmup_index_def distinct_product)
  moreover have "snd p < 2 ^ 32" if "p \<in> set ?ps" for p
    using mem [OF that] nb unsigned_less [of "clh_nb_nodes h", where 'a = nat] by simp
  ultimately show ?thesis
    using h mem nb unfolding warm_ok_def
    by (auto simp: distinct_map warm_idx_def has_endpoints_def)
qed

lemma warmup_post_spec:
  assumes "handle_inv h" and "warm_ok h nb len ps" and "length S = len" and "length R = len"
  shows "\<exists>h' S' R' ss rs. warmup_post sm rm nb ps h S R = Inr (h', S', R') \<and>
     handle_inv h' \<and> same_setup h h' \<and> length S' = len \<and> length R' = len \<and>
     map (\<lambda>p. S' ! warm_idx nb p) ps = map Some ss \<and>
     map (\<lambda>p. R' ! warm_idx nb p) ps = map Some rs \<and>
     (\<forall>j. j \<notin> warm_idx nb ` set ps \<longrightarrow> S' ! j = S ! j \<and> R' ! j = R ! j) \<and>
     distinct (ss @ rs) \<and> set (ss @ rs) \<inter> tracked h = {} \<and>
     tracked h' = tracked h \<union> set ss \<union> set rs \<and> load h' = load h + length ps"
  using assms
proof (induction ps arbitrary: h S R)
  case Nil
  then show ?case by auto
next
  case (Cons p ps)
  obtain i rank where p: "p = (i, rank)" by (rule prod.exhaust)
  let ?idx = "i * nb + rank"
  let ?sb = "\<lparr>buf_mem = sm, buf_len = of_nat WARMUP_MSG_SIZE\<rparr>"
  let ?rb = "\<lparr>buf_mem = rm + of_nat (?idx * WARMUP_MSG_SIZE), buf_len = of_nat WARMUP_MSG_SIZE\<rparr>"
  have rank: "?idx < len" "rank < length (h_endpoints h)" "h_endpoints h ! rank \<noteq> None"
    "unat (of_nat rank :: clh_u32) = rank" "?idx \<notin> warm_idx nb ` set ps"
    using Cons.prems(2) p by (auto simp: warm_ok_def warm_idx_def unsigned_of_nat take_bit_nat_eq_self)
  have "channel_ok 0" by (simp add: channel_ok_def)
  from send_posted [OF Cons.prems(1) this, of "of_nat rank" 0 ?sb] rank obtain h1 s where
    send: "clh_send h 0 (of_nat rank) 0 ?sb = Inr (h1, s)" and s: "posted_new h s 1 h1" by auto
  have inv1: "handle_inv h1" using s by (simp add: posted_new_def)
  from recv_from_posted [OF inv1, of 0 "of_nat rank" 0 "0xFFFFFFFF" ?rb] obtain h2 r where
    recv: "clh_recv_from h1 0 (of_nat rank) 0 0xFFFFFFFF ?rb = Inr (h2, r)" and
    r: "posted_new h1 r 0 h2" by blast
  have inv2: "handle_inv h2" and same2: "same_setup h h2"
    using s r same_setup_trans by (auto simp: posted_new_def)
  have ok2: "warm_ok h2 nb len ps" using Cons.prems(2) same2 by (simp add: warm_ok_def same_setup_def)
  let ?S = "S[?idx := Some s]" and ?R = "R[?idx := Some r]"
  have step: "warmup_post sm rm nb (p # ps) h S R = warmup_post sm rm nb ps h2 ?S ?R"
    using send recv rank Cons.prems(3,4) p by (simp add: Let_def)
  from Cons.IH [OF inv2 ok2, of ?S ?R] Cons.prems(3,4) obtain h' S' R' ss rs where
    rest: "warmup_post sm rm nb ps h2 ?S ?R = Inr (h', S', R')" and
    ih: "handle_inv h'" "same_setup h2 h'" "length S' = len" "length R' = len"
      "map (\<lambda>p. S' ! warm_idx nb p) ps = map Some ss" "map (\<lambda>p. R' ! warm_idx nb p) ps = map Some rs"
      "\<forall>j. j \<notin> warm_idx nb ` set ps \<longrightarrow> S' ! j = ?S ! j \<and> R' ! j = ?R ! j"
      "distinct (ss @ rs)" "set (ss @ rs) \<inter> tracked h2 = {}"
      "tracked h' = tracked h2 \<union> set ss \<union> set rs" "load h' = load h2 + length ps"
    by auto
  have here: "S' ! ?idx = Some s" "R' ! ?idx = Some r" using ih(7) rank Cons.prems(3,4) by simp_all
  have keep: "\<forall>j. j \<notin> warm_idx nb ` set (p # ps) \<longrightarrow> S' ! j = S ! j \<and> R' ! j = R ! j"
    using ih(7) p by (simp add: warm_idx_def)
  have tr: "tracked h2 = insert r (insert s (tracked h))" "s \<notin> tracked h" "r \<notin> insert s (tracked h)"
    "load h2 = load h + 1"
    using s r by (simp_all add: posted_new_def)
  have idx: "warm_idx nb p = ?idx" using p by (simp add: warm_idx_def)
  have "same_setup h h'" by (rule same_setup_trans [OF same2 ih(2)])
  moreover have "map (\<lambda>p. S' ! warm_idx nb p) (p # ps) = map Some (s # ss)"
    "map (\<lambda>p. R' ! warm_idx nb p) (p # ps) = map Some (r # rs)"
    using here ih(5,6) by (simp_all add: idx)
  moreover have new: "set (ss @ rs) \<inter> insert r (insert s (tracked h)) = {}" using ih(9) tr(1) by simp
  then have "distinct ((s # ss) @ r # rs)" "set ((s # ss) @ r # rs) \<inter> tracked h = {}"
    using ih(8) tr(2,3) by auto
  moreover have "tracked h' = tracked h \<union> set (s # ss) \<union> set (r # rs)" unfolding ih(10) tr(1) by auto
  moreover have "load h' = load h + length (p # ps)" using ih(11) tr(4) by simp
  moreover have "warmup_post sm rm nb (p # ps) h S R = Inr (h', S', R')" using step rest by simp
  ultimately show ?case using ih(1,3,4) keep by blast
qed

text \<open>Releasing a request that is completed.\<close>

definition freed :: "'u clh_handle \<Rightarrow> nat \<Rightarrow> 'u clh_handle \<Rightarrow> bool" where
  "freed h r h' \<longleftrightarrow> handle_inv h' \<and> same_setup h h' \<and> tracked h' = tracked h \<and> load h' = load h \<and>
     (\<forall>x. x \<noteq> r \<longrightarrow> pending h x \<longrightarrow> pending h' x) \<and> (\<exists>ty. r \<in> set (released h' ty)) \<and>
     (\<forall>ty. set (released h ty) \<subseteq> set (released h' ty))"

lemma release_setup: "clh_request_release h r = Inr h' \<Longrightarrow> same_setup h h'"
  by (auto simp: clh_request_release_def res_simps set_queue_def same_setup_def)

lemma release_freed:
  assumes inv: "handle_inv h" and "pending h r" "completed_in h r"
  shows "\<exists>h'. clh_request_release h r = Inr h' \<and> freed h r h'"
proof -
  have not_free: "\<forall>ty. r \<notin> set (released h ty)"
    using assms completed_not_tracked [OF inv] by (auto simp: pending_def)
  then have "user_holds h r"
    using completed_held [OF inv] assms(3) by (auto simp: completed_in_def opt_all_iff)
  from release_request [OF inv this] obtain h' and q :: clh_request where
    run: "clh_request_release h r = Inr h'" and inv': "handle_inv h'" and
    rel: "released h' = (released h)(req_type q := r # released h (req_type q))" and
    same: "queued h' = queued h" "inflight h' = inflight h" "req_at h' = req_at h"
    by blast
  have data: "data_at (h_requests h') = data_at (h_requests h)"
    using same(3) by (simp add: req_at_def fun_eq_iff)
  have sends: "sends_of (h_requests h') (inflight h) = sends_of (h_requests h) (inflight h)"
    by (rule sends_of_cong) (simp add: data)
  have load: "load h' = load h" using same sends by (simp add: load_def)
  have tr: "tracked h' = tracked h" using same by (simp add: tracked_def)
  have "pending h' x" if "x \<noteq> r" "pending h x" for x
    using that same(3) tr rel by (auto simp: pending_def completed_in_def)
  moreover have "r \<in> set (released h' (req_type q))" using rel by simp
  moreover have "set (released h ty) \<subseteq> set (released h' ty)" for ty using rel by auto
  ultimately show ?thesis
    using run inv' load tr release_setup [OF run] unfolding freed_def by blast
qed

text \<open>What the loop over the requests of one array achieves.\<close>

definition collected :: "'u ucp \<Rightarrow> 'u clh_handle \<Rightarrow> nat list \<Rightarrow> 'u clh_handle \<Rightarrow> bool" where
  "collected U h rs h' \<longleftrightarrow> handle_inv h' \<and> same_setup h h' \<and> tracked h' \<subseteq> tracked h - set rs \<and>
     (\<forall>r. r \<notin> set rs \<longrightarrow> pending h r \<longrightarrow> pending h' r) \<and> (finishes U \<longrightarrow> load h' \<le> load h) \<and>
     (\<forall>r \<in> set rs. \<exists>ty. r \<in> set (released h' ty)) \<and>
     (\<forall>ty. set (released h ty) \<subseteq> set (released h' ty))"

lemma collected_Cons:
  assumes sv: "served U h h1" "completed_in h1 r" and fr: "freed h1 r h2" and rest: "collected U h2 rs h'"
    and r: "r \<notin> set rs"
  shows "collected U h (r # rs) h'"
proof -
  have inv1: "handle_inv h1" using sv by (simp add: served_def)
  have "r \<notin> tracked h1" by (rule completed_not_tracked [OF inv1 sv(2)])
  then have "tracked h' \<subseteq> tracked h - set (r # rs)"
    using sv fr rest by (auto simp: served_def freed_def collected_def)
  moreover have "same_setup h h'"
    using sv fr rest by (simp add: served_def freed_def collected_def same_setup_def)
  moreover have "pending h' x" if "x \<notin> set (r # rs)" "pending h x" for x
    using that sv fr rest by (auto simp: served_def freed_def collected_def)
  moreover have "finishes U \<longrightarrow> load h' \<le> load h"
    using sv fr rest by (auto simp: served_def freed_def collected_def)
  moreover have "\<forall>x \<in> set (r # rs). \<exists>ty. x \<in> set (released h' ty)"
    using fr rest by (fastforce simp: freed_def collected_def)
  moreover have "set (released h ty) \<subseteq> set (released h' ty)" for ty
  proof -
    have "set (released h ty) \<subseteq> set (released h2 ty)" using sv fr by (simp add: served_def freed_def)
    also have "\<dots> \<subseteq> set (released h' ty)" using rest by (simp add: collected_def)
    finally show ?thesis .
  qed
  ultimately show ?thesis using rest by (simp add: collected_def)
qed

lemma warmup_wait_spec:
  assumes "handle_inv h" and "posts_requests U" "fills_infos U"
    and "\<forall>r \<in> set rs. pending h r" and "distinct rs"
    and "map (\<lambda>p. Q ! warm_idx nb p) ps = map Some rs" and "\<forall>p \<in> set ps. warm_idx nb p < length Q"
    and "b \<or> (ucp_reliable U \<and> finishes U \<and> load h \<le> k * CONF_SEND_THRESH \<and> Suc k \<le> fuel \<and>
          (\<forall>u i r. check u i r))"
  shows "settles b (warmup_wait fuel U nb check ps Q h) (collected U h rs)"
  using assms
proof (induction ps arbitrary: h rs)
  case Nil
  then show ?case by (simp add: collected_def)
next
  case (Cons p ps)
  obtain i rank where p: "p = (i, rank)" by (rule prod.exhaust)
  from Cons.prems(6) obtain r rs' where rs: "rs = r # rs'" and r: "Q ! warm_idx nb p = Some r"
    and rest: "map (\<lambda>p. Q ! warm_idx nb p) ps = map Some rs'"
    by (cases rs) auto
  have idx: "warm_idx nb p = i * nb + rank" "i * nb + rank < length Q"
    using Cons.prems(7) p by (auto simp: warm_idx_def)
  have bound: "b \<or> (ucp_reliable U \<and> finishes U \<and> load h \<le> k * CONF_SEND_THRESH \<and> Suc k \<le> fuel)"
    using Cons.prems(8) by blast
  have pend: "pending h r" using Cons.prems(4) rs by simp
  have step: "settles b (ebind (clh_request_release h1 r) (\<lambda>h2.
        ebind (c_assert (check (h_world h2) (i * nb + rank) rank)) (\<lambda>_.
          warmup_wait fuel U nb check ps Q h2))) (collected U h rs)"
    if sv: "served U h h1 \<and> completed_in h1 r" for h1
  proof -
    have inv1: "handle_inv h1" and pend1: "pending h1 r" using sv pend by (auto simp: served_def)
    from release_freed [OF inv1 pend1] sv obtain h2 where
      run: "clh_request_release h1 r = Inr h2" and fr: "freed h1 r h2" by blast
    have inv2: "handle_inv h2" using fr by (simp add: freed_def)
    have pends: "\<forall>x \<in> set rs'. pending h2 x"
      using Cons.prems(4,5) rs sv fr by (auto simp: served_def freed_def)
    have b2: "b \<or> (ucp_reliable U \<and> finishes U \<and> load h2 \<le> k * CONF_SEND_THRESH \<and> Suc k \<le> fuel \<and>
        (\<forall>u i r. check u i r))"
      using Cons.prems(8) sv fr by (auto simp: served_def freed_def)
    have "settles b (warmup_wait fuel U nb check ps Q h2) (collected U h2 rs')"
      using Cons.prems(5,7) rs by (intro Cons.IH inv2 Cons.prems(2,3) pends rest b2) auto
    then have "settles b (warmup_wait fuel U nb check ps Q h2) (collected U h rs)"
      by (rule settles_mono) (use sv fr Cons.prems(5) rs collected_Cons in auto)
    then show ?thesis
      using run Cons.prems(8) by (cases "check (h_world h2) (i * nb + rank) rank") auto
  qed
  have "warmup_wait fuel U nb check (p # ps) Q h =
      ebind (clh_wait_served fuel U h r) (\<lambda>h1. ebind (clh_request_release h1 r) (\<lambda>h2.
        ebind (c_assert (check (h_world h2) (i * nb + rank) rank)) (\<lambda>_.
          warmup_wait fuel U nb check ps Q h2)))"
    using idx r p by (simp add: Let_def)
  then show ?case
    using settles_bind [OF wait_served_settles [OF Cons.prems(1-3) pend bound] step] by simp
qed

lemma idle_if: "handle_inv h \<Longrightarrow> tracked h = {} \<Longrightarrow> idle h"
proof -
  assume inv: "handle_inv h" and tr: "tracked h = {}"
  have "queued h CLH_REQUEST_TYPE_PROBE = []"
    using handle_inv_reqs [OF inv] by (simp add: reqs_ok_def queue_ok_def)
  then have "queued h ty = []" for ty using tr by (cases ty) (auto simp: tracked_def)
  then show "idle h" using inv tr by (simp add: idle_def tracked_def)
qed

text \<open>
  \<open>k\<close> rounds of the worker are enough for every send of the warm-up.
\<close>

lemma warmup_settles:
  assumes idle: "idle h" and eps: "has_endpoints h" and U: "posts_requests U" "fills_infos U"
    and b: "b \<or> (ucp_reliable U \<and> finishes U \<and> (\<forall>u i r. text_ok u i r) \<and> Suc k \<le> fuel \<and>
      CONF_WARMUP_LOOP_COUNT * unat (clh_nb_nodes h) \<le> k * CONF_SEND_THRESH)"
  shows "settles b (clh_warmup fuel U text_ok send_mem recv_mem h)
           (\<lambda>(h', status). status = CLH_STATUS_SUCCESS \<and> idle h' \<and> same_setup h h')"
proof -
  let ?nb = "unat (clh_nb_nodes h)"
  let ?ps = "warmup_index (scast (clh_node_id h)) ?nb"
  let ?Q = "replicate (CONF_WARMUP_LOOP_COUNT * ?nb) None :: nat option list"
  have inv: "handle_inv h" and none: "tracked h = {}" "load h = 0"
    using idle idle_tracked [OF idle] by (auto simp: idle_def load_def)
  note warm = warmup_index_ok [OF eps refl]
  from warmup_post_spec [OF inv warm, where S = ?Q and R = ?Q, OF length_replicate length_replicate,
      of send_mem recv_mem] obtain h1 S R ss rs where
    post: "warmup_post send_mem recv_mem ?nb ?ps h ?Q ?Q = Inr (h1, S, R)" and
    inv1: "handle_inv h1" and same1: "same_setup h h1" and
    len: "length S = CONF_WARMUP_LOOP_COUNT * ?nb" "length R = CONF_WARMUP_LOOP_COUNT * ?nb" and
    ss: "map (\<lambda>p. S ! warm_idx ?nb p) ?ps = map Some ss" and
    rs: "map (\<lambda>p. R ! warm_idx ?nb p) ?ps = map Some rs" and
    dist: "distinct (ss @ rs)" and tr: "tracked h1 = tracked h \<union> set ss \<union> set rs" and
    load: "load h1 = load h + length ?ps"
    by blast
  have idx: "\<forall>p \<in> set ?ps. warm_idx ?nb p < length S" "\<forall>p \<in> set ?ps. warm_idx ?nb p < length R"
    using warm len by (simp_all add: warm_ok_def)
  have "length ?ps \<le> CONF_WARMUP_LOOP_COUNT * ?nb"
    unfolding warmup_index_def by (rule le_trans [OF length_filter_le]) simp
  then have bound: "b \<or> (ucp_reliable U \<and> finishes U \<and> load h1 \<le> k * CONF_SEND_THRESH \<and> Suc k \<le> fuel \<and>
      (\<forall>u i r. text_ok u i r))"
    using b load none by auto
  then have bound': "b \<or> (ucp_reliable U \<and> finishes U \<and> load h1 \<le> k * CONF_SEND_THRESH \<and> Suc k \<le> fuel \<and>
      (\<forall>(u::'a) (i::nat) (r::nat). True))"
    by auto
  have pend: "\<forall>r \<in> set ss. pending h1 r" "\<forall>r \<in> set rs. pending h1 r"
    using tr by (auto simp: pending_def)
  have ds: "distinct ss" "distinct rs" using dist by simp_all
  have last: "settles b (warmup_wait fuel U ?nb text_ok ?ps R h2)
      (\<lambda>h3. idle h3 \<and> same_setup h h3)" if c: "collected U h1 ss h2" for h2
  proof -
    have inv2: "handle_inv h2" and pend2: "\<forall>r \<in> set rs. pending h2 r"
      using c pend dist by (auto simp: collected_def)
    have bound2: "b \<or> (ucp_reliable U \<and> finishes U \<and> load h2 \<le> k * CONF_SEND_THRESH \<and> Suc k \<le> fuel \<and>
        (\<forall>u i r. text_ok u i r))"
      using bound c by (auto simp: collected_def)
    show ?thesis
    proof (rule settles_mono [OF warmup_wait_spec [OF inv2 U pend2 ds(2) rs idx(2) bound2]])
      fix h3 assume c3: "collected U h2 rs h3"
      have "tracked h3 = {}" using c c3 tr none by (auto simp: collected_def)
      then have "idle h3" using c3 by (intro idle_if) (simp_all add: collected_def)
      moreover have "same_setup h h3"
        using same1 c c3 by (simp add: collected_def same_setup_def)
      ultimately show "idle h3 \<and> same_setup h h3" by simp
    qed
  qed
  have "settles b (ebind (warmup_wait fuel U ?nb (\<lambda>_ _ _. True) ?ps S h1) (\<lambda>h.
        ebind (warmup_wait fuel U ?nb text_ok ?ps R h) (\<lambda>h. Inr (h, CLH_STATUS_SUCCESS))))
      (\<lambda>(h', status). status = CLH_STATUS_SUCCESS \<and> idle h' \<and> same_setup h h')"
    by (rule settles_bind [OF warmup_wait_spec [OF inv1 U pend(1) ds(1) ss idx(1) bound']],
        rule settles_bind [OF last]) auto
  then show ?thesis using post by (simp add: clh_warmup_def Let_def)
qed

end
