(* ===== verification/Clh_Start.thy ===== *)
theory Clh_Start
  imports Clh_Warmup
begin

text \<open>
  What the initialisation needs of PMIx and UCX to succeed, and that it then does: \<open>clh_init\<close>
  returns with the worker running, an endpoint for every other rank and nothing left over.
\<close>

section \<open>What the libraries promise\<close>

text \<open>
  PMIx answers: the job has \<open>nb\<close> processes, this one has rank \<open>me\<close>, and what is published under
  a rank's key is an object of bytes that fits the buffer it is copied to.
\<close>

definition pmix_answers :: "'u pmix \<Rightarrow> clh_u32 \<Rightarrow> clh_u32 \<Rightarrow> bool" where
  "pmix_answers P me nb \<longleftrightarrow>
     (\<forall>u. \<exists>ns u'. PMIx_Init P u = (PMIX_SUCCESS, \<lparr>proc_nspace = ns, proc_rank = me\<rparr>, u')) \<and>
     (\<forall>u p. \<exists>u'. PMIx_Get P u p (PMIX_JOB_SIZE P) = (PMIX_SUCCESS, Pmix_Uint32 nb, u')) \<and>
     (\<forall>u p r. \<exists>bs u'. PMIx_Get P u p (clh_pmi_make_key r) = (PMIX_SUCCESS, Pmix_Byte_Object bs, u') \<and>
        length bs \<le> PEER_ADDR_SIZE) \<and>
     (\<forall>u k v. fst (PMIx_Put P u k v) = PMIX_SUCCESS)"

text \<open>UCX starts: every call of the set-up succeeds and the worker address fits the PMI value.\<close>

definition ucx_starts :: "'u ucp \<Rightarrow> bool" where
  "ucx_starts U \<longleftrightarrow>
     (\<forall>u. fst (ucp_config_read U u) = UCS_OK) \<and> (\<forall>u c n. fst (ucp_init U u c n) = UCS_OK) \<and>
     (\<forall>u. fst (ucp_worker_create U u) = UCS_OK) \<and>
     (\<forall>u. \<exists>a u'. ucp_worker_get_address U u = (UCS_OK, a, u') \<and> length a < PMI_VALUE_SIZE) \<and>
     (\<forall>u a. fst (ucp_ep_create U u a) = UCS_OK)"

section \<open>The set-up succeeds\<close>

lemma pmi_get_answers:
  assumes "pmix_answers P me nb" and len: "length v = PEER_ADDR_SIZE"
  shows "\<exists>pmi' u' v' n. clh_pmi_get P pmi u r (clh_pmi_make_key r) v =
           Inr (pmi', u', v', n, CLH_PMI_STATUS_SUCCESS) \<and> length v' = PEER_ADDR_SIZE"
proof -
  let ?p = "\<lparr>proc_nspace = proc_nspace (pmi_proc pmi), proc_rank = r\<rparr>"
  from assms(1) obtain bs u' where
    "PMIx_Get P u ?p (clh_pmi_make_key r) = (PMIX_SUCCESS, Pmix_Byte_Object bs, u')" and
    "length bs \<le> PEER_ADDR_SIZE"
    unfolding pmix_answers_def by metis
  then show ?thesis using len by (simp add: clh_pmi_get_def Let_def check_pmi_def)
qed

lemma init_endpoints_loop_answers:
  assumes "pmix_answers P me nb" and "ucx_starts U" and "\<forall>n \<in> set ns. n < length (h_endpoints h)"
  shows "\<exists>h'. init_endpoints_loop U P own ns h = Inr (h', CLH_STATUS_SUCCESS)"
  using assms(3)
proof (induction ns arbitrary: h)
  case (Cons n ns)
  show ?case
  proof (cases "n = unat (scast own :: clh_u64)")
    case True
    then show ?thesis using Cons by simp
  next
    case False
    let ?key = "clh_pmi_make_key (of_nat n)"
    from pmi_get_answers [OF assms(1), of "replicate PEER_ADDR_SIZE 0"] obtain pmi1 u1 a1 n1 where
      g1: "clh_pmi_get P (h_pmi h) (h_world h) (of_nat n) ?key (replicate PEER_ADDR_SIZE 0) =
             Inr (pmi1, u1, a1, n1, CLH_PMI_STATUS_SUCCESS)" "length a1 = PEER_ADDR_SIZE"
      by (metis length_replicate)
    from pmi_get_answers [OF assms(1) g1(2)] obtain pmi2 u2 a2 n2 where
      g2: "clh_pmi_get P pmi1 u1 (of_nat n) ?key a1 = Inr (pmi2, u2, a2, n2, CLH_PMI_STATUS_SUCCESS)"
      by metis
    from assms(2) obtain ep u3 where ep: "ucp_ep_create U u2 a2 = (UCS_OK, ep, u3)"
      unfolding ucx_starts_def by (metis prod.collapse)
    from Cons.IH [of "h\<lparr>h_pmi := pmi2, h_world := u3, h_endpoints := (h_endpoints h)[n := Some ep]\<rparr>"]
    show ?thesis using False g1 g2 ep Cons.prems by (simp add: Let_def check_ucx_def)
  qed
qed simp

lemma ucx_init_answers:
  assumes P: "pmix_answers P me nb" and U: "ucx_starts U"
  shows "\<exists>h'. ucx_init U P h = Inr (h', CLH_STATUS_SUCCESS)"
proof -
  have endpoints: "\<exists>h'. init_ucp_endpoints U P h = Inr (h', CLH_STATUS_SUCCESS)" for h
  proof -
    from U obtain a u where addr: "ucp_worker_get_address U (h_world h) = (UCS_OK, a, u)" and
      len: "length a < PMI_VALUE_SIZE"
      unfolding ucx_starts_def by metis
    let ?v = "take (length a) a @ 0 # drop (Suc (length a)) (replicate PMI_VALUE_SIZE 0)"
    have value_ok: "clh_pmi_make_value (replicate PMI_VALUE_SIZE 0) a (length a) = Inr ?v"
      using len by (simp add: clh_pmi_make_value_def)
    obtain st u' where put: "PMIx_Put P u (clh_pmi_make_key (clh_node_id h)) (Pmix_Byte_Object (take (length a) ?v)) = (st, u')"
      by (rule prod.exhaust)
    then have "st = PMIX_SUCCESS" using P unfolding pmix_answers_def by (metis fst_conv)
    then have put': "clh_pmi_put P u (clh_pmi_make_key (clh_node_id h)) ?v (length a) =
        Inr (u', CLH_PMI_STATUS_SUCCESS)"
      using put by (simp add: clh_pmi_put_def pmi_result_def check_pmi_def)
    show ?thesis
      unfolding init_ucp_endpoints_def
      using addr value_ok put' init_endpoints_loop_answers [OF P U]
      by (simp add: Let_def check_ucx_def clh_node_id_def clh_nb_nodes_def)
  qed
  obtain st c u where conf: "ucp_config_read U (h_world h) = (st, c, u)" by (rule prod_cases3)
  obtain st2 u2 where ini: "ucp_init U u c (clh_nb_nodes h) = (st2, u2)" by (rule prod.exhaust)
  obtain st3 u3 where wk: "ucp_worker_create U (ucp_config_release U u2 c) = (st3, u3)"
    by (rule prod.exhaust)
  have "st = UCS_OK" "st2 = UCS_OK" "st3 = UCS_OK"
    using U conf ini wk unfolding ucx_starts_def by (metis fst_conv)+
  moreover from endpoints [of "h\<lparr>h_world := u3\<rparr>"] obtain h2 where
    "init_ucp_endpoints U P (h\<lparr>h_world := u3\<rparr>) = Inr (h2, CLH_STATUS_SUCCESS)" by blast
  ultimately show ?thesis
    using conf ini wk
    by (simp add: ucx_init_def init_ucp_context_def init_ucp_worker_def init_cache_def check_ucx_def)
qed

lemma start_worker_answers:
  assumes "pmix_answers P me nb" and "ucx_starts U"
  shows "\<exists>h'. start_worker U P ra h = Inr h'"
  using ucx_init_answers [OF assms, of "start_queues ra h"]
  by (auto simp: start_worker_def run_prologue_def)

lemma pmi_init_answers:
  assumes "pmix_answers P me nb"
  shows "\<exists>pmi u'. clh_pmi_init P pmi0 u = Inr (pmi, u', CLH_PMI_STATUS_SUCCESS) \<and>
           pmi_node_id pmi = me \<and> pmi_nb_nodes pmi = nb"
proof -
  from assms obtain ns u1 where
    i: "PMIx_Init P u = (PMIX_SUCCESS, \<lparr>proc_nspace = ns, proc_rank = me\<rparr>, u1)"
    unfolding pmix_answers_def by metis
  let ?p = "\<lparr>proc_nspace = ns, proc_rank = PMIX_RANK_WILDCARD P\<rparr>"
  from assms obtain u2 where g: "PMIx_Get P u1 ?p (PMIX_JOB_SIZE P) = (PMIX_SUCCESS, Pmix_Uint32 nb, u2)"
    unfolding pmix_answers_def by metis
  show ?thesis using i g by (simp add: clh_pmi_init_def check_pmi_def Let_def)
qed

section \<open>Initialisation\<close>

text \<open>
  With \<open>b\<close> the warm-up may fail to end; without it the library has to finish what it is given.
\<close>

lemma idle_world [simp]: "idle (h\<lparr>h_world := u\<rparr>) = idle h"
  using world_effect [OF sys_step.world [where h = h and u = u]] by (simp add: idle_def)

lemma init_settles:
  assumes fresh: "fresh_handle h" and junk: "junk_ok ra" and U: "posts_requests U" "fills_infos U"
    and starts: "pmix_answers P me nb" "ucx_starts U"
    and b: "b \<or> (ucp_reliable U \<and> finishes U \<and> (\<forall>u i r. text_ok u i r) \<and> Suc k \<le> fuel \<and>
      CONF_WARMUP_LOOP_COUNT * unat nb \<le> k * CONF_SEND_THRESH)"
  shows "settles b (clh_init fuel U P pmi0 ma ra text_ok send_mem recv_mem h)
     (\<lambda>(h', status). status = CLH_STATUS_SUCCESS \<and> idle h' \<and> h_run h' \<and> has_endpoints h' \<and>
        clh_node_id h' = me \<and> clh_nb_nodes h' = nb)"
proof -
  from pmi_init_answers [OF starts(1)] obtain pmi u where
    pmi: "clh_pmi_init P pmi0 (h_world h) = Inr (pmi, u, CLH_PMI_STATUS_SUCCESS)"
    "pmi_node_id pmi = me" "pmi_nb_nodes pmi = nb" by blast
  let ?h = "h\<lparr>h_pmi := pmi, h_world := u\<rparr>"
  let ?h1 = "init_recv_lists ma [0..<CLH_MAX_CHANNELS] ?h"
  from init_recv_lists_ok [of ?h ma] fresh obtain mf where
    h1: "?h1 = ?h\<lparr>h_messages := h_messages ?h1, h_recv_list := h_recv_list ?h1\<rparr>" and
    msgs: "msgs_ok (h_messages ?h1) (h_recv_list ?h1) (\<lambda>_. []) mf"
    by (auto simp: fresh_handle_def Let_def)
  have same: "h_requests ?h1 = h_requests h" "h_send_count ?h1 = h_send_count h" "h_pmi ?h1 = pmi"
    by (subst h1, simp)+
  from start_worker_answers [OF starts] obtain h2 where start: "start_worker U P ra ?h1 = Inr h2" by blast
  have idle: "idle h2 \<and> h_run h2 \<and> has_endpoints h2 \<and> clh_node_id h2 = me \<and> clh_nb_nodes h2 = nb"
    using start_worker_idle [OF _ _ _ msgs junk start] fresh same pmi
    by (simp add: fresh_handle_def clh_node_id_def clh_nb_nodes_def)
  have "settles b (clh_warmup fuel U text_ok send_mem recv_mem h2)
      (\<lambda>(h', status). status = CLH_STATUS_SUCCESS \<and> idle h' \<and> same_setup h2 h')"
    using idle b by (intro warmup_settles U) auto
  then have "settles b (ebind (clh_warmup fuel U text_ok send_mem recv_mem h2)
        (\<lambda>(h, _). Inr (clh_barrier P h, CLH_STATUS_SUCCESS)))
      (\<lambda>(h', status). status = CLH_STATUS_SUCCESS \<and> idle h' \<and> h_run h' \<and> has_endpoints h' \<and>
         clh_node_id h' = me \<and> clh_nb_nodes h' = nb)"
  proof (rule settles_bind, clarsimp)
    fix h3 assume i3: "idle h3" and same3: "same_setup h2 h3"
    have "idle (clh_barrier P h3)"
      using i3 by (simp add: clh_barrier_def)
    then show "idle (clh_barrier P h3) \<and> h_run (clh_barrier P h3) \<and> has_endpoints (clh_barrier P h3) \<and>
        clh_node_id (clh_barrier P h3) = me \<and> clh_nb_nodes (clh_barrier P h3) = nb"
      using idle same3
      by (simp add: clh_barrier_def has_endpoints_def same_setup_def clh_node_id_def clh_nb_nodes_def)
  qed
  then show ?thesis using pmi(1) start by (simp add: clh_init_def Let_def)
qed

end
