(* ===== verification/Clh_Stop.thy ===== *)
theory Clh_Stop
  imports Clh_Start
begin

text \<open>
  The end of a handle: the worker drains its queues, UCX is torn down, and the nodes of the
  queues and of the message lists are freed. What the user still holds is not.
\<close>

section \<open>The loop to its end\<close>

definition looped :: "'u ucp \<Rightarrow> 'u clh_handle \<Rightarrow> 'u clh_handle \<Rightarrow> bool" where
  "looped U h h' \<longleftrightarrow> served U h h' \<and> (queues_fit h \<longrightarrow> queues_fit h') \<and>
     (\<forall>r. req_at h' r = None \<longleftrightarrow> req_at h r = None)"

lemma iterated_looped:
  assumes it: "iterated U h h'" and inv: "handle_inv h"
  shows "looped U h h'"
proof -
  note sv = iterated_served [OF it inv]
  have "req_at h' r = None \<longleftrightarrow> req_at h r = None" for r
  proof (cases "r \<in> tracked h")
    case True
    then have "pending h r" "pending h' r" using sv by (auto simp: pending_def served_def)
    then show ?thesis using pending_request inv sv by (metis option.distinct(1) served_def)
  next
    case False
    then show ?thesis using iterated_others [OF it] by simp
  qed
  then show ?thesis using sv iterated_fit [OF it] by (simp add: looped_def)
qed

lemma looped_trans: "looped U h h1 \<Longrightarrow> looped U h1 h2 \<Longrightarrow> looped U h h2"
  unfolding looped_def using served_trans by metis

lemma run_loop_looped:
  assumes "handle_inv h" and U: "posts_requests U" "fills_infos U" and "run_loop fuel U h = Inr h'"
  shows "looped U h h'"
  using assms(1,4)
proof (induction fuel arbitrary: h)
  case 0
  then have "h' = h" by (subst (asm) run_loop.simps) (auto split: if_splits)
  then show ?case using 0 served_refl by (simp add: looped_def)
next
  case (Suc k)
  show ?case
  proof (cases "h_run h \<or> \<not> queues_empty h")
    case True
    then obtain h1 where body: "run_body U h = Inr h1" and rest: "run_loop k U h1 = Inr h'"
      using Suc.prems(2) by (subst (asm) (2) run_loop.simps) (auto simp: ebind_Inr_iff)
    have it: "iterated U h h1" using run_body_outcome [OF Suc.prems(1) U, of True] body by simp
    show ?thesis
      using looped_trans [OF iterated_looped [OF it Suc.prems(1)]] Suc.IH [OF iterated_inv(1) [OF it] rest]
      by blast
  next
    case False
    then have "h' = h" using Suc.prems(2) run_loop_stops [of h "Suc k" U] by simp
    then show ?thesis using Suc.prems served_refl by (simp add: looped_def)
  qed
qed

lemma h_run_simps [simp]:
  "handle_inv (h\<lparr>h_run := b\<rparr>) = handle_inv h" "queued (h\<lparr>h_run := b\<rparr>) = queued h"
  "released (h\<lparr>h_run := b\<rparr>) = released h" "inflight (h\<lparr>h_run := b\<rparr>) = inflight h"
  "req_at (h\<lparr>h_run := b\<rparr>) = req_at h" "tracked (h\<lparr>h_run := b\<rparr>) = tracked h"
  "load (h\<lparr>h_run := b\<rparr>) = load h" "queues_fit (h\<lparr>h_run := b\<rparr>) = queues_fit h"
proof -
  have "handle_rep (h\<lparr>h_run := b\<rparr>) = handle_rep h" by (simp add: fun_eq_iff handle_rep_def reqs_ok_def)
  then show "handle_inv (h\<lparr>h_run := b\<rparr>) = handle_inv h" by (simp add: handle_inv_def)
  show "queued (h\<lparr>h_run := b\<rparr>) = queued h"
  "released (h\<lparr>h_run := b\<rparr>) = released h" "inflight (h\<lparr>h_run := b\<rparr>) = inflight h"
  "req_at (h\<lparr>h_run := b\<rparr>) = req_at h" "tracked (h\<lparr>h_run := b\<rparr>) = tracked h"
  "load (h\<lparr>h_run := b\<rparr>) = load h" "queues_fit (h\<lparr>h_run := b\<rparr>) = queues_fit h"
    by (simp_all add: queued_def released_def inflight_def req_at_def tracked_def load_def
        queues_fit_def fun_eq_iff)
qed

section \<open>Tearing UCX down\<close>

text \<open>
  The arena keeps the nodes of unregistered buffers, so the destruction of the cache unmaps every
  handle the cache ever had, in the order of their registration.
\<close>

definition arena_handles :: "clh_buffer_cache \<Rightarrow> ucp_mem_h list" where
  "arena_handles C = map (cmemh (cache_nodes C)) (arena_nodes (cache_allocator C))"

lemma unmap_nodes_fold:
  "(\<forall>a \<in> set as. N a \<noteq> None) \<Longrightarrow>
     unmap_nodes U N as u = Inr (fold (\<lambda>m u. snd (ucp_mem_unmap U u m)) (map (cmemh N) as) u)"
  by (induction as arbitrary: u) (auto simp: cmemh_def)

lemma cache_destroy_spec:
  assumes "cache_inv C"
  shows "clh_buffer_cache_destroy U C u =
     Inr (True, fold (\<lambda>m u. snd (ucp_mem_unmap U u m)) (arena_handles C) u)"
proof -
  have rep: "cache_rep C (cache_tree C)" using assms by (simp add: cache_inv_rep)
  then have "\<forall>a \<in> set (arena_nodes (cache_allocator C)). cache_nodes C a \<noteq> None" "\<not> cache_mutex C"
    unfolding cache_rep_def by blast+
  then show ?thesis
    by (simp add: clh_buffer_cache_destroy_def buffer_cache_node_allocator_destroy_def
        unmap_nodes_fold arena_handles_def)
qed

text \<open>Closing an endpoint gives no error and a request that completes.\<close>

definition ucx_closes :: "'u ucp \<Rightarrow> bool" where
  "ucx_closes U \<longleftrightarrow> (\<forall>u ep. \<not> UCS_PTR_IS_ERR (fst (ucp_ep_close_nbx U u ep)))"

lemma ucx_wait_finishes:
  assumes "finishes U" and "\<not> UCS_PTR_IS_ERR p"
  shows "\<exists>u. ucx_wait fuel U h p = Inr (h\<lparr>h_world := u\<rparr>, CLH_STATUS_SUCCESS)"
proof (cases p)
  case Status_Complete
  then show ?thesis by (auto simp: ucx_wait_def intro: exI [of _ "h_world h"])
next
  case (Status_Error e)
  then show ?thesis using assms by simp
next
  case (Status_Request r)
  have "ucp_request_check_status U (h_world h) r = UCS_OK"
    using assms by (simp add: finishes_def statuses_fixed_def)
  then show ?thesis using Status_Request by (auto simp: ucx_wait_def ucx_wait_loop.simps)
qed

lemma close_endpoints_spec:
  assumes U: "finishes U" "ucx_closes U"
    and "\<forall>i \<in> set ns. i \<noteq> unat (scast own :: clh_u64) \<longrightarrow>
      i < length (h_endpoints h) \<and> h_endpoints h ! i \<noteq> None"
  shows "\<exists>u. close_endpoints_loop fuel U own ns h = Inr (h\<lparr>h_world := u\<rparr>, CLH_STATUS_SUCCESS)"
  using assms(3)
proof (induction ns arbitrary: h)
  case Nil
  then show ?case by (auto intro: exI [of _ "h_world h"])
next
  case (Cons n ns)
  show ?case
  proof (cases "n = unat (scast own :: clh_u64)")
    case True
    then show ?thesis using Cons by simp
  next
    case False
    with Cons.prems obtain ep where ep: "n < length (h_endpoints h)" "h_endpoints h ! n = Some ep" by auto
    obtain p u where close: "ucp_ep_close_nbx U (h_world h) ep = (p, u)" by (rule prod.exhaust)
    have ok: "\<not> UCS_PTR_IS_ERR p" using U(2) close unfolding ucx_closes_def by (metis fst_conv)
    from ucx_wait_finishes [OF U(1) ok, of fuel "h\<lparr>h_world := u\<rparr>"] obtain u' where
      "ucx_wait fuel U (h\<lparr>h_world := u\<rparr>) p = Inr (h\<lparr>h_world := u'\<rparr>, CLH_STATUS_SUCCESS)" by auto
    with Cons.IH [of "h\<lparr>h_world := u'\<rparr>"] Cons.prems False ep close ok show ?thesis by (auto simp: Let_def)
  qed
qed

lemma ucx_finalize_spec:
  assumes "cache_inv (h_buffer_cache h)" and "has_endpoints h" and U: "finishes U" "ucx_closes U"
  shows "\<exists>u. ucx_finalize fuel U h = Inr (h\<lparr>h_endpoints := [], h_world := u\<rparr>, CLH_STATUS_SUCCESS)"
proof -
  let ?u = "fold (\<lambda>m u. snd (ucp_mem_unmap U u m)) (arena_handles (h_buffer_cache h)) (h_world h)"
  let ?h = "h\<lparr>h_world := ?u\<rparr>"
  have "\<forall>i \<in> set [0..<unat (clh_nb_nodes h)]. i \<noteq> unat (scast (clh_node_id h) :: clh_u64) \<longrightarrow>
      i < length (h_endpoints ?h) \<and> h_endpoints ?h ! i \<noteq> None"
    using assms(2) by (auto simp: has_endpoints_def own_rank_def)
  from close_endpoints_spec [OF U this, of fuel] obtain u where
    "close_endpoints_loop fuel U (clh_node_id h) [0..<unat (clh_nb_nodes h)] ?h =
       Inr (?h\<lparr>h_world := u\<rparr>, CLH_STATUS_SUCCESS)" by blast
  then show ?thesis
    using cache_destroy_spec [OF assms(1), of U "h_world h"]
    by (auto simp: ucx_finalize_def Let_def clh_node_id_def clh_nb_nodes_def)
qed

section \<open>Freeing the nodes\<close>

lemma pool_destroy:
  assumes pool: "pool_inv I H Q qs fs" and i: "i \<in> I"
  shows "\<exists>H'. clh_list_destroy (H, Q i) = Inr (H', length (qs i)) \<and> pool_inv (I - {i}) H' Q qs fs \<and>
     cells H' = (\<lambda>a. if a \<in> set (qs i) \<union> set (fs i) then None else cells H a)"
proof -
  let ?H = "H\<lparr>cells := (\<lambda>a. if a \<in> set (qs i) \<union> set (fs i) then None else cells H a)\<rparr>"
  note run = destroy_spec [OF pool_inv_list [OF pool i] pool_inv_heap [OF pool]]
  have "list_inv ?H (Q j) (qs j) (fs j)" if j: "j \<in> I - {i}" for j
    using pool_inv_list [OF pool, of j] pool_other [OF pool i, of j] j
    by (subst list_inv_cong [where H = H]) auto
  moreover have "heap_inv ?H" using pool_inv_heap [OF pool] by (simp add: heap_inv_def)
  ultimately have "pool_inv (I - {i}) ?H Q qs fs" using pool by (simp add: pool_inv_def)
  then show ?thesis using run by auto
qed

lemma destroy_queues:
  assumes pool: "pool_inv UNIV (h_requests h) (h_request_queues h) qs fs"
  shows "\<exists>H'. terminate_queues h =
     Inr (h\<lparr>h_requests := H', h_ops_queue := array_destroy (h_ops_queue h)\<rparr>) \<and>
     cells H' = (\<lambda>a. if a \<in> pooled UNIV qs fs then None else cells (h_requests h) a)"
proof -
  let ?Q = "h_request_queues h"
  from pool_destroy [OF pool, of CLH_REQUEST_TYPE_SEND] obtain H1 where
    a: "clh_list_destroy (h_requests h, ?Q CLH_REQUEST_TYPE_SEND) = Inr (H1, length (qs CLH_REQUEST_TYPE_SEND))"
    "pool_inv (UNIV - {CLH_REQUEST_TYPE_SEND}) H1 ?Q qs fs"
    "cells H1 = (\<lambda>a. if a \<in> set (qs CLH_REQUEST_TYPE_SEND) \<union> set (fs CLH_REQUEST_TYPE_SEND) then None
       else cells (h_requests h) a)" by auto
  from pool_destroy [OF a(2), of CLH_REQUEST_TYPE_RECV] obtain H2 where
    b: "clh_list_destroy (H1, ?Q CLH_REQUEST_TYPE_RECV) = Inr (H2, length (qs CLH_REQUEST_TYPE_RECV))"
    "pool_inv (UNIV - {CLH_REQUEST_TYPE_SEND} - {CLH_REQUEST_TYPE_RECV}) H2 ?Q qs fs"
    "cells H2 = (\<lambda>a. if a \<in> set (qs CLH_REQUEST_TYPE_RECV) \<union> set (fs CLH_REQUEST_TYPE_RECV) then None
       else cells H1 a)" by auto
  from pool_destroy [OF b(2), of CLH_REQUEST_TYPE_PROBE] obtain H3 where
    c: "clh_list_destroy (H2, ?Q CLH_REQUEST_TYPE_PROBE) = Inr (H3, length (qs CLH_REQUEST_TYPE_PROBE))"
    "cells H3 = (\<lambda>a. if a \<in> set (qs CLH_REQUEST_TYPE_PROBE) \<union> set (fs CLH_REQUEST_TYPE_PROBE) then None
       else cells H2 a)" by auto
  have "cells H3 = (\<lambda>a. if a \<in> pooled UNIV qs fs then None else cells (h_requests h) a)"
  proof
    have "pooled UNIV qs fs = (\<Union>ty \<in> {CLH_REQUEST_TYPE_PROBE, CLH_REQUEST_TYPE_RECV, CLH_REQUEST_TYPE_SEND}.
        set (qs ty) \<union> set (fs ty))" by (simp only: pooled_def request_types)
    then show "cells H3 a = (if a \<in> pooled UNIV qs fs then None else cells (h_requests h) a)" for a
      unfolding c(2) b(3) a(3) by simp
  qed
  then show ?thesis
    using a(1) b(1) c(1) by (auto simp: terminate_queues_def destroy_queue_def queue_state_def)
qed

lemma destroy_recv_lists_spec:
  assumes "pool_inv I (h_messages h) (\<lambda>c. h_recv_list h ! c) ms mf" and "distinct is" and "set is \<subseteq> I"
    and "\<forall>i \<in> set is. i < length (h_recv_list h)"
  shows "\<exists>H'. destroy_recv_lists is h = Inr (h\<lparr>h_messages := H'\<rparr>) \<and>
     cells H' = (\<lambda>a. if a \<in> pooled (set is) ms mf then None else cells (h_messages h) a)"
  using assms
proof (induction "is" arbitrary: h I)
  case Nil
  show ?case by (rule exI [of _ "h_messages h"]) (simp add: pooled_def)
next
  case (Cons i js)
  from pool_destroy [OF Cons.prems(1), of i] Cons.prems(3) obtain H1 where
    run: "clh_list_destroy (h_messages h, h_recv_list h ! i) = Inr (H1, length (ms i))" and
    pool: "pool_inv (I - {i}) H1 (\<lambda>c. h_recv_list h ! c) ms mf" and
    cells: "cells H1 = (\<lambda>a. if a \<in> set (ms i) \<union> set (mf i) then None else cells (h_messages h) a)"
    by auto
  let ?h = "h\<lparr>h_messages := H1\<rparr>"
  have pool': "pool_inv (I - {i}) (h_messages ?h) (\<lambda>c. h_recv_list ?h ! c) ms mf" using pool by simp
  have side: "distinct js" "set js \<subseteq> I - {i}" "\<forall>j \<in> set js. j < length (h_recv_list ?h)"
    using Cons.prems by auto
  from Cons.IH [OF pool' side] obtain H' where
    rest: "destroy_recv_lists js ?h = Inr (?h\<lparr>h_messages := H'\<rparr>)" and
    cells': "cells H' = (\<lambda>a. if a \<in> pooled (set js) ms mf then None else cells (h_messages ?h) a)" by blast
  have "cells H' = (\<lambda>a. if a \<in> pooled (set (i # js)) ms mf then None else cells (h_messages h) a)"
    by (rule ext) (auto simp: cells' cells pooled_def)
  then show ?case using run rest Cons.prems(4) by auto
qed

section \<open>Finalisation\<close>

lemma handle_inv_msgs:
  "handle_inv h \<Longrightarrow> \<exists>ms mf. msgs_ok (h_messages h) (h_recv_list h) ms mf"
  by (auto simp: handle_inv_def handle_rep_def)

text \<open>
  What follows the loop: the worker closes UCX and ends, the thread that joined it destroys the
  queues. Of the requests the released ones go.
\<close>

lemma shut_down:
  assumes inv: "handle_inv h" and eps: "has_endpoints h" and U: "finishes U" "ucx_closes U"
    and empty: "\<And>ty. queued h ty = []"
  shows "\<exists>h'. ebind (run_epilogue fuel U h) terminate_queues = Inr h' \<and> h_pmi h' = h_pmi h \<and>
     h_messages h' = h_messages h \<and> h_recv_list h' = h_recv_list h \<and>
     (\<forall>r. req_at h' r \<noteq> None \<longleftrightarrow> req_at h r \<noteq> None \<and> (\<forall>ty. r \<notin> set (released h ty)))"
proof -
  have cache: "cache_inv (h_buffer_cache h)" using inv by (auto simp: handle_inv_def handle_rep_def)
  from ucx_finalize_spec [OF cache eps U, of fuel] obtain u where
    fin: "ucx_finalize fuel U h = Inr (h\<lparr>h_endpoints := [], h_world := u\<rparr>, CLH_STATUS_SUCCESS)" ..
  let ?h = "h\<lparr>h_endpoints := [], h_world := u\<rparr>"
  have "pool_inv UNIV (h_requests ?h) (h_request_queues ?h) (queued h) (released h)"
    using handle_inv_reqs [OF inv] by (simp add: reqs_ok_def)
  from destroy_queues [OF this] obtain H' where
    destroy: "terminate_queues ?h =
       Inr (?h\<lparr>h_requests := H', h_ops_queue := array_destroy (h_ops_queue ?h)\<rparr>)" and
    cells: "cells H' = (\<lambda>a. if a \<in> pooled UNIV (queued h) (released h) then None
      else cells (h_requests ?h) a)"
    by blast
  let ?h' = "?h\<lparr>h_requests := H', h_ops_queue := array_destroy (h_ops_queue ?h)\<rparr>"
  have "ebind (run_epilogue fuel U h) terminate_queues = Inr ?h'"
    using fin destroy by (simp add: run_epilogue_def)
  moreover have "a \<in> pooled UNIV (queued h) (released h) \<longleftrightarrow> (\<exists>ty. a \<in> set (released h ty))" for a
    using empty by (auto simp: pooled_def)
  then have "req_at ?h' r \<noteq> None \<longleftrightarrow> req_at h r \<noteq> None \<and> (\<forall>ty. r \<notin> set (released h ty))" for r
    using cells by (auto simp: req_at_def data_at_def)
  ultimately show ?thesis by (intro exI [of _ ?h']) simp
qed

text \<open>
  The requests left are those the user did not release: those in his hands, and those still with
  the library, which the worker completes first.
\<close>

lemma terminate_spec:
  assumes inv: "handle_inv h" and eps: "has_endpoints h" and fit: "queues_fit h"
    and U: "posts_requests U" "fills_infos U" "ucp_reliable U" "finishes U" "ucx_closes U"
    and load: "load h \<le> k * CONF_SEND_THRESH"
  shows "\<exists>h'. terminate (Suc k) U h = Inr h' \<and>
     (\<forall>r. req_at h' r \<noteq> None \<longleftrightarrow> r \<in> tracked h \<or> user_holds h r) \<and> h_pmi h' = h_pmi h \<and>
     (\<exists>ms mf. msgs_ok (h_messages h') (h_recv_list h') ms mf)"
proof -
  let ?h = "h\<lparr>h_run := False\<rparr>"
  have inv0: "handle_inv ?h" using inv by simp
  obtain h1 where run: "run_loop (Suc k) U ?h = Inr h1" and done1: "queues_empty h1"
    using run_loop_drain [of ?h U k] inv fit U load by (auto simp: load_def inflight_def)
  note loop = run_loop_looped [OF inv0 U(1,2) run]
  have inv1: "handle_inv h1" and rel: "released h1 = released h" and fit1: "queues_fit h1"
    and set1: "h_endpoints h1 = h_endpoints h" "h_pmi h1 = h_pmi h"
    and live: "\<And>r. req_at h1 r = None \<longleftrightarrow> req_at h r = None"
    using loop fit by (auto simp: looped_def served_def same_setup_def)
  have eps1: "has_endpoints h1"
    using eps set1 by (simp add: has_endpoints_def clh_node_id_def clh_nb_nodes_def)
  from shut_down [OF inv1 eps1 U(4,5) queues_empty_only(2) [OF inv1 done1 fit1], of "Suc k"] obtain h' where
    h': "ebind (run_epilogue (Suc k) U h1) terminate_queues = Inr h'" "h_pmi h' = h_pmi h1"
      "h_messages h' = h_messages h1" "h_recv_list h' = h_recv_list h1"
      "\<And>r. req_at h' r \<noteq> None \<longleftrightarrow> req_at h1 r \<noteq> None \<and> (\<forall>ty. r \<notin> set (released h1 ty))"
    by blast
  have "r \<in> tracked h \<Longrightarrow> req_at h r \<noteq> None \<and> (\<forall>ty. r \<notin> set (released h ty))" for r
    using pending_request [OF inv, of r] handed_out_fresh(1) [OF inv, of r] by (auto simp: pending_def)
  then have "req_at h' r \<noteq> None \<longleftrightarrow> r \<in> tracked h \<or> user_holds h r" for r
    using h'(5) [of r] live [of r] rel user_holds_iff [OF inv, of r] by auto
  then show ?thesis
    using run h' handle_inv_msgs [OF inv1] set1 by (intro exI [of _ h']) (simp add: terminate_def)
qed

definition msg_free :: "'u clh_handle \<Rightarrow> nat \<Rightarrow> nat list" where
  "msg_free h c = free_nodes (h_messages h) (h_recv_list h ! c)"

lemma finalize_spec:
  assumes "handle_inv h" and "has_endpoints h" and "queues_fit h"
    and "posts_requests U" "fills_infos U" "ucp_reliable U" "finishes U" "ucx_closes U"
    and "load h \<le> k * CONF_SEND_THRESH"
  shows "\<exists>h1 h'. clh_finalize (Suc k) U P h = Inr (h', CLH_STATUS_SUCCESS) \<and>
     terminate (Suc k) U (h\<lparr>h_world := fst (clh_pmi_sync P (h_pmi h) (h_world h))\<rparr>) = Inr h1 \<and>
     (\<forall>r. req_at h' r \<noteq> None \<longleftrightarrow> r \<in> tracked h \<or> user_holds h r) \<and>
     (\<forall>c < CLH_MAX_CHANNELS. \<forall>a \<in> set (received h1 c) \<union> set (msg_free h1 c).
        cells (h_messages h') a = None)"
proof -
  let ?h = "h\<lparr>h_world := fst (clh_pmi_sync P (h_pmi h) (h_world h))\<rparr>"
  note world = world_effect [OF sys_step.world [where h = h and u = "fst (clh_pmi_sync P (h_pmi h) (h_world h))"]]
  have same: "handle_inv ?h" "has_endpoints ?h" "queues_fit ?h" "load ?h = load h" "tracked ?h = tracked h"
    "user_holds ?h = user_holds h"
    using assms(1-3) world
    by (simp_all add: has_endpoints_def queues_fit_def load_def tracked_def user_holds_def fun_eq_iff
        clh_node_id_def clh_nb_nodes_def)
  from terminate_spec [OF same(1-3) assms(4-8), of k] assms(9) same obtain h1 ms mf where
    ter: "terminate (Suc k) U ?h = Inr h1" and
    reqs: "\<forall>r. req_at h1 r \<noteq> None \<longleftrightarrow> r \<in> tracked h \<or> user_holds h r" and
    msgs: "msgs_ok (h_messages h1) (h_recv_list h1) ms mf"
    by auto
  let ?h1 = "h1\<lparr>h_world := fst (clh_pmi_finalize P (h_pmi h1) (h_world h1))\<rparr>"
  have pool: "pool_inv {..<CLH_MAX_CHANNELS} (h_messages ?h1) (\<lambda>c. h_recv_list ?h1 ! c) ms mf"
    and len: "length (h_recv_list ?h1) = CLH_MAX_CHANNELS"
    using msgs by (simp_all add: msgs_ok_def)
  from destroy_recv_lists_spec [OF pool, of "[0..<CLH_MAX_CHANNELS]"] len obtain H' where
    destroy: "destroy_recv_lists [0..<CLH_MAX_CHANNELS] ?h1 = Inr (?h1\<lparr>h_messages := H'\<rparr>)" and
    cells: "cells H' = (\<lambda>a. if a \<in> pooled {0..<CLH_MAX_CHANNELS} ms mf then None
       else cells (h_messages ?h1) a)"
    by (auto simp: atLeast0LessThan)
  have "clh_finalize (Suc k) U P h = Inr (?h1\<lparr>h_messages := H'\<rparr>, CLH_STATUS_SUCCESS)"
    using ter destroy by (simp add: clh_finalize_def Let_def)
  moreover have "req_at (?h1\<lparr>h_messages := H'\<rparr>) = req_at h1" by (simp add: req_at_def fun_eq_iff)
  moreover have "cells H' a = None" if c: "c < CLH_MAX_CHANNELS" and a: "a \<in> set (received h1 c) \<union> set (msg_free h1 c)" for c a
  proof -
    have "ms c = received h1 c" "mf c = msg_free h1 c"
      using pool_nodes [OF pool, of c] c by (simp_all add: received_def msg_free_def)
    then have "a \<in> pooled {0..<CLH_MAX_CHANNELS} ms mf"
      using a c by (intro pooledI [of c]) auto
    then show ?thesis by (simp add: cells)
  qed
  ultimately show ?thesis using reqs ter by (intro exI [of _ h1] exI [of _ "?h1\<lparr>h_messages := H'\<rparr>"]) simp
qed

end
