(* ===== verification/Clh_Demo.thy ===== *)
theory Clh_Demo
  imports Clh_Stop
begin

text \<open>
  Concrete instances: a UCP and a PMIx that always succeed, which meet every assumption the
  development makes on the two libraries, and small handles that meet its invariants.
\<close>

section \<open>UCP\<close>

text \<open>
  Every operation is posted as a request and every request is complete when asked for. Each probe
  finds a message of process 1 on channel 3 with the tag 7.
\<close>

definition demo_ucp_in :: "'u ucp" where
  "demo_ucp_in = \<lparr>
     ucp_mem_map = (\<lambda>u p l. (UCS_OK, p + 1, u)),
     ucp_mem_unmap = (\<lambda>u m. (UCS_OK, u)),
     ucp_tag_send_nbx = (\<lambda>u ep p l t m. (Status_Request 1, u)),
     ucp_tag_recv_nbx = (\<lambda>u p l t k m. (Status_Request 2, u)),
     ucp_tag_msg_recv_nbx = (\<lambda>u p l g m. (Status_Request 3, u)),
     ucp_tag_probe_nb = (\<lambda>u t k r.
       (5, \<lparr>info_sender_tag = clh_encode_tag 3 1 7, info_length = 16\<rparr>, u)),
     ucp_request_check_status = (\<lambda>u r. UCS_OK),
     ucp_tag_recv_request_test = (\<lambda>u r i.
       (UCS_OK, Some \<lparr>info_sender_tag = clh_encode_tag 3 1 7, info_length = 16\<rparr>)),
     ucp_request_free = (\<lambda>u r. u),
     ucp_worker_progress = (\<lambda>u. (1, u)),
     ucp_config_read = (\<lambda>u. (UCS_OK, 0, u)),
     ucp_config_release = (\<lambda>u c. u),
     ucp_init = (\<lambda>u c n. (UCS_OK, u)),
     ucp_worker_create = (\<lambda>u. (UCS_OK, u)),
     ucp_worker_get_address = (\<lambda>u. (UCS_OK, [1, 2, 3], u)),
     ucp_ep_create = (\<lambda>u a. (UCS_OK, 7, u)),
     ucp_ep_close_nbx = (\<lambda>u ep. (Status_Complete, u)),
     ucp_worker_release_address = (\<lambda>u. u),
     ucp_worker_destroy = (\<lambda>u. u),
     ucp_cleanup = (\<lambda>u. u)\<rparr>"

definition demo_ucp :: "unit ucp" where
  "demo_ucp = demo_ucp_in"

lemmas demo_ucp_defs = demo_ucp_def demo_ucp_in_def

lemma demo_ucp_ok [simp]:
  "posts_requests demo_ucp" "fills_infos demo_ucp" "ucp_reliable demo_ucp" "finishes demo_ucp"
  "ucx_starts demo_ucp" "ucx_closes demo_ucp" "ucp_ok demo_ucp"
  by (simp_all add: posts_requests_def fills_infos_def ucp_reliable_def finishes_def
      statuses_fixed_def ucx_starts_def ucx_closes_def ucp_ok_def demo_ucp_defs PMI_VALUE_SIZE_def)

section \<open>PMIx\<close>

text \<open>This process is the first of two.\<close>

definition demo_pmix :: "unit pmix" where
  "demo_pmix = \<lparr>
     PMIX_RANK_WILDCARD = 0xFFFFFFFE,
     PMIX_JOB_SIZE = ''pmix.job.size'',
     PMIx_Init = (\<lambda>u. (PMIX_SUCCESS, \<lparr>proc_nspace = ''job'', proc_rank = 0\<rparr>, u)),
     PMIx_Get = (\<lambda>u p k.
       (PMIX_SUCCESS, if k = ''pmix.job.size'' then Pmix_Uint32 2 else Pmix_Byte_Object [1, 2, 3], u)),
     PMIx_Put = (\<lambda>u k v. (PMIX_SUCCESS, u)),
     PMIx_Commit = (\<lambda>u. (PMIX_SUCCESS, u)),
     PMIx_Fence = (\<lambda>u p c. (PMIX_SUCCESS, u)),
     PMIx_Finalize = (\<lambda>u. (PMIX_SUCCESS, u))\<rparr>"

lemma demo_pmix_answers [simp]: "pmix_answers demo_pmix 0 2"
  by (simp add: pmix_answers_def demo_pmix_def clh_pmi_make_key_def PEER_ADDR_SIZE_def)

section \<open>Handles\<close>

definition demo_junk :: "clh_request clh_allocator" where
  "demo_junk a = \<lparr>node_prev = None, node_next = None,
     node_data = \<lparr>req_type = CLH_REQUEST_TYPE_SEND, req_completed = False, req_channel = 3,
       req_source = 0, req_tag = 0,
       req_data = Send_Data \<lparr>send_buffer = \<lparr>buf_mem = 0, buf_len = 0\<rparr>, send_tag = 0, send_dest = 0\<rparr>\<rparr>\<rparr>"

definition demo_msg_junk :: "clh_message clh_allocator" where
  "demo_msg_junk a = \<lparr>node_prev = None, node_next = None,
     node_data = \<lparr>msg_channel = 0, msg_sender_id = 0, msg_sender_tag = 0, msg_full_tag = 0,
       msg_buffer_len = 0, msg_msg = 0\<rparr>\<rparr>"

lemma demo_junk_ok [simp]: "junk_ok demo_junk"
  by (simp add: junk_ok_def demo_junk_def channel_ok_def)

definition empty_heap :: "'a node_heap" where
  "empty_heap = \<lparr>cells = (\<lambda>_. None), brk = 0\<rparr>"

definition empty_list :: "'a clh_allocator \<Rightarrow> 'a clh_list" where
  "empty_list al = \<lparr>list_head = None, list_tail = None, list_free_nodes = None, list_len = 0,
     list_data_size = 8, list_mutex = False, list_allocator = al\<rparr>"

definition demo_pmi :: clh_pmi where
  "demo_pmi = \<lparr>pmi_node_id = 0, pmi_nb_nodes = 2,
     pmi_proc = \<lparr>proc_nspace = ''job'', proc_rank = 0\<rparr>,
     pmi_proc_wild = \<lparr>proc_nspace = ''job'', proc_rank = 0xFFFFFFFE\<rparr>\<rparr>"

text \<open>An idle handle with an endpoint to process 1; it also serves as the one \<open>calloc\<close> returns.\<close>

definition demo_handle_in :: "'u \<Rightarrow> 'u clh_handle" where
  "demo_handle_in u = \<lparr>h_pmi = demo_pmi, h_world = u, h_address = [], h_endpoints = [None, Some 7],
     h_buffer_cache = clh_buffer_cache_create 8, h_run = True, h_requests = empty_heap,
     h_request_queues = (\<lambda>_. empty_list demo_junk), h_ops_queue = array_create 1024,
     h_messages = empty_heap, h_recv_list = replicate CLH_MAX_CHANNELS (empty_list demo_msg_junk),
     h_send_count = 0\<rparr>"

definition demo_handle :: "unit clh_handle" where
  "demo_handle = demo_handle_in ()"

lemmas demo_handle_defs = demo_handle_def demo_handle_in_def

lemma empty_heap_simps [simp]:
  "cells empty_heap a = None" "brk empty_heap = 0" "heap_inv empty_heap" "data_at empty_heap a = None"
  by (simp_all add: empty_heap_def heap_inv_def data_at_def)

lemma empty_list_inv [simp]: "list_inv H (empty_list al) [] []"
  by (simp add: list_inv_def empty_list_def)

lemma demo_fresh [simp]: "fresh_handle demo_handle"
  by (simp add: fresh_handle_def demo_handle_defs)

lemma demo_has_endpoints [simp]: "has_endpoints demo_handle"
  by (simp add: has_endpoints_def demo_handle_defs clh_nb_nodes_def clh_node_id_def demo_pmi_def
      own_rank_def less_2_cases_iff)

lemma demo_rep: "handle_rep demo_handle (\<lambda>_. []) (\<lambda>_. []) (\<lambda>_. []) (\<lambda>_. [])"
proof -
  have "array_inv (array_create 1024 :: clh_op clh_array)"
      "array_list (array_create 1024 :: clh_op clh_array) = []"
    using array_create_inv [of 1024] by auto
  then have "reqs_ok demo_handle {} (\<lambda>_. []) (\<lambda>_. [])"
    by (simp add: reqs_ok_def demo_handle_defs pool_inv_def queue_ok_def channels_ok_def ops_ok_def
        sends_of_def empty_list_def demo_junk_def channel_ok_def list_inv_def)
  moreover have "msgs_ok (h_messages demo_handle) (h_recv_list demo_handle) (\<lambda>_. []) (\<lambda>_. [])"
    by (simp add: msgs_ok_def demo_handle_defs pool_inv_def)
  moreover have "cache_inv (h_buffer_cache demo_handle)"
    by (simp add: demo_handle_defs create_inv)
  ultimately show ?thesis by (simp add: handle_rep_def)
qed

lemma demo_inv [simp]: "handle_inv demo_handle"
  using demo_rep by (auto simp: handle_inv_def)

lemma demo_contents [simp]:
  "queued demo_handle ty = []" "released demo_handle ty = []" "inflight demo_handle = []"
  "req_at demo_handle r = None" "c < CLH_MAX_CHANNELS \<Longrightarrow> received demo_handle c = []" "tracked demo_handle = {}"
  "load demo_handle = 0" "queues_fit demo_handle"
proof -
  have "reqs_ok demo_handle {} (\<lambda>_. []) (\<lambda>_. [])" using demo_rep by (simp add: handle_rep_def)
  from reqs_ok_queued [OF this] have q: "queued demo_handle = (\<lambda>_. [])" "released demo_handle = (\<lambda>_. [])"
    by auto
  moreover have ops: "inflight demo_handle = []"
    by (simp add: inflight_def demo_handle_defs array_list_def array_create_def)
  ultimately show "queued demo_handle ty = []" "released demo_handle ty = []" "inflight demo_handle = []"
      "tracked demo_handle = {}" "load demo_handle = 0" "queues_fit demo_handle"
    by (simp_all add: tracked_def load_def queues_fit_def)
  show "req_at demo_handle r = None" by (simp add: req_at_def demo_handle_defs)
  show "received demo_handle c = []" if "c < CLH_MAX_CHANNELS"
    using that by (simp add: received_def demo_handle_defs list_nodes_def empty_list_def)
qed

lemma demo_eps [simp]: "h_endpoints demo_handle = [None, Some 7]"
  by (simp add: demo_handle_defs)

lemma demo_nodes [simp]: "clh_nb_nodes demo_handle = 2" "clh_node_id demo_handle = 0"
  by (simp_all add: demo_handle_defs demo_pmi_def clh_nb_nodes_def clh_node_id_def)

lemma demo_idle [simp]: "idle demo_handle"
  by (simp add: idle_def)

section \<open>Handles with something in them\<close>

definition demo_buffer :: clh_buffer where
  "demo_buffer = \<lparr>buf_mem = 64, buf_len = 16\<rparr>"

text \<open>After a send to process 1.\<close>

lemma demo_sent:
  "\<exists>h n q. clh_send demo_handle 3 1 7 demo_buffer = Inr (h, n) \<and>
     enqueued demo_handle CLH_REQUEST_TYPE_SEND n q h \<and> handle_inv h \<and> n \<in> tracked h \<and>
     queued h CLH_REQUEST_TYPE_SEND = [n] \<and> queued h CLH_REQUEST_TYPE_RECV = [] \<and>
     inflight h = [] \<and> same_setup demo_handle h \<and> has_endpoints h \<and> queues_fit h \<and> load h = 1"
proof -
  from send_spec [of demo_handle 3 1 7 demo_buffer] obtain h n where
    run: "clh_send demo_handle 3 1 7 demo_buffer = Inr (h, n)" and
    en: "enqueued demo_handle CLH_REQUEST_TYPE_SEND n (send_request demo_handle 3 1 7 demo_buffer) h"
    by (auto simp: channel_ok_def)
  then have h: "handle_inv h" "n \<in> tracked h" "queued h = (\<lambda>_. [])(CLH_REQUEST_TYPE_SEND := [n])"
      "inflight h = []"
    by (auto simp: enqueued_def tracked_def fun_eq_iff)
  have same: "same_setup demo_handle h" using send_setup [OF run] .
  then have "has_endpoints h" using demo_has_endpoints
    by (simp add: has_endpoints_def same_setup_def clh_nb_nodes_def clh_node_id_def)
  moreover have "queues_fit h" "load h = 1" by (simp_all add: queues_fit_def load_def h)
  ultimately show ?thesis using run en h same by auto
qed

text \<open>After a receive of tag 7 from process 1, in a fresh node, whose channel the allocator set.\<close>

lemma demo_recv_posted:
  "\<exists>h q. clh_recv_from demo_handle 3 1 7 7 demo_buffer = Inr (h, 0) \<and> req_at h 0 = Some q \<and>
     req_channel q = 3"
  by (simp add: clh_recv_from_def clh_recv_post_def clh_list_new_node_def queue_state_def
      demo_handle_defs empty_list_def empty_heap_def list_lock_region_def clh_list_push_node_def
      set_queue_def upd_request_def hupd_def hget_def hput_def demo_junk_def Let_def c_assert_def
      clh_allocator_allocate_def req_at_def data_at_def void_def clh_lock_region_init_def
      clh_lock_region_end_def clh_mutex_lock_def clh_mutex_unlock_def)

text \<open>After the probe of the worker found its message.\<close>

definition demo_message :: clh_message where
  "demo_message = message_of 5 \<lparr>info_sender_tag = clh_encode_tag 3 1 7, info_length = 16\<rparr>"

lemma demo_message_fields [simp]:
  "msg_channel demo_message = 3" "msg_sender_id demo_message = 1" "msg_sender_tag demo_message = 7"
  "msg_full_tag demo_message = clh_encode_tag 3 1 7" "msg_msg demo_message = 5"
  by (simp_all add: demo_message_def message_of_def channel_ok_def sender_ok_def)

lemma demo_probe:
  "ucp_tag_probe_nb demo_ucp u 0 0 True =
     (5, \<lparr>info_sender_tag = clh_encode_tag 3 1 7, info_length = 16\<rparr>, u)"
  by (simp add: demo_ucp_defs)

lemma demo_received:
  "\<exists>h n. probe_incomming_messages demo_ucp demo_handle = Inr h \<and> handle_inv h \<and>
     received h 3 = [n] \<and> msg_at h n = demo_message \<and> req_at h = req_at demo_handle \<and>
     queued h = queued demo_handle \<and> released h = released demo_handle"
proof -
  have msgs: "msgs_ok (h_messages demo_handle) (h_recv_list demo_handle) (\<lambda>_. []) (\<lambda>_. [])"
    using demo_rep by (simp add: handle_rep_def)
  from probe_incoming_step [OF msgs demo_probe, of 0] obtain h n mf where
    run: "probe_incoming_loop (Suc 0) demo_ucp demo_handle = probe_incoming_loop 0 demo_ucp h" and
    msgs': "msgs_ok (h_messages h) (h_recv_list h)
      ((\<lambda>_. [])(unat (msg_channel demo_message) := [n])) mf" and
    at: "data_at (h_messages h) n = Some demo_message" and
    fe: "fetched demo_handle (\<lambda>_. []) h ((\<lambda>_. [])(unat (msg_channel demo_message) := [n]))"
    unfolding demo_message_def [symmetric] by auto
  have rec: "received h 3 = [n]"
    using msgs_ok_received [OF msgs', of 3] by (simp add: CLH_MAX_CHANNELS_def)
  have same: "same_requests demo_handle h" using fe by (simp add: fetched_def)
  have q: "queued h = queued demo_handle" "released h = released demo_handle"
    using same_requests_queued [OF same] by simp_all
  have inv: "handle_inv h"
    using same_requests_reqs [OF same] demo_rep msgs' same
    unfolding handle_inv_def handle_rep_def by (metis same_requests_def)
  have "probe_incomming_messages demo_ucp demo_handle = Inr h"
    using run by (simp add: probe_incomming_messages_def CONF_PROBE_THRESH_def)
  moreover have "req_at h = req_at demo_handle"
    using same by (simp add: fun_eq_iff req_at_def same_requests_def)
  ultimately show ?thesis using rec at q inv by (auto simp: msg_at_def)
qed

end
