(* ===== verification/Clh_Delivery.thy ===== *)
theory Clh_Delivery
  imports Clh_System
begin

text \<open>
  The way of one message: the probe of the worker files it under the channel of its tag, a queued
  receive that asks for it finds it there, and UCX is told to receive that message into the buffer
  of the receive.
\<close>

section \<open>Filing\<close>

lemma probe_files:
  assumes inv: "handle_inv h" and probe: "ucp_tag_probe_nb U (h_world h) 0 0 True = (g, infos, u')"
  shows "\<exists>h' n. probe_incomming_messages U h = Inr h' \<and> handle_inv h' \<and> same_requests h h' \<and>
     h_world h' = u' \<and> (g \<noteq> 0 \<longrightarrow> msg_at h' n = message_of g infos) \<and>
     (\<forall>c < CLH_MAX_CHANNELS. (\<forall>a \<in> set (received h c). msg_at h' a = msg_at h a) \<and>
        received h' c =
          received h c @ (if g \<noteq> 0 \<and> c = unat (msg_channel (message_of g infos)) then [n] else []))"
proof (cases "g = 0")
  case True
  then have "probe_incomming_messages U h = Inr (h\<lparr>h_world := u'\<rparr>)"
    using probe by (simp add: probe_incomming_messages_def CONF_PROBE_THRESH_def)
  moreover have "handle_inv (h\<lparr>h_world := u'\<rparr>)"
    using world_effect(1) [OF sys_step.world [of U h u']] inv by simp
  ultimately show ?thesis using True
    by (auto simp: same_requests_def same_setup_def received_def msg_at_def)
next
  case False
  obtain ms mf where msgs: "msgs_ok (h_messages h) (h_recv_list h) ms mf"
    using inv by (auto simp: handle_inv_def handle_rep_def)
  let ?c = "unat (msg_channel (message_of g infos))"
  from probe_incoming_step [OF msgs probe False, of 0] obtain h' n mf' where
    run: "probe_incoming_loop (Suc 0) U h = probe_incoming_loop 0 U h'" and
    msgs': "msgs_ok (h_messages h') (h_recv_list h') (ms(?c := ms ?c @ [n])) mf'" and
    at: "data_at (h_messages h') n = Some (message_of g infos)" and
    fe: "fetched h ms h' (ms(?c := ms ?c @ [n]))" and w: "h_world h' = u'"
    by blast
  have same: "same_requests h h'" using fe by (simp add: fetched_def)
  have "reqs_ok h' {} (queued h) (released h)"
    using same_requests_reqs [OF same] handle_inv_reqs [OF inv] by simp
  then have "handle_inv h'"
    using msgs' same inv unfolding handle_inv_def handle_rep_def by (metis same_requests_def)
  moreover have "received h' c = received h c @ (if c = ?c then [n] else [])"
    if "c < CLH_MAX_CHANNELS" for c
    using msgs_ok_received [OF msgs that] msgs_ok_received [OF msgs' that] by auto
  moreover have "msg_at h' a = msg_at h a" if "c < CLH_MAX_CHANNELS" "a \<in> set (received h c)" for a c
    using fe that msgs_ok_received [OF msgs that(1)] by (simp add: fetched_def msg_at_def)
  moreover have "probe_incomming_messages U h = Inr h'"
    using run by (simp add: probe_incomming_messages_def CONF_PROBE_THRESH_def)
  ultimately show ?thesis using same w at False
    by (intro exI [of _ h'] exI [of _ n]) (simp add: msg_at_def)
qed

section \<open>Matching\<close>

lemma match_takes:
  assumes q: "req_at h r = Some q" "req_data q = Recv_Data d" "channel_ok (req_channel q)"
    and msgs: "msgs_ok (h_messages h) (h_recv_list h) ms mf"
  defines "c \<equiv> unat (req_channel q)"
  shows "(case List.find (\<lambda>a. tag_matches (msg_full_tag (msg_at h a)) (recv_tag d) (recv_tag_mask d))
             (ms c) of
       None \<Rightarrow> match_received h r = Inr h
     | Some n \<Rightarrow> \<exists>h'. match_received h r = Inr h' \<and>
         req_at h' = (req_at h)(r \<mapsto> with_message q (msg_at h n)) \<and>
         (\<exists>mf'. msgs_ok (h_messages h') (h_recv_list h') (ms(c := remove1 n (ms c))) mf') \<and>
         data_at (h_messages h') = data_at (h_messages h))"
proof -
  have match: "recv_match h q =
      List.find (\<lambda>a. tag_matches (msg_full_tag (msg_at h a)) (recv_tag d) (recv_tag_mask d)) (ms c)"
    using msgs_ok_received [OF msgs channel_lt [OF q(3)]] q(2) by (simp add: recv_match_def c_def)
  show ?thesis
  proof (cases "recv_match h q")
    case None
    then show ?thesis using match_received_none [OF q msgs] match by simp
  next
    case (Some n)
    from match_received_some [OF q msgs Some] obtain H' L' where
      run: "match_received h r =
        Inr (h\<lparr>h_requests := set_data (h_requests h) r (with_message q (msg_at h n)),
               h_messages := H', h_recv_list := (h_recv_list h)[c := L']\<rparr>)" and
      ok: "msgs_ok H' ((h_recv_list h)[c := L']) (ms(c := remove1 n (ms c))) (mf(c := n # mf c))" and
      data: "data_at H' = data_at (h_messages h)"
      unfolding c_def by blast
    have "data_at (set_data (h_requests h) r (with_message q (msg_at h n))) =
        (data_at (h_requests h))(r \<mapsto> with_message q (msg_at h n))"
      by (rule data_at_set_live) (use q(1) in \<open>simp add: req_at_def\<close>)
    then have "req_at (h\<lparr>h_requests := set_data (h_requests h) r (with_message q (msg_at h n)),
               h_messages := H', h_recv_list := (h_recv_list h)[c := L']\<rparr>) =
        (req_at h)(r \<mapsto> with_message q (msg_at h n))"
      by (simp add: req_at_def fun_eq_iff)
    then show ?thesis using run ok data Some match by auto
  qed
qed

section \<open>The way of a message\<close>

text \<open>
  The patterns of \<open>clh_recv\<close> and \<open>clh_recv_from\<close>; \<open>None\<close> stands for any sender.
\<close>

fun pattern_tag :: "clh_u32 \<Rightarrow> clh_i32 option \<Rightarrow> clh_u32 \<Rightarrow> clh_u64" where
  "pattern_tag c None t = clh_encode_tag c 0 t"
| "pattern_tag c (Some s) t = clh_encode_tag c s t"

fun pattern_mask :: "clh_i32 option \<Rightarrow> clh_u32 \<Rightarrow> clh_u64" where
  "pattern_mask None m = CHANNEL_MASK OR ucast m"
| "pattern_mask (Some s) m = CHANNEL_MASK OR SENDER_ID_MASK OR ucast m"

lemma pattern_matches:
  assumes "channel_ok c" and "sender_ok s" and "source = None \<or> source = Some s"
    and "t AND m = t' AND m"
  shows "tag_matches (clh_encode_tag c s t) (pattern_tag c source t') (pattern_mask source m)"
  using assms by (cases source) (auto simp: tag_matches_any tag_matches_source)

lemma find_snoc:
  "List.find P xs = None \<Longrightarrow> P x \<Longrightarrow> List.find P (xs @ [x]) = Some x"
  by (induction xs) (auto split: if_splits)

lemma find_cong_set: "(\<And>a. a \<in> set xs \<Longrightarrow> P a = Q a) \<Longrightarrow> List.find P xs = List.find Q xs"
  by (induction xs) auto

lemma ucx_recv_message:
  assumes "req_at h r = Some q" and "req_data q = Recv_Data d" and "recv_msg d \<noteq> 0"
  shows "ucx_recv U h r memh =
     (case ucp_tag_msg_recv_nbx U (h_world h) (buf_mem (recv_buffer d)) (buf_len (recv_buffer d))
             (recv_msg d) memh of (sp, u) \<Rightarrow> Inr (h\<lparr>h_world := u\<rparr>, sp))"
  using assms by (simp add: ucx_recv_def)

lemma delivered:
  assumes inv: "handle_inv h" and tag: "channel_ok c" "sender_ok s"
    and probe: "ucp_tag_probe_nb U (h_world h) 0 0 True = (g, infos, u')" "g \<noteq> 0"
      "info_sender_tag infos = clh_encode_tag c s t"
    and q: "req_at h r = Some q" "req_data q = Recv_Data d" "req_channel q = c"
    and asks: "recv_tag d = pattern_tag c source t'" "recv_tag_mask d = pattern_mask source m"
      "source = None \<or> source = Some s" "t AND m = t' AND m"
    and first: "recv_match h q = None"
  defines "d' \<equiv> d\<lparr>recv_msg := g\<rparr>"
  shows "\<exists>h1 h2. probe_incomming_messages U h = Inr h1 \<and> match_received h1 r = Inr h2 \<and>
     req_at h2 r = Some (q\<lparr>req_data := Recv_Data d', req_channel := c, req_source := s, req_tag := t\<rparr>) \<and>
     (\<forall>k < CLH_MAX_CHANNELS. received h2 k = received h k) \<and>
     ucx_recv U h2 r memh =
       (case ucp_tag_msg_recv_nbx U (h_world h2) (buf_mem (recv_buffer d)) (buf_len (recv_buffer d))
               g memh of (sp, u) \<Rightarrow> Inr (h2\<lparr>h_world := u\<rparr>, sp))"
proof -
  let ?M = "message_of g infos"
  have dec: "clh_decode_tag (info_sender_tag infos) = (c, s, t)" using probe(3) tag by simp
  then have M: "msg_channel ?M = c" "msg_sender_id ?M = s" "msg_sender_tag ?M = t"
      "msg_full_tag ?M = clh_encode_tag c s t" "msg_msg ?M = g"
    using probe(3) by (simp_all add: message_of_def)
  have c: "unat c < CLH_MAX_CHANNELS" by (rule channel_lt [OF tag(1)])
  from probe_files [OF inv probe(1)] probe(2) M(1) obtain h1 n where
    run1: "probe_incomming_messages U h = Inr h1" and inv1: "handle_inv h1" and
    same: "same_requests h h1" and at: "msg_at h1 n = ?M" and
    rec: "\<And>k. k < CLH_MAX_CHANNELS \<Longrightarrow>
       received h1 k = received h k @ (if k = unat c then [n] else [])" and
    old: "\<And>k a. k < CLH_MAX_CHANNELS \<Longrightarrow> a \<in> set (received h k) \<Longrightarrow> msg_at h1 a = msg_at h a"
    by auto
  have q1: "req_at h1 r = Some q" using same q(1) by (simp add: same_requests_def req_at_def)
  obtain ms mf where msgs: "msgs_ok (h_messages h1) (h_recv_list h1) ms mf"
    using inv1 by (auto simp: handle_inv_def handle_rep_def)
  have ms: "ms k = received h1 k" if "k < CLH_MAX_CHANNELS" for k
    using msgs_ok_received [OF msgs that] by simp
  let ?P = "\<lambda>h a. tag_matches (msg_full_tag (msg_at h a)) (recv_tag d) (recv_tag_mask d)"
  have "List.find (?P h1) (received h (unat c)) = List.find (?P h) (received h (unat c))"
    by (rule find_cong_set) (simp add: old [OF c])
  also have "\<dots> = None" using first q by (simp add: recv_match_def)
  finally have "List.find (?P h1) (received h (unat c) @ [n]) = Some n"
    by (rule find_snoc) (use pattern_matches [OF tag asks(3,4)] asks(1,2) at M(4) in simp)
  then have found: "List.find (?P h1) (ms (unat (req_channel q))) = Some n"
    using ms [OF c] rec [OF c] q(3) by simp
  have "channel_ok (req_channel q)" using q(3) tag(1) by simp
  from match_takes [OF q1 q(2) this msgs] found obtain h2 mf2 where
    run2: "match_received h1 r = Inr h2" and
    at2: "req_at h2 = (req_at h1)(r \<mapsto> with_message q (msg_at h1 n))" and
    msgs2: "msgs_ok (h_messages h2) (h_recv_list h2)
      (ms(unat c := remove1 n (ms (unat c)))) mf2"
    by (auto simp: q(3))
  have r2: "req_at h2 r =
      Some (q\<lparr>req_data := Recv_Data d', req_channel := c, req_source := s, req_tag := t\<rparr>)"
    using at2 q(2) at M by (simp add: with_message_def d'_def)
  have "distinct (ms (unat c))"
    using list_inv_distinct msgs_ok_list [OF msgs c] by fastforce
  then have "n \<notin> set (received h (unat c))" using ms [OF c] rec [OF c] by simp
  then have "received h2 k = received h k" if "k < CLH_MAX_CHANNELS" for k
    using msgs_ok_received [OF msgs2 that] ms [OF that] rec [OF that]
    by (cases "k = unat c") (simp_all add: remove1_append)
  moreover have "ucx_recv U h2 r memh =
      (case ucp_tag_msg_recv_nbx U (h_world h2) (buf_mem (recv_buffer d)) (buf_len (recv_buffer d))
              g memh of (sp, u) \<Rightarrow> Inr (h2\<lparr>h_world := u\<rparr>, sp))"
    using ucx_recv_message [OF r2, of d'] probe(2) by (simp add: d'_def)
  ultimately show ?thesis using run1 run2 r2 by blast
qed

end
