(* ===== verification/Clh_Wait.thy ===== *)
theory Clh_Wait
  imports Clh_Interfaces
begin

text \<open>
  Threads: the mutexes and condition variables of thread.c between several threads,
  \<open>clh_wait\<close> against \<open>CLH_COMPLETE_REQUEST\<close>, and the hand-shake of \<open>start_\<close> with \<open>run_\<close>. The
  relations let the threads take turns in any order, and let a condition variable wake a thread
  without a notification, as POSIX allows.
\<close>

section \<open>Mutexes and condition variables between threads\<close>

datatype clh_thread = User nat | Worker

record sync =
  sync_holder :: "clh_thread option"
  sync_asleep :: "clh_thread list"

definition sync_create :: sync where
  "sync_create = \<lparr>sync_holder = None, sync_asleep = []\<rparr>"

text \<open>\<open>None\<close>: the thread blocks.\<close>

definition mt_mutex_lock :: "clh_thread \<Rightarrow> sync \<Rightarrow> sync option" where
  "mt_mutex_lock t s =
     (case sync_holder s of None \<Rightarrow> Some (s\<lparr>sync_holder := Some t\<rparr>) | Some _ \<Rightarrow> None)"

definition mt_mutex_unlock :: "clh_thread \<Rightarrow> sync \<Rightarrow> sync res" where
  "mt_mutex_unlock t s =
     (if sync_holder s = Some t then Inr (s\<lparr>sync_holder := None\<rparr>) else Inl Unlock_Not_Held)"

text \<open>The result of \<open>clh_trylock_region_init\<close> is the \<open>done\<close> flag of the region: true when busy.\<close>

definition clh_trylock_region_init :: "clh_thread \<Rightarrow> sync \<Rightarrow> sync \<times> bool" where
  "clh_trylock_region_init t s =
     (case mt_mutex_lock t s of None \<Rightarrow> (s, True) | Some s \<Rightarrow> (s, False))"

text \<open>
  Waiting gives the mutex up and puts the thread to sleep in one step; a thread that was woken
  takes the mutex again before the call returns.
\<close>

definition clh_conditional_variable_wait :: "clh_thread \<Rightarrow> sync \<Rightarrow> sync res" where
  "clh_conditional_variable_wait t s =
     ebind (mt_mutex_unlock t s) (\<lambda>s. Inr (s\<lparr>sync_asleep := t # sync_asleep s\<rparr>))"

definition wake :: "clh_thread \<Rightarrow> sync \<Rightarrow> sync" where
  "wake t s = s\<lparr>sync_asleep := removeAll t (sync_asleep s)\<rparr>"

text \<open>\<open>t\<close> is the thread the system chooses among those asleep, if any.\<close>

definition clh_conditional_variable_notify_one :: "clh_thread \<Rightarrow> sync \<Rightarrow> sync" where
  "clh_conditional_variable_notify_one t s =
     (if t \<in> set (sync_asleep s) then wake t s else s)"

definition notify_choice :: "clh_thread \<Rightarrow> sync \<Rightarrow> bool" where
  "notify_choice t s \<longleftrightarrow> sync_asleep s = [] \<or> t \<in> set (sync_asleep s)"

definition clh_conditional_variable_notify_all :: "sync \<Rightarrow> sync" where
  "clh_conditional_variable_notify_all s = s\<lparr>sync_asleep := []\<rparr>"

text \<open>Destroying a condition variable with a thread asleep on it is undefined.\<close>

definition clh_conditional_variable_destroy :: "sync \<Rightarrow> unit res" where
  "clh_conditional_variable_destroy s =
     (if sync_asleep s = [] then Inr () else Inl Mutex_Busy)"

text \<open>
  The allocator of the requests: what \<open>clh_request_allocate_\<close> sets up in the fresh node besides the
  memory, and what \<open>clh_request_free_\<close> destroys before it frees the node.
\<close>

definition clh_request_allocate :: sync where
  "clh_request_allocate = sync_create"

definition clh_request_free :: "sync \<Rightarrow> unit res" where
  "clh_request_free s =
     ebind (clh_mutex_destroy (sync_holder s \<noteq> None)) (\<lambda>_. clh_conditional_variable_destroy s)"

section \<open>Waiting for a request\<close>

text \<open>
  Where a thread is in \<open>clh_wait\<close>, and where the worker is in \<open>CLH_COMPLETE_REQUEST\<close>.
\<close>

datatype wait_pc = At_Lock | At_Test | In_Wait | At_Unlock | Returned

datatype complete_pc = Before_Lock | Before_Set | Before_Notify | Before_Unlock | Finished

record wait_state =
  ws_sync :: sync
  ws_completed :: bool
  ws_pc :: "nat \<Rightarrow> wait_pc"
  ws_worker :: complete_pc

definition wait_go :: "wait_state \<Rightarrow> nat \<Rightarrow> sync \<Rightarrow> wait_pc \<Rightarrow> wait_state" where
  "wait_go s i y p = s\<lparr>ws_sync := y, ws_pc := (ws_pc s)(i := p)\<rparr>"

text \<open>The steps of one call of \<open>clh_wait\<close> by the thread \<open>User i\<close>.\<close>

inductive clh_wait_step :: "nat \<Rightarrow> wait_state \<Rightarrow> wait_state \<Rightarrow> bool" for i where
  lock: "ws_pc s i = At_Lock \<Longrightarrow> mt_mutex_lock (User i) (ws_sync s) = Some y \<Longrightarrow>
    clh_wait_step i s (wait_go s i y At_Test)"
| test_done: "ws_pc s i = At_Test \<Longrightarrow> ws_completed s \<Longrightarrow>
    clh_wait_step i s (wait_go s i (ws_sync s) At_Unlock)"
| test_wait: "ws_pc s i = At_Test \<Longrightarrow> \<not> ws_completed s \<Longrightarrow>
    clh_conditional_variable_wait (User i) (ws_sync s) = Inr y \<Longrightarrow>
    clh_wait_step i s (wait_go s i y In_Wait)"
| relock: "ws_pc s i = In_Wait \<Longrightarrow> User i \<notin> set (sync_asleep (ws_sync s)) \<Longrightarrow>
    mt_mutex_lock (User i) (ws_sync s) = Some y \<Longrightarrow> clh_wait_step i s (wait_go s i y At_Test)"
| unlock: "ws_pc s i = At_Unlock \<Longrightarrow> mt_mutex_unlock (User i) (ws_sync s) = Inr y \<Longrightarrow>
    clh_wait_step i s (wait_go s i y Returned)"

definition worker_go :: "wait_state \<Rightarrow> sync \<Rightarrow> bool \<Rightarrow> complete_pc \<Rightarrow> wait_state" where
  "worker_go s y b p = s\<lparr>ws_sync := y, ws_completed := b, ws_worker := p\<rparr>"

inductive complete_step :: "wait_state \<Rightarrow> wait_state \<Rightarrow> bool" where
  lock: "ws_worker s = Before_Lock \<Longrightarrow> mt_mutex_lock Worker (ws_sync s) = Some y \<Longrightarrow>
    complete_step s (worker_go s y (ws_completed s) Before_Set)"
| complete: "ws_worker s = Before_Set \<Longrightarrow>
    complete_step s (worker_go s (ws_sync s) True Before_Notify)"
| notify: "ws_worker s = Before_Notify \<Longrightarrow> notify_choice t (ws_sync s) \<Longrightarrow>
    complete_step s (worker_go s (clh_conditional_variable_notify_one t (ws_sync s))
      (ws_completed s) Before_Unlock)"
| unlock: "ws_worker s = Before_Unlock \<Longrightarrow> mt_mutex_unlock Worker (ws_sync s) = Inr y \<Longrightarrow>
    complete_step s (worker_go s y (ws_completed s) Finished)"

text \<open>A step of the program, and a wake-up without notification.\<close>

inductive program_step :: "wait_state \<Rightarrow> wait_state \<Rightarrow> bool" where
  user: "clh_wait_step i s s' \<Longrightarrow> program_step s s'"
| worker: "complete_step s s' \<Longrightarrow> program_step s s'"

inductive spurious_step :: "wait_state \<Rightarrow> wait_state \<Rightarrow> bool" where
  "t \<in> set (sync_asleep (ws_sync s)) \<Longrightarrow> spurious_step s (s\<lparr>ws_sync := wake t (ws_sync s)\<rparr>)"

definition wait_step :: "wait_state \<Rightarrow> wait_state \<Rightarrow> bool" where
  "wait_step s s' \<longleftrightarrow> program_step s s' \<or> spurious_step s s'"

text \<open>The threads below \<open>n\<close> call \<open>clh_wait\<close>, the others have nothing to do with the request.\<close>

definition wait_init :: "nat \<Rightarrow> wait_state" where
  "wait_init n = \<lparr>ws_sync = clh_request_allocate, ws_completed = False,
     ws_pc = (\<lambda>i. if i < n then At_Lock else Returned), ws_worker = Before_Lock\<rparr>"

section \<open>The invariant\<close>

definition in_region :: "wait_pc \<Rightarrow> bool" where
  "in_region p \<longleftrightarrow> p = At_Test \<or> p = At_Unlock"

definition worker_in_region :: "complete_pc \<Rightarrow> bool" where
  "worker_in_region p \<longleftrightarrow> p = Before_Set \<or> p = Before_Notify \<or> p = Before_Unlock"

definition wait_inv :: "nat \<Rightarrow> wait_state \<Rightarrow> bool" where
  "wait_inv n s \<longleftrightarrow>
     (\<forall>i. sync_holder (ws_sync s) = Some (User i) \<longleftrightarrow> in_region (ws_pc s i)) \<and>
     (sync_holder (ws_sync s) = Some Worker \<longleftrightarrow> worker_in_region (ws_worker s)) \<and>
     (\<forall>t \<in> set (sync_asleep (ws_sync s)). \<exists>i. t = User i \<and> ws_pc s i = In_Wait) \<and>
     (ws_completed s \<longleftrightarrow> ws_worker s \<noteq> Before_Lock \<and> ws_worker s \<noteq> Before_Set) \<and>
     (\<forall>i < n. ws_pc s i = At_Unlock \<or> ws_pc s i = Returned \<longrightarrow> ws_completed s) \<and>
     (\<forall>i \<ge> n. ws_pc s i = Returned)"

lemma wait_init_inv: "wait_inv n (wait_init n)"
  by (simp add: wait_inv_def wait_init_def clh_request_allocate_def sync_create_def in_region_def worker_in_region_def)

lemmas sync_defs = mt_mutex_lock_def mt_mutex_unlock_def clh_conditional_variable_wait_def
  wake_def clh_conditional_variable_notify_one_def

lemma holder_lock:
  "mt_mutex_lock t s = Some y \<longleftrightarrow> sync_holder s = None \<and> y = s\<lparr>sync_holder := Some t\<rparr>"
  by (auto simp: mt_mutex_lock_def split: option.splits)

lemma holder_unlock:
  "mt_mutex_unlock t s = Inr y \<longleftrightarrow> sync_holder s = Some t \<and> y = s\<lparr>sync_holder := None\<rparr>"
  by (auto simp: mt_mutex_unlock_def)

lemma holder_wait:
  "clh_conditional_variable_wait t s = Inr y \<longleftrightarrow>
     sync_holder s = Some t \<and> y = s\<lparr>sync_holder := None, sync_asleep := t # sync_asleep s\<rparr>"
  by (auto simp: clh_conditional_variable_wait_def mt_mutex_unlock_def)

lemmas sync_steps = holder_lock holder_unlock holder_wait

lemma wait_invD:
  assumes "wait_inv n s"
  shows "sync_holder (ws_sync s) = Some (User i) \<longleftrightarrow> in_region (ws_pc s i)"
    and "sync_holder (ws_sync s) = Some Worker \<longleftrightarrow> worker_in_region (ws_worker s)"
    and "i < n \<Longrightarrow> ws_pc s i = At_Unlock \<or> ws_pc s i = Returned \<Longrightarrow> ws_completed s"
    and "ws_pc s i \<noteq> Returned \<Longrightarrow> i < n"
    and "ws_pc s i \<noteq> In_Wait \<Longrightarrow> User i \<notin> set (sync_asleep (ws_sync s))"
    and "ws_completed s \<longleftrightarrow> ws_worker s \<noteq> Before_Lock \<and> ws_worker s \<noteq> Before_Set"
proof -
  show "ws_pc s i \<noteq> Returned \<Longrightarrow> i < n" using assms by (metis not_less wait_inv_def)
qed (use assms in \<open>auto simp: wait_inv_def\<close>)

text \<open>A move of one thread that leaves the mutex with that thread or free.\<close>

lemma wait_go_inv:
  assumes inv: "wait_inv n s" and i: "i < n"
    and before: "sync_holder (ws_sync s) = None \<or> sync_holder (ws_sync s) = Some (User i)"
    and after: "sync_holder y = (if in_region p then Some (User i) else None)"
    and asleep: "set (sync_asleep y) \<subseteq> insert (User i) (set (sync_asleep (ws_sync s)))"
    and awake: "p \<noteq> In_Wait \<longrightarrow> User i \<notin> set (sync_asleep y)"
    and ends: "p = At_Unlock \<or> p = Returned \<longrightarrow> ws_completed s"
  shows "wait_inv n (wait_go s i y p)"
proof -
  have others: "\<not> in_region (ws_pc s j)" if "j \<noteq> i" for j
    using wait_invD(1) [OF inv, of j] before that by auto
  have "sync_holder y = Some (User j) \<longleftrightarrow> in_region (((ws_pc s)(i := p)) j)" for j
    using after others by (cases "j = i") auto
  moreover have "\<not> worker_in_region (ws_worker s)" "sync_holder y \<noteq> Some Worker"
    using inv before after by (auto simp: wait_inv_def)
  moreover have "\<exists>j. t = User j \<and> ((ws_pc s)(i := p)) j = In_Wait" if t: "t \<in> set (sync_asleep y)" for t
  proof (cases "t = User i")
    case True
    then show ?thesis using awake t by auto
  next
    case False
    then have "t \<in> set (sync_asleep (ws_sync s))" using asleep t by auto
    then obtain j where "t = User j" "ws_pc s j = In_Wait" using inv by (auto simp: wait_inv_def)
    then show ?thesis using False by auto
  qed
  moreover have "((ws_pc s)(i := p)) j = Returned" if "j \<ge> n" for j
    using inv i that by (auto simp: wait_inv_def)
  moreover have "ws_completed s" if "j < n" "((ws_pc s)(i := p)) j = At_Unlock \<or> ((ws_pc s)(i := p)) j = Returned" for j
    using inv ends that by (cases "j = i") (auto simp: wait_inv_def)
  ultimately show ?thesis using inv by (simp add: wait_inv_def wait_go_def)
qed

lemma user_step_moves: "clh_wait_step i s s' \<Longrightarrow> wait_inv n s \<Longrightarrow> i < n"
  by (rule wait_invD(4)) (auto elim: clh_wait_step.cases)

lemma wait_step_user_inv:
  assumes step: "clh_wait_step i s s'" and inv: "wait_inv n s"
  shows "wait_inv n s'"
proof -
  note i = user_step_moves [OF step inv]
  note go = wait_go_inv [OF inv i] and facts = wait_invD(1,3,5) [OF inv, of i]
  from step show ?thesis
    using facts i by cases (auto simp: sync_steps in_region_def intro!: go)
qed

lemma complete_step_inv:
  assumes "complete_step s s'" and inv: "wait_inv n s"
  shows "wait_inv n s'"
  using assms
  by cases (auto simp: wait_inv_def worker_go_def sync_steps in_region_def worker_in_region_def
      clh_conditional_variable_notify_one_def wake_def)

lemma spurious_step_inv: "spurious_step s s' \<Longrightarrow> wait_inv n s \<Longrightarrow> wait_inv n s'"
  by (cases rule: spurious_step.cases) (auto simp: wait_inv_def wake_def)

lemma wait_step_inv: "wait_step s s' \<Longrightarrow> wait_inv n s \<Longrightarrow> wait_inv n s'"
  by (auto simp: wait_step_def program_step.simps
      dest: wait_step_user_inv complete_step_inv spurious_step_inv)

interpretation wt: invariant_system wait_step "wait_inv n" for n
  by unfold_locales (rule wait_step_inv)

lemma wait_reach_inv: "wait_step\<^sup>*\<^sup>* (wait_init n) s \<Longrightarrow> wait_inv n s"
  by (rule wt.reach_inv [OF _ wait_init_inv])

section \<open>Every call ends\<close>

text \<open>
  Without spurious wake-ups every step of the program lowers a rank, whatever the number of
  threads that wait.
\<close>

definition user_rank :: "wait_state \<Rightarrow> nat \<Rightarrow> nat" where
  "user_rank s i =
     (case ws_pc s i of
        At_Lock \<Rightarrow> 6
      | At_Test \<Rightarrow> (if ws_completed s then 2 else 5)
      | In_Wait \<Rightarrow> (if User i \<in> set (sync_asleep (ws_sync s)) then 4
                    else if ws_completed s then 3 else 6)
      | At_Unlock \<Rightarrow> 1
      | Returned \<Rightarrow> 0)"

definition worker_rank :: "complete_pc \<Rightarrow> nat" where
  "worker_rank p = (case p of Before_Lock \<Rightarrow> 4 | Before_Set \<Rightarrow> 3 | Before_Notify \<Rightarrow> 2
                     | Before_Unlock \<Rightarrow> 1 | Finished \<Rightarrow> 0)"

definition wait_rank :: "nat \<Rightarrow> wait_state \<Rightarrow> nat" where
  "wait_rank n s = worker_rank (ws_worker s) + (\<Sum>i < n. user_rank s i)"

lemma user_step_rank:
  assumes step: "clh_wait_step i s s'" and inv: "wait_inv n s"
  shows "wait_rank n s' < wait_rank n s"
proof -
  have i: "i < n" by (rule user_step_moves [OF step inv])
  have own: "user_rank s' i < user_rank s i"
    using step by cases (auto simp: user_rank_def wait_go_def sync_steps)
  have others: "user_rank s' j = user_rank s j" if "j \<noteq> i" for j
    using step that by cases (auto simp: user_rank_def wait_go_def sync_steps split: wait_pc.split)
  have "ws_worker s' = ws_worker s" using step by cases (auto simp: wait_go_def)
  moreover have "(\<Sum>j < n. user_rank s' j) < (\<Sum>j < n. user_rank s j)"
  proof (rule sum_strict_mono_ex1)
    show "\<forall>j \<in> {..<n}. user_rank s' j \<le> user_rank s j"
      using own others by (metis less_imp_le order_refl)
    show "\<exists>j \<in> {..<n}. user_rank s' j < user_rank s j" using own i by blast
  qed simp
  ultimately show ?thesis by (simp add: wait_rank_def)
qed

lemma complete_step_rank:
  assumes step: "complete_step s s'" and inv: "wait_inv n s"
  shows "wait_rank n s' < wait_rank n s"
proof -
  have "user_rank s' i \<le> user_rank s i" for i
    using step inv by cases (auto simp: user_rank_def worker_go_def sync_steps wait_inv_def
        clh_conditional_variable_notify_one_def wake_def split: wait_pc.split)
  then have "(\<Sum>i < n. user_rank s' i) \<le> (\<Sum>i < n. user_rank s i)" by (rule sum_mono)
  moreover have "worker_rank (ws_worker s') < worker_rank (ws_worker s)"
    using step by cases (auto simp: worker_rank_def worker_go_def)
  ultimately show ?thesis by (simp add: wait_rank_def)
qed

lemma program_step_inv: "program_step s s' \<Longrightarrow> wait_inv n s \<Longrightarrow> wait_inv n s'"
  using wait_step_inv by (auto simp: wait_step_def)

lemma program_step_rank: "program_step s s' \<Longrightarrow> wait_inv n s \<Longrightarrow> wait_rank n s' < wait_rank n s"
  by (auto simp: program_step.simps dest: user_step_rank complete_step_rank)

lemma program_run_rank:
  "(program_step ^^ k) s s' \<Longrightarrow> wait_inv n s \<Longrightarrow> wait_inv n s' \<and> k + wait_rank n s' \<le> wait_rank n s"
proof (induction k arbitrary: s')
  case (Suc k)
  then obtain s1 where s1: "(program_step ^^ k) s s1" "program_step s1 s'" by auto
  then show ?case
    using Suc.IH [OF s1(1) Suc.prems(2)] program_step_inv [OF s1(2)] program_step_rank [OF s1(2)]
    by fastforce
qed simp

section \<open>One thread that waits\<close>

text \<open>With a single waiting thread nobody is asleep any more once the worker has notified.\<close>

definition no_lost_wakeup :: "wait_state \<Rightarrow> bool" where
  "no_lost_wakeup s \<longleftrightarrow>
     (ws_worker s = Before_Unlock \<or> ws_worker s = Finished \<longrightarrow> sync_asleep (ws_sync s) = [])"

lemma only_user_0:
  assumes "wait_inv 1 s" and "t \<in> set (sync_asleep (ws_sync s))"
  shows "t = User 0"
proof -
  from assms obtain i where i: "t = User i" "ws_pc s i = In_Wait" by (auto simp: wait_inv_def)
  then have "i < 1" using wait_invD(4) [OF assms(1), of i] by simp
  then show ?thesis using i by simp
qed

lemma wait_step_no_lost_wakeup:
  assumes "wait_step s s'" and inv: "wait_inv 1 s" and "no_lost_wakeup s"
  shows "no_lost_wakeup s'"
  using assms(1) unfolding wait_step_def program_step.simps
proof (elim disjE exE conjE)
  fix t t' i assume "s = t" "s' = t'" "clh_wait_step i t t'"
  then have "clh_wait_step i s s'" by simp
  then show ?thesis
    using assms(3) wait_invD(6) [OF inv]
    by cases (auto simp: no_lost_wakeup_def wait_go_def sync_steps)
next
  fix t t' assume "s = t" "s' = t'" "complete_step t t'"
  then have "complete_step s s'" by simp
  then show ?thesis
  proof cases
    case (notify t)
    have "removeAll t (sync_asleep (ws_sync s)) = []" if "t \<in> set (sync_asleep (ws_sync s))"
      using only_user_0 [OF inv] that by (auto simp: removeAll_filter_not_eq filter_empty_conv)
    then show ?thesis
      using notify by (auto simp: no_lost_wakeup_def worker_go_def notify_choice_def
          clh_conditional_variable_notify_one_def wake_def)
  qed (use assms(3) in \<open>auto simp: no_lost_wakeup_def worker_go_def sync_steps\<close>)
next
  assume "spurious_step s s'"
  then show ?thesis using assms(3) by cases (auto simp: no_lost_wakeup_def wake_def)
qed

interpretation wt1: invariant_system wait_step "\<lambda>s. wait_inv 1 s \<and> no_lost_wakeup s"
  by unfold_locales (auto intro: wait_step_inv wait_step_no_lost_wakeup)

lemma wait_reach_one: "wait_step\<^sup>*\<^sup>* (wait_init 1) s \<Longrightarrow> wait_inv 1 s \<and> no_lost_wakeup s"
  by (rule wt1.reach_inv, assumption, rule conjI, rule wait_init_inv)
    (simp add: no_lost_wakeup_def wait_init_def)

text \<open>As long as the call has not returned or the worker has not finished, some thread can move.\<close>

lemma wait_progress:
  assumes inv: "wait_inv 1 s" and wake: "no_lost_wakeup s" and stuck: "\<nexists>s'. program_step s s'"
  shows "ws_pc s 0 = Returned \<and> ws_worker s = Finished"
proof (rule ccontr)
  assume not: "\<not> (ws_pc s 0 = Returned \<and> ws_worker s = Finished)"
  let ?y = "ws_sync s"
  have user: "clh_wait_step 0 s s' \<Longrightarrow> False" and worker: "complete_step s s' \<Longrightarrow> False" for s'
    using stuck program_step.intros by blast+
  have wk: "ws_worker s \<noteq> Before_Set" "ws_worker s \<noteq> Before_Notify" "ws_worker s \<noteq> Before_Unlock"
  proof -
    show "ws_worker s \<noteq> Before_Set" using worker complete_step.complete by blast
    show "ws_worker s \<noteq> Before_Notify"
    proof
      assume n: "ws_worker s = Before_Notify"
      have "\<exists>t. notify_choice t ?y"
        by (cases "sync_asleep ?y") (auto simp: notify_choice_def)
      then show False using worker complete_step.notify n by blast
    qed
    show "ws_worker s \<noteq> Before_Unlock"
    proof
      assume n: "ws_worker s = Before_Unlock"
      then have "sync_holder ?y = Some Worker" using wait_invD(2) [OF inv] by (simp add: worker_in_region_def)
      then show False using worker complete_step.unlock [OF n] holder_unlock by blast
    qed
  qed
  have ur: "\<not> in_region (ws_pc s 0)"
  proof
    assume r: "in_region (ws_pc s 0)"
    then have h: "sync_holder ?y = Some (User 0)" using wait_invD(1) [OF inv] by simp
    from r consider "ws_pc s 0 = At_Test" | "ws_pc s 0 = At_Unlock" by (auto simp: in_region_def)
    then show False
    proof cases
      case 1
      then show False
        using user clh_wait_step.test_done clh_wait_step.test_wait h holder_wait by (cases "ws_completed s") blast+
    next
      case 2
      then show False using user clh_wait_step.unlock h holder_unlock by blast
    qed
  qed
  have "i \<noteq> 0 \<Longrightarrow> \<not> in_region (ws_pc s i)" for i
    using wait_invD(4) [OF inv, of i] by (auto simp: in_region_def)
  then have "\<not> in_region (ws_pc s i)" for i using ur by (cases "i = 0") auto
  then have free: "sync_holder ?y = None"
    using wait_invD(1,2) [OF inv] wk
    by (cases "sync_holder ?y"; metis clh_thread.exhaust worker_in_region_def)
  then have lock: "mt_mutex_lock t ?y = Some (?y\<lparr>sync_holder := Some t\<rparr>)" for t by (simp add: holder_lock)
  have fin: "ws_worker s = Finished"
  proof (rule ccontr)
    assume "ws_worker s \<noteq> Finished"
    then have "ws_worker s = Before_Lock" using wk by (cases "ws_worker s") auto
    then show False using worker complete_step.lock lock by blast
  qed
  then have "sync_asleep ?y = []" using wake by (simp add: no_lost_wakeup_def)
  then show False
    using not fin ur user clh_wait_step.lock [OF _ lock] clh_wait_step.relock [OF _ _ lock]
    by (cases "ws_pc s 0") (auto simp: in_region_def)
qed

lemma wait_rank_bound: "wait_rank n s \<le> 4 + 6 * n"
proof -
  have "(\<Sum>i < n. user_rank s i) \<le> (\<Sum>i < n. 6)"
    by (rule sum_mono) (simp add: user_rank_def split: wait_pc.split)
  moreover have "worker_rank (ws_worker s) \<le> 4" by (simp add: worker_rank_def split: complete_pc.split)
  ultimately show ?thesis by (simp add: wait_rank_def)
qed

text \<open>
  From any state reached, spurious wake-ups included, the program makes at most ten more steps
  before the call has returned and the worker is through.
\<close>

lemma wait_runs_end:
  assumes "wait_step\<^sup>*\<^sup>* (wait_init 1) s" and "(program_step ^^ k) s s'"
  shows "k \<le> 10 \<and> ((\<nexists>s''. program_step s' s'') \<longrightarrow> ws_pc s' 0 = Returned \<and> ws_worker s' = Finished)"
proof -
  note reach = wait_reach_one [OF assms(1)]
  have "k + wait_rank 1 s' \<le> wait_rank 1 s" using program_run_rank [OF assms(2)] reach by blast
  then have "k \<le> 10" using wait_rank_bound [of 1 s] by simp
  moreover have "program_step\<^sup>*\<^sup>* s s'" using assms(2) by (rule relpowp_imp_rtranclp)
  then have "wait_step\<^sup>*\<^sup>* s s'" by (rule rtranclp_mono [THEN predicate2D, rotated]) (auto simp: wait_step_def)
  then have "wait_step\<^sup>*\<^sup>* (wait_init 1) s'" using assms(1) by (metis rtranclp_trans)
  from wait_reach_one [OF this] have "(\<nexists>s''. program_step s' s'') \<longrightarrow>
      ws_pc s' 0 = Returned \<and> ws_worker s' = Finished"
    using wait_progress by blast
  ultimately show ?thesis by blast
qed

section \<open>Two threads that wait\<close>

text \<open>
  The worker notifies one thread only. Two threads that wait for the same request can end with
  one of them asleep for ever.
\<close>

definition two_waiters ::
  "clh_thread option \<Rightarrow> clh_thread list \<Rightarrow> bool \<Rightarrow> wait_pc \<Rightarrow> wait_pc \<Rightarrow> complete_pc \<Rightarrow> wait_state" where
  "two_waiters t ts b p0 p1 w =
     \<lparr>ws_sync = \<lparr>sync_holder = t, sync_asleep = ts\<rparr>, ws_completed = b,
      ws_pc = (\<lambda>i. if i = 0 then p0 else if i = 1 then p1 else Returned), ws_worker = w\<rparr>"

lemma two_user_step:
  "clh_wait_step i s s' \<Longrightarrow> wait_step\<^sup>*\<^sup>* r s \<Longrightarrow> wait_step\<^sup>*\<^sup>* r s'"
  by (rule rtranclp.rtrancl_into_rtrancl) (auto simp: wait_step_def intro: program_step.user)

lemma two_worker_step:
  "complete_step s s' \<Longrightarrow> wait_step\<^sup>*\<^sup>* r s \<Longrightarrow> wait_step\<^sup>*\<^sup>* r s'"
  by (rule rtranclp.rtrancl_into_rtrancl) (auto simp: wait_step_def intro: program_step.worker)

lemma two_waiters_reach:
  "wait_step\<^sup>*\<^sup>* (wait_init 2) (two_waiters None [User 1] True Returned In_Wait Finished)"
proof -
  note simps = clh_wait_step.simps complete_step.simps two_waiters_def wait_go_def worker_go_def
    sync_steps wake_def clh_conditional_variable_notify_one_def notify_choice_def fun_eq_iff
  have "wait_init 2 = two_waiters None [] False At_Lock At_Lock Before_Lock"
    by (auto simp: wait_init_def two_waiters_def clh_request_allocate_def sync_create_def fun_eq_iff)
  then have "wait_step\<^sup>*\<^sup>* (wait_init 2) (two_waiters None [] False At_Lock At_Lock Before_Lock)" by simp
  then have "wait_step\<^sup>*\<^sup>* (wait_init 2) (two_waiters (Some (User 0)) [] False At_Test At_Lock Before_Lock)"
    by (rule two_user_step [of 0, rotated]) (simp add: simps)
  then have "wait_step\<^sup>*\<^sup>* (wait_init 2) (two_waiters None [User 0] False In_Wait At_Lock Before_Lock)"
    by (rule two_user_step [of 0, rotated]) (simp add: simps)
  then have "wait_step\<^sup>*\<^sup>* (wait_init 2) (two_waiters (Some (User 1)) [User 0] False In_Wait At_Test Before_Lock)"
    by (rule two_user_step [of 1, rotated]) (simp add: simps)
  then have "wait_step\<^sup>*\<^sup>* (wait_init 2) (two_waiters None [User 1, User 0] False In_Wait In_Wait Before_Lock)"
    by (rule two_user_step [of 1, rotated]) (simp add: simps)
  then have "wait_step\<^sup>*\<^sup>* (wait_init 2) (two_waiters (Some Worker) [User 1, User 0] False In_Wait In_Wait Before_Set)"
    by (rule two_worker_step [rotated]) (simp add: simps)
  then have "wait_step\<^sup>*\<^sup>* (wait_init 2) (two_waiters (Some Worker) [User 1, User 0] True In_Wait In_Wait Before_Notify)"
    by (rule two_worker_step [rotated]) (simp add: simps)
  then have "wait_step\<^sup>*\<^sup>* (wait_init 2) (two_waiters (Some Worker) [User 1] True In_Wait In_Wait Before_Unlock)"
    by (rule two_worker_step [rotated]) (simp add: simps, rule exI [of _ "User 0"], simp)
  then have "wait_step\<^sup>*\<^sup>* (wait_init 2) (two_waiters None [User 1] True In_Wait In_Wait Finished)"
    by (rule two_worker_step [rotated]) (simp add: simps)
  then have "wait_step\<^sup>*\<^sup>* (wait_init 2) (two_waiters (Some (User 0)) [User 1] True At_Test In_Wait Finished)"
    by (rule two_user_step [of 0, rotated]) (simp add: simps)
  then have "wait_step\<^sup>*\<^sup>* (wait_init 2) (two_waiters (Some (User 0)) [User 1] True At_Unlock In_Wait Finished)"
    by (rule two_user_step [of 0, rotated]) (simp add: simps)
  then show ?thesis
    by (rule two_user_step [of 0, rotated]) (simp add: simps)
qed

lemma two_waiters_stuck:
  "\<not> program_step (two_waiters None [User 1] True Returned In_Wait Finished) s"
  by (auto simp: program_step.simps clh_wait_step.simps complete_step.simps two_waiters_def split: if_splits)

text \<open>
  Once everybody who waited has returned and the worker is through, the request can be destroyed;
  with the second thread asleep it cannot.
\<close>

lemma wait_over_free:
  assumes inv: "wait_inv n s" and over: "\<forall>i. ws_pc s i = Returned" "ws_worker s = Finished"
  shows "clh_request_free (ws_sync s) = Inr ()"
proof -
  have "sync_holder (ws_sync s) = None"
  proof (cases "sync_holder (ws_sync s)")
    case (Some t)
    then show ?thesis
      using wait_invD(1,2) [OF inv] over by (cases t) (auto simp: in_region_def worker_in_region_def)
  qed
  moreover have "sync_asleep (ws_sync s) = []"
    using inv over(1) by (cases "sync_asleep (ws_sync s)") (auto simp: wait_inv_def)
  ultimately show ?thesis
    by (simp add: clh_request_free_def clh_mutex_destroy_def clh_conditional_variable_destroy_def)
qed

lemma stuck_not_free:
  "clh_request_free (ws_sync (two_waiters None [User 1] True Returned In_Wait Finished)) =
     Inl Mutex_Busy"
  by (simp add: clh_request_free_def clh_mutex_destroy_def clh_conditional_variable_destroy_def
      two_waiters_def)

section \<open>The hand-shake of \<open>start_\<close> and \<open>run_\<close>\<close>

text \<open>
  \<open>start_\<close> waits on \<open>init_cv\<close> with a mutex it has not locked, which POSIX leaves undefined.
\<close>

lemma start_wait_undefined:
  "clh_conditional_variable_wait (User 0) sync_create = Inl Unlock_Not_Held"
  by (simp add: clh_conditional_variable_wait_def mt_mutex_unlock_def sync_create_def)

text \<open>
  Where the unlock of a free mutex has no effect, the wait puts the thread to sleep. Nothing
  tells the caller whether the worker has notified already or has initialised UCX at all. Once
  awake, \<open>start_\<close> destroys the condition variable and the mutex.
\<close>

datatype start_pc = Before_Spawn | Before_Wait | Start_Waits | Start_Awake | Start_Destroyed

datatype run_pc = Not_Spawned | Run_Init | Run_Flag | Run_Notify | Run_Loop

record start_state =
  ss_sync :: sync
  ss_cv_live :: bool
  ss_run :: bool
  ss_main :: start_pc
  ss_worker :: run_pc

definition start_wait :: "clh_thread \<Rightarrow> sync \<Rightarrow> sync" where
  "start_wait t s = s\<lparr>sync_asleep := t # sync_asleep s\<rparr>"

text \<open>The new thread starts at the beginning of its function.\<close>

definition clh_thread_spawn :: "start_state \<Rightarrow> start_state" where
  "clh_thread_spawn s = s\<lparr>ss_worker := Run_Init\<rparr>"

text \<open>The worker can only notify a condition variable that is there.\<close>

inductive start_step :: "start_state \<Rightarrow> start_state \<Rightarrow> bool" where
  main_spawn: "ss_main s = Before_Spawn \<Longrightarrow>
    start_step s ((clh_thread_spawn s)\<lparr>ss_main := Before_Wait\<rparr>)"
| main_wait: "ss_main s = Before_Wait \<Longrightarrow>
    start_step s (s\<lparr>ss_sync := start_wait (User 0) (ss_sync s), ss_main := Start_Waits\<rparr>)"
| main_awake: "ss_main s = Start_Waits \<Longrightarrow> User 0 \<notin> set (sync_asleep (ss_sync s)) \<Longrightarrow>
    mt_mutex_lock (User 0) (ss_sync s) = Some y \<Longrightarrow>
    start_step s (s\<lparr>ss_sync := y, ss_main := Start_Awake\<rparr>)"
| main_destroy: "ss_main s = Start_Awake \<Longrightarrow>
    clh_conditional_variable_destroy (ss_sync s) = Inr () \<Longrightarrow>
    start_step s (s\<lparr>ss_cv_live := False, ss_main := Start_Destroyed\<rparr>)"
| worker_init: "ss_worker s = Run_Init \<Longrightarrow> start_step s (s\<lparr>ss_worker := Run_Flag\<rparr>)"
| worker_flag: "ss_worker s = Run_Flag \<Longrightarrow> start_step s (s\<lparr>ss_run := True, ss_worker := Run_Notify\<rparr>)"
| worker_notify: "ss_worker s = Run_Notify \<Longrightarrow> ss_cv_live s \<Longrightarrow> notify_choice t (ss_sync s) \<Longrightarrow>
    start_step s (s\<lparr>ss_sync := clh_conditional_variable_notify_one t (ss_sync s), ss_worker := Run_Loop\<rparr>)"

inductive start_spurious :: "start_state \<Rightarrow> start_state \<Rightarrow> bool" where
  "t \<in> set (sync_asleep (ss_sync s)) \<Longrightarrow> start_spurious s (s\<lparr>ss_sync := wake t (ss_sync s)\<rparr>)"

definition start_any :: "start_state \<Rightarrow> start_state \<Rightarrow> bool" where
  "start_any s s' \<longleftrightarrow> start_step s s' \<or> start_spurious s s'"

definition start_init :: start_state where
  "start_init = \<lparr>ss_sync = sync_create, ss_cv_live = True, ss_run = False,
     ss_main = Before_Spawn, ss_worker = Not_Spawned\<rparr>"

text \<open>The states of the runs below.\<close>

definition start_at ::
  "clh_thread option \<Rightarrow> clh_thread list \<Rightarrow> bool \<Rightarrow> bool \<Rightarrow> start_pc \<Rightarrow> run_pc \<Rightarrow> start_state" where
  "start_at t ts live run m w =
     \<lparr>ss_sync = \<lparr>sync_holder = t, sync_asleep = ts\<rparr>, ss_cv_live = live, ss_run = run,
      ss_main = m, ss_worker = w\<rparr>"

lemmas start_run_simps = start_step.simps start_spurious.simps start_any_def start_init_def clh_thread_spawn_def
  start_at_def sync_create_def start_wait_def wake_def holder_lock notify_choice_def
  clh_conditional_variable_notify_one_def clh_conditional_variable_destroy_def

text \<open>The notification comes before the wait: \<open>start_\<close> sleeps for ever.\<close>

lemma start_lost_wakeup:
  "start_any\<^sup>*\<^sup>* start_init (start_at None [User 0] True True Start_Waits Run_Loop)"
  "\<not> start_step (start_at None [User 0] True True Start_Waits Run_Loop) s"
proof -
  have "start_any start_init (start_at None [] True False Before_Wait Run_Init)"
    by (simp add: start_run_simps)
  moreover have "start_any (start_at None [] True False Before_Wait Run_Init)
      (start_at None [] True False Before_Wait Run_Flag)"
    by (simp add: start_run_simps)
  moreover have "start_any (start_at None [] True False Before_Wait Run_Flag)
      (start_at None [] True True Before_Wait Run_Notify)"
    by (simp add: start_run_simps)
  moreover have "start_any (start_at None [] True True Before_Wait Run_Notify)
      (start_at None [] True True Before_Wait Run_Loop)"
    by (simp add: start_run_simps)
  moreover have "start_any (start_at None [] True True Before_Wait Run_Loop)
      (start_at None [User 0] True True Start_Waits Run_Loop)"
    by (simp add: start_run_simps)
  ultimately show "start_any\<^sup>*\<^sup>* start_init (start_at None [User 0] True True Start_Waits Run_Loop)"
    by (meson rtranclp.rtrancl_into_rtrancl rtranclp.rtrancl_refl)
  show "\<not> start_step (start_at None [User 0] True True Start_Waits Run_Loop) s"
    by (simp add: start_run_simps)
qed

text \<open>
  A spurious wake-up: \<open>start_\<close> is through before UCX is initialised, and the worker comes to
  notify a condition variable that is gone.
\<close>

lemma start_early_return:
  "start_any\<^sup>*\<^sup>* start_init (start_at (Some (User 0)) [] False False Start_Destroyed Run_Init)"
  "start_any\<^sup>*\<^sup>* start_init (start_at (Some (User 0)) [] False True Start_Destroyed Run_Notify)"
proof -
  have "start_any start_init (start_at None [] True False Before_Wait Run_Init)"
    by (simp add: start_run_simps)
  moreover have "start_any (start_at None [] True False Before_Wait Run_Init)
      (start_at None [User 0] True False Start_Waits Run_Init)"
    by (simp add: start_run_simps)
  moreover have "start_any (start_at None [User 0] True False Start_Waits Run_Init)
      (start_at None [] True False Start_Waits Run_Init)"
    by (simp add: start_run_simps)
  moreover have "start_any (start_at None [] True False Start_Waits Run_Init)
      (start_at (Some (User 0)) [] True False Start_Awake Run_Init)"
    by (simp add: start_run_simps)
  moreover have "start_any (start_at (Some (User 0)) [] True False Start_Awake Run_Init)
      (start_at (Some (User 0)) [] False False Start_Destroyed Run_Init)"
    by (simp add: start_run_simps)
  ultimately show early:
    "start_any\<^sup>*\<^sup>* start_init (start_at (Some (User 0)) [] False False Start_Destroyed Run_Init)"
    by (meson rtranclp.rtrancl_into_rtrancl rtranclp.rtrancl_refl)
  have "start_any (start_at (Some (User 0)) [] False False Start_Destroyed Run_Init)
      (start_at (Some (User 0)) [] False False Start_Destroyed Run_Flag)"
    by (simp add: start_run_simps)
  moreover have "start_any (start_at (Some (User 0)) [] False False Start_Destroyed Run_Flag)
      (start_at (Some (User 0)) [] False True Start_Destroyed Run_Notify)"
    by (simp add: start_run_simps)
  ultimately show
    "start_any\<^sup>*\<^sup>* start_init (start_at (Some (User 0)) [] False True Start_Destroyed Run_Notify)"
    using early by (meson rtranclp.rtrancl_into_rtrancl)
qed

text \<open>
  However \<open>start_\<close> comes out of the wait, it then holds \<open>init_mutex\<close>, which it never unlocks: it
  destroys a mutex that is held.
\<close>

definition start_inv :: "start_state \<Rightarrow> bool" where
  "start_inv s \<longleftrightarrow>
     (ss_main s = Start_Awake \<or> ss_main s = Start_Destroyed \<longrightarrow>
        sync_holder (ss_sync s) = Some (User 0)) \<and>
     (ss_cv_live s \<longleftrightarrow> ss_main s \<noteq> Start_Destroyed) \<and>
     (ss_main s = Before_Spawn \<longleftrightarrow> ss_worker s = Not_Spawned) \<and>
     (ss_run s \<longleftrightarrow> ss_worker s = Run_Notify \<or> ss_worker s = Run_Loop)"

lemma start_any_inv:
  assumes inv: "start_inv s" and any: "start_any s s'"
  shows "start_inv s'"
proof -
  note defs = start_inv_def start_wait_def wake_def holder_lock clh_thread_spawn_def
    clh_conditional_variable_notify_one_def
  have "start_inv s'" if "start_step s s'" using that inv by cases (simp_all add: defs)
  moreover have "start_inv s'" if "start_spurious s s'" using that inv by cases (simp add: defs)
  ultimately show ?thesis using any by (auto simp: start_any_def)
qed

interpretation st: invariant_system start_any start_inv
  by unfold_locales (rule start_any_inv)

lemma start_destroys_held_mutex:
  assumes "start_any\<^sup>*\<^sup>* start_init s" and "ss_main s = Start_Awake"
  shows "clh_mutex_destroy (sync_holder (ss_sync s) \<noteq> None) = Inl Mutex_Busy"
proof -
  have "start_inv start_init" by (simp add: start_inv_def start_init_def)
  from st.reach_inv [OF assms(1) this] assms(2) show ?thesis
    by (simp add: start_inv_def clh_mutex_destroy_def)
qed

end
