(* ===== verification/Clh_Log.thy ===== *)
theory Clh_Log
  imports Clh_Pmi Clh_Handle
begin

text \<open>
  log.h, log.c and the status strings of clh.c: the names of the levels and statuses, written
  into static buffers of fixed size, and the line a log call prints. Printing itself is left out.
\<close>

section \<open>Formatting into a buffer\<close>

text \<open>
  What a buffer of \<open>n\<close> characters holds, as a C string: \<open>snprintf\<close> cuts the text to leave room for
  the terminating zero, \<open>sprintf\<close> runs over the end.
\<close>

definition c_snprintf :: "nat \<Rightarrow> string \<Rightarrow> string" where
  "c_snprintf n cs = take (n - 1) cs"

definition c_sprintf :: "nat \<Rightarrow> string \<Rightarrow> string res" where
  "c_sprintf n cs = (if length cs < n then Inr cs else Inl Out_Of_Bounds)"

section \<open>Levels, statuses and lines\<close>

datatype clh_log_level = CLH_LOG_INFO | CLH_LOG_WARNING | CLH_LOG_ERROR

fun clh_log_level_string :: "clh_log_level \<Rightarrow> string" where
  "clh_log_level_string CLH_LOG_INFO = c_snprintf 8 ''INFO   ''"
| "clh_log_level_string CLH_LOG_WARNING = c_snprintf 8 ''WARNING''"
| "clh_log_level_string CLH_LOG_ERROR = c_snprintf 8 ''ERROR  ''"

fun clh_status_string :: "clh_status \<Rightarrow> string res" where
  "clh_status_string CLH_STATUS_SUCCESS = c_sprintf 64 ''success''"
| "clh_status_string CLH_STATUS_PMI_ERROR = c_sprintf 64 ''pmi error''"
| "clh_status_string CLH_STATUS_MEMORY_REGISTRATION_ERROR =
     c_sprintf 64 ''memory registration error''"
| "clh_status_string CLH_STATUS_REQUEST_FAILURE = c_sprintf 64 ''request failure''"
| "clh_status_string CLH_STATUS_ERROR = c_sprintf 64 ''internal error''"

text \<open>The text \<open>clh_log_\<close> prints.\<close>

definition clh_log_line :: "clh_log_level \<Rightarrow> string \<Rightarrow> string \<Rightarrow> nat \<Rightarrow> string \<Rightarrow> string" where
  "clh_log_line level category filename line msg =
     ''CLH   '' @ clh_log_level_string level @ ''  '' @ category @ [char_of (9 :: nat)] @ filename @
     '':'' @ decimal_nat line @ [char_of (9 :: nat)] @ msg @ [char_of (10 :: nat)]"

section \<open>No text is cut\<close>

lemma status_string_fits: "\<exists>cs. clh_status_string status = Inr cs"
  by (cases status) (simp_all add: c_sprintf_def)

lemma status_string_inj: "clh_status_string s = clh_status_string s' \<Longrightarrow> s = s'"
  by (cases s; cases s') (simp_all add: c_sprintf_def)

lemma level_string_length: "length (clh_log_level_string level) = 7"
  by (cases level) (simp_all add: c_snprintf_def)

lemma level_string_inj: "clh_log_level_string l = clh_log_level_string l' \<Longrightarrow> l = l'"
  by (cases l; cases l') (simp_all add: c_snprintf_def)

end
