(* ===== verification/Clh_Components.thy ===== *)
theory Clh_Components
  imports Clh_Demo Clh_Delivery Clh_Wait Clh_Log
begin

text \<open>
  The properties of the single components: the operations of the worker and of the user, the
  tags, the buffer cache, the lists, arrays and buffers, and the hand-shakes. Each stands with an
  instance of its assumptions.
\<close>

section \<open>The worker\<close>

text \<open>
  A receive without a message takes the oldest message of its channel whose tag agrees with
  the pattern under the mask: the request gets its handle, channel, sender and tag, and that
  message alone leaves the list. Without such a message nothing changes.
\<close>

theorem match_takes_oldest:
  assumes q: "req_at h r = Some q" "req_data q = Recv_Data d" "channel_ok (req_channel q)"
    and msgs: "msgs_ok (h_messages h) (h_recv_list h) ms mf"
  defines "c \<equiv> unat (req_channel q)"
  shows "(case List.find (\<lambda>a. tag_matches (msg_full_tag (msg_at h a)) (recv_tag d) (recv_tag_mask d))
             (ms c) of
       None \<Rightarrow> match_received h r = Inr h
     | Some n \<Rightarrow> \<exists>h'. match_received h r = Inr h' \<and>
         req_at h' = (req_at h)(r \<mapsto> with_message q (msg_at h n)) \<and>
         (\<exists>mf'. msgs_ok (h_messages h') (h_recv_list h') (ms(c := remove1 n (ms c))) mf') \<and>
         data_at (h_messages h') = data_at (h_messages h))"
  unfolding c_def by (rule match_takes [OF assms(1-4)])

text \<open>A handle with a receive on channel 3 and the message of process 1.\<close>

definition demo_recv_data :: clh_recv_data where
  "demo_recv_data = \<lparr>recv_buffer = demo_buffer, recv_tag = clh_encode_tag 3 0 7,
     recv_tag_mask = CHANNEL_MASK OR ucast (7 :: clh_u32), recv_infos = None, recv_msg = 0\<rparr>"

definition demo_recv :: "clh_u32 \<Rightarrow> clh_request" where
  "demo_recv c = \<lparr>req_type = CLH_REQUEST_TYPE_RECV, req_completed = False, req_channel = c,
     req_source = 0, req_tag = 0, req_data = Recv_Data demo_recv_data\<rparr>"

lemma demo_recv_fields [simp]:
  "req_data (demo_recv c) = Recv_Data demo_recv_data" "req_channel (demo_recv c) = c"
  "recv_tag demo_recv_data = clh_encode_tag 3 0 7"
  "recv_tag_mask demo_recv_data = CHANNEL_MASK OR ucast (7 :: clh_u32)"
  "recv_msg demo_recv_data = 0" "channel_ok 3" "channel_ok 4" "\<not> channel_ok 256"
  by (simp_all add: demo_recv_def demo_recv_data_def channel_ok_def)

lemma demo_inbox:
  "\<exists>h (ms :: nat \<Rightarrow> nat list) mf n. req_at h 0 = Some (demo_recv c) \<and>
     msgs_ok (h_messages h) (h_recv_list h) ms mf \<and> ms 3 = [n] \<and>
     msg_at (h :: unit clh_handle) n = demo_message"
proof -
  obtain h :: "unit clh_handle" and n where h: "handle_inv h" "received h 3 = [n]" "msg_at h n = demo_message"
    using demo_received by blast
  then obtain ms mf where msgs: "msgs_ok (h_messages h) (h_recv_list h) ms mf"
    using handle_inv_msgs by blast
  then have "ms 3 = [n]" using h(2) msgs_ok_received [OF msgs, of 3] by (simp add: CLH_MAX_CHANNELS_def)
  moreover define h' where "h' = h\<lparr>h_requests := \<lparr>cells = [0 \<mapsto> \<lparr>node_prev = None, node_next = None,
    node_data = demo_recv c\<rparr>], brk = 1\<rparr>\<rparr>"
  ultimately have "req_at h' 0 = Some (demo_recv c) \<and>
      msgs_ok (h_messages h') (h_recv_list h') ms mf \<and> ms 3 = [n] \<and> msg_at h' n = demo_message"
    using msgs h(3) by (simp add: req_at_def data_at_def msg_at_def)
  then show ?thesis by blast
qed

lemma demo_tag_match:
  "tag_matches (clh_encode_tag 3 1 7) (clh_encode_tag 3 0 7) (CHANNEL_MASK OR ucast (7 :: clh_u32))"
  using tag_matches_any [of 3 "clh_encode_tag 3 1 7" 7 7] by (simp add: sender_ok_def)

theorem match_takes_oldest_witness:
  "\<exists>h h' :: unit clh_handle. match_received h 0 = Inr h' \<and>
     req_at h' 0 = Some (with_message (demo_recv 3) demo_message)"
proof -
  obtain h :: "unit clh_handle" and ms mf n where h: "req_at h 0 = Some (demo_recv 3)"
      "msgs_ok (h_messages h) (h_recv_list h) ms mf" "ms 3 = [n]" "msg_at h n = demo_message"
    using demo_inbox by blast
  from match_takes_oldest [OF h(1) demo_recv_fields(1) _ h(2)] h(3,4) demo_tag_match
  obtain h' where "match_received h 0 = Inr h'"
      "req_at h' 0 = Some (with_message (demo_recv 3) demo_message)"
    by auto
  then show ?thesis by blast
qed

text \<open>
  C27. The receive is looked for in the list of the channel its node happens to name, and
  \<open>clh_recv\<close> does not set that: with another channel in the node the messages of its own channel
  that are there already are missed, and with a number past the last channel the worker reads
  outside the array of lists.
\<close>

theorem stale_channel:
  fixes m :: clh_u32
  assumes q: "req_at h r = Some q" "req_data q = Recv_Data d"
    and pattern: "channel_ok c" "recv_tag d = clh_encode_tag c 0 t"
      "recv_tag_mask d = CHANNEL_MASK OR ucast m"
    and msgs: "msgs_ok (h_messages h) (h_recv_list h) ms mf" and stale: "req_channel q \<noteq> c"
  shows "match_received h r = (if channel_ok (req_channel q) then Inr h else Inl Out_Of_Bounds)"
proof (cases "channel_ok (req_channel q)")
  case True
  let ?k = "unat (req_channel q)"
  have k: "?k < CLH_MAX_CHANNELS" using True by (rule channel_lt)
  have "\<not> tag_matches (msg_full_tag (msg_at h a)) (recv_tag d) (recv_tag_mask d)"
    if "a \<in> set (ms ?k)" for a
  proof -
    have "opt_all (msg_ok ?k) (data_at (h_messages h) a)" using msgs k that by (simp add: msgs_ok_def)
    then have "msg_ok ?k (msg_at h a)" by (auto simp: opt_all_iff msg_at_def)
    then have "fst (clh_decode_tag (msg_full_tag (msg_at h a))) = req_channel q"
      by (auto simp: msg_ok_def word_unat_eq_iff)
    then show ?thesis using stale by (simp add: pattern(2,3) tag_matches_any [OF pattern(1)])
  qed
  then have "recv_match h q = None"
    using msgs_ok_received [OF msgs k] q(2) by (auto simp: recv_match_def find_None_iff)
  then show ?thesis using match_received_none [OF q True msgs] True by simp
next
  case False
  then have "\<not> unat (req_channel q) < length (h_recv_list h)"
    using msgs by (simp add: msgs_ok_def channel_ok_def CLH_MAX_CHANNELS_def)
  then show ?thesis using False q by (simp add: match_received_def nth_res_def)
qed

theorem stale_channel_witness:
  "\<exists>(h :: unit clh_handle) (h' :: unit clh_handle) r.
     match_received h r = Inr h \<and> match_received h' r = Inl Out_Of_Bounds"
proof -
  obtain h :: "unit clh_handle" and ms mf where h: "req_at h 0 = Some (demo_recv 4)"
      "msgs_ok (h_messages h) (h_recv_list h) ms mf"
    using demo_inbox by blast
  obtain h' :: "unit clh_handle" and ms' mf' where
    h': "req_at h' 0 = Some (demo_recv 256)"
      "msgs_ok (h_messages h') (h_recv_list h') ms' mf'"
    using demo_inbox by blast
  have "match_received h 0 = Inr h"
    using stale_channel [OF h(1) demo_recv_fields(1,6,3,4) h(2)] by simp
  moreover have "match_received h' 0 = Inl Out_Of_Bounds"
    using stale_channel [OF h'(1) demo_recv_fields(1,6,3,4) h'(2)] by simp
  ultimately show ?thesis by blast
qed

text \<open>
  C28. The sweep over the operations in flight completes exactly those UCX reports done and keeps
  the others, although it fills the gap of a removed one with the last: what is left is the
  multiset of the unfinished ones, and no other request changes.
\<close>

theorem ops_queue_sweep:
  assumes inv: "handle_inv h" and U: "fills_infos U" "ucp_reliable U"
    and st: "statuses_fixed U st W" "W (h_world h)"
  shows "\<exists>h'. process_ops_queue U h = Inr (h', CLH_STATUS_SUCCESS) \<and>
     mset (inflight h') = filter_mset (\<lambda>op. op_state st op \<noteq> UCS_OK) (mset (inflight h)) \<and>
     (\<forall>op \<in> set (inflight h). op_state st op = UCS_OK \<longrightarrow> completed_in h' (op_request op)) \<and>
     (\<forall>a. a \<notin> op_request ` set (inflight h) \<longrightarrow> req_at h' a = req_at h a)"
proof -
  have "outcome False (process_ops_queue U h) (\<lambda>(h', st).
      if st = CLH_STATUS_SUCCESS then swept_ok U h {} (queued h) (released h) 0 h' else False)"
    by (rule process_ops_queue_outcome [OF handle_inv_reqs [OF inv] U(1)]) (use U in simp)
  then obtain h' where run: "process_ops_queue U h = Inr (h', CLH_STATUS_SUCCESS)"
    and sw: "swept U h 0 h'"
    by (auto simp: outcome_False swept_ok_def split: if_splits)
  have left: "mset (inflight h') = filter_mset (\<lambda>op. op_state st op \<noteq> UCS_OK) (mset (inflight h))"
    using sw st unfolding swept_def by auto
  have "completed_in h' (op_request op)" if "op \<in> set (inflight h)" "op_state st op = UCS_OK" for op
  proof -
    have "op \<notin># mset (inflight h')" using left that(2) by simp
    then show ?thesis using sw that(1) by (auto simp: swept_def completed_in_def)
  qed
  then show ?thesis using run left sw by (auto simp: swept_def)
qed

lemma demo_inflight:
  "\<exists>h op. handle_inv (h :: unit clh_handle) \<and> inflight h = [op] \<and> op_state (\<lambda>_. UCS_OK) op = UCS_OK"
proof -
  obtain h :: "unit clh_handle" and n where h: "handle_inv h" "queued h CLH_REQUEST_TYPE_SEND = [n]"
      "queued h CLH_REQUEST_TYPE_RECV = []" "inflight h = []"
    using demo_sent by blast
  obtain ms mf where msgs: "msgs_ok (h_messages h) (h_recv_list h) ms mf"
    using handle_inv_msgs [OF h(1)] by blast
  have cache: "cache_inv (h_buffer_cache h)" using h(1) by (auto simp: handle_inv_def handle_rep_def)
  have "outcome False (process_shared_queues demo_ucp h)
      (\<lambda>(h', st). passed h (queued h) (released h) ms h')"
    by (rule process_shared_queues_outcome [OF handle_inv_reqs [OF h(1)] cache msgs]) simp_all
  then obtain h' where p: "passed h (queued h) (released h) ms h'" by (auto simp: outcome_False)
  have inv: "handle_inv h'"
    using passed_after(1,3,4) [OF p] unfolding handle_inv_def handle_rep_def by blast
  obtain ops1 ops2 where ops: "inflight h' = inflight h @ ops1 @ ops2"
      "map op_request ops1 = take (CONF_SEND_THRESH - sends_of (h_requests h) (inflight h))
        (rev (queued h CLH_REQUEST_TYPE_SEND))" "map op_request ops2 = queued h CLH_REQUEST_TYPE_RECV"
    using passed_after(8) [OF p] by blast
  then obtain op where op: "inflight h' = [op]"
    using h by (auto simp: CONF_SEND_THRESH_def)
  then have "op_state (\<lambda>_. UCS_OK) op = UCS_OK"
    using op_in_flight [OF handle_inv_reqs [OF inv], of op] by (auto simp: op_state_def)
  with inv op show ?thesis by blast
qed

theorem ops_queue_sweep_witness:
  "\<exists>(h :: unit clh_handle) op h'. inflight h = [op] \<and>
     process_ops_queue demo_ucp h = Inr (h', CLH_STATUS_SUCCESS) \<and>
     inflight h' = [] \<and> completed_in h' (op_request op)"
proof -
  obtain h :: "unit clh_handle" and op where h: "handle_inv h" "inflight h = [op]"
      "op_state (\<lambda>_. UCS_OK) op = UCS_OK"
    using demo_inflight by blast
  have "statuses_fixed demo_ucp (\<lambda>_. UCS_OK) (\<lambda>_. True)"
    using demo_ucp_ok(4) by (simp add: finishes_def)
  from ops_queue_sweep [OF h(1) demo_ucp_ok(2,3) this] h(2,3) show ?thesis by auto
qed

text \<open>
  What the probe of the worker finds is appended to the list of the channel its tag names,
  with the fields of the tag; nothing else in the handle changes. Without a message nothing
  changes at all.
\<close>

theorem probe_appends_message:
  assumes inv: "handle_inv h" and probe: "ucp_tag_probe_nb U (h_world h) 0 0 True = (g, infos, u')"
  shows "\<exists>h' n. probe_incomming_messages U h = Inr h' \<and> handle_inv h' \<and> same_requests h h' \<and>
     h_world h' = u' \<and> (g \<noteq> 0 \<longrightarrow> msg_at h' n = message_of g infos) \<and>
     (\<forall>c < CLH_MAX_CHANNELS. received h' c =
        received h c @ (if g \<noteq> 0 \<and> c = unat (msg_channel (message_of g infos)) then [n] else []))"
  using probe_files [OF assms] by blast

theorem probe_appends_message_witness:
  "\<exists>h' n. probe_incomming_messages demo_ucp demo_handle = Inr h' \<and> received h' 3 = [n] \<and>
     received h' 4 = [] \<and> msg_at h' n = demo_message"
proof -
  from probe_appends_message [OF demo_inv demo_probe] obtain h' n where
    "probe_incomming_messages demo_ucp demo_handle = Inr h'" "msg_at h' n = demo_message"
    "\<forall>c < CLH_MAX_CHANNELS. received h' c = received demo_handle c @
       (if c = unat (msg_channel demo_message) then [n] else [])"
    unfolding demo_message_def [symmetric] by auto
  then show ?thesis by (auto simp: CLH_MAX_CHANNELS_def)
qed



section \<open>The user operations\<close>

text \<open>
  Posting a send returns a fresh request with all its fields set, its 64-bit tag the encoding
  of channel, own rank and user tag; it is the last of the send queue and nothing else changes.
\<close>

theorem send_posts:
  assumes "handle_inv h" and "channel_ok channel"
    and "unat dest < length (h_endpoints h)" "h_endpoints h ! unat dest \<noteq> None"
  shows "\<exists>h' n. clh_send h channel dest tag buffer = Inr (h', n) \<and>
           enqueued h CLH_REQUEST_TYPE_SEND n (send_request h channel dest tag buffer) h'"
  using assms by (rule send_spec)

theorem send_posts_witness:
  "\<exists>h' n. clh_send demo_handle 3 1 7 demo_buffer = Inr (h', n) \<and>
     enqueued demo_handle CLH_REQUEST_TYPE_SEND n (send_request demo_handle 3 1 7 demo_buffer) h'"
  by (rule send_posts) simp_all

text \<open>
  C30. Sending to a process without an endpoint, as to the own rank, is accepted by \<open>clh_send\<close>; it
  is the worker that then uses an endpoint nobody created.
\<close>

theorem send_to_self_faults:
  assumes inv: "handle_inv h" and eps: "has_endpoints h"
    and self: "unat dest = own_rank (clh_node_id h)" "unat dest < unat (clh_nb_nodes h)"
  shows "\<exists>h' n. clh_send h channel dest tag buffer = Inr (h', n) \<and>
     ucx_send U h' n memh = Inl Uninitialised"
proof -
  from send_anywhere [OF inv] obtain h' n where
    run: "clh_send h channel dest tag buffer = Inr (h', n)" and
    q: "req_at h' n = Some (send_request h channel dest tag buffer)"
    by blast
  have "h_endpoints h' = h_endpoints h" using send_setup [OF run] by (simp add: same_setup_def)
  moreover have "unat dest < length (h_endpoints h)" "h_endpoints h ! unat dest = None"
    using eps self unfolding has_endpoints_def by auto
  ultimately have "ucx_send U h' n memh = Inl Uninitialised"
    using q by (simp add: ucx_send_def send_request_def)
  with run show ?thesis by blast
qed

theorem send_to_self_faults_witness:
  "\<exists>h n. clh_send demo_handle 3 0 7 demo_buffer = Inr (h, n) \<and>
     ucx_send demo_ucp h n 0 = Inl Uninitialised"
  by (rule send_to_self_faults) (simp_all add: own_rank_def)

text \<open>The messages of a list carry the fields of their tags.\<close>

lemma received_fields:
  assumes inv: "handle_inv h" and chan: "channel_ok channel"
    and a: "a \<in> set (received h (unat channel))"
  shows "clh_decode_tag (msg_full_tag (msg_at h a)) =
     (channel, msg_sender_id (msg_at h a), msg_sender_tag (msg_at h a))"
proof -
  obtain ms mf where msgs: "msgs_ok (h_messages h) (h_recv_list h) ms mf"
    using handle_inv_msgs [OF inv] by blast
  have c: "unat channel < CLH_MAX_CHANNELS" using chan by (rule channel_lt)
  have "opt_all (msg_ok (unat channel)) (data_at (h_messages h) a)"
    using msgs c a msgs_ok_received [OF msgs c] by (simp add: msgs_ok_def)
  then have "msg_ok (unat channel) (msg_at h a)" by (auto simp: opt_all_iff msg_at_def)
  then show ?thesis by (auto simp: msg_ok_def word_unat_eq_iff)
qed

text \<open>What the user reads from the request after a probe that met the message \<open>a\<close>, or none.\<close>

definition probe_outcome ::
  "'u clh_handle \<Rightarrow> clh_u32 \<Rightarrow> bool \<Rightarrow> nat option \<Rightarrow> 'u clh_handle \<Rightarrow> nat \<Rightarrow> bool" where
  "probe_outcome h channel remove match h' n \<longleftrightarrow>
     (case match of
        None \<Rightarrow> received h' = received h \<and> clh_probe_result h' n = Inr False
      | Some a \<Rightarrow>
          clh_probe_result h' n = Inr True \<and>
          clh_request_buffer_len h' n = Inr (msg_buffer_len (msg_at h a)) \<and>
          clh_request_source h' n = Inr (msg_sender_id (msg_at h a)) \<and>
          clh_request_tag h' n = Inr (msg_sender_tag (msg_at h a)) \<and>
          (\<forall>j < CLH_MAX_CHANNELS. received h' j =
             (if remove \<and> j = unat channel then remove1 a (received h j) else received h j)))"

lemma probe_result_cases:
  assumes inv: "handle_inv h" and chan: "channel_ok channel"
  shows "\<exists>h' n q. clh_probe_channel h channel f m remove = Inr (h', n) \<and> user_holds h' n \<and>
     req_at h' = (req_at h)(n \<mapsto> q) \<and> req_completed q \<and>
     probe_outcome h channel remove (probe_match h channel f m) h' n"
proof -
  from probe_spec [OF inv chan, of f m remove] obtain h' n q where
    run: "clh_probe_channel h channel f m remove = Inr (h', n)" and
    res: "case probe_match h channel f m of
        None \<Rightarrow> probed h n (probe_miss remove f m q) h' \<and> received h' = received h
      | Some a \<Rightarrow> probed h n (probe_hit remove f m (msg_at h a) q) h' \<and>
          a \<in> set (received h (unat channel)) \<and>
          (\<forall>j < CLH_MAX_CHANNELS. received h' j =
             (if remove \<and> j = unat channel then remove1 a (received h (unat channel))
              else received h j))"
    by blast
  note defs = probed_def probe_hit_def probe_miss_def probe_data_def clh_probe_result_def
    clh_request_buffer_len_def clh_request_source_def clh_request_tag_def probe_outcome_def
  show ?thesis
  proof (cases "probe_match h channel f m")
    case None
    then show ?thesis using run res
      by (intro exI [of _ h'] exI [of _ n] exI [of _ "probe_miss remove f m q"]) (simp add: defs)
  next
    case (Some a)
    then show ?thesis using run res
      by (intro exI [of _ h'] exI [of _ n] exI [of _ "probe_hit remove f m (msg_at h a) q"])
        (simp add: defs)
  qed
qed

text \<open>
  C31. A probe finds the oldest received message of its channel whose user tag agrees with the
  given one under the user's mask, from whatever sender: the encoding of the pattern and its mask
  say just that. The request then describes the message, and the message leaves the list when the
  probe removes. The request is the user's and completed either way.
\<close>

theorem probe_finds:
  assumes inv: "handle_inv h" and chan: "channel_ok channel"
  shows "\<exists>h' n q. clh_probe h channel tag tag_mask remove = Inr (h', n) \<and> user_holds h' n \<and>
     req_at h' = (req_at h)(n \<mapsto> q) \<and> req_completed q \<and>
     (case List.find (\<lambda>a. msg_sender_tag (msg_at h a) AND tag_mask = tag AND tag_mask)
             (received h (unat channel)) of
        None \<Rightarrow> received h' = received h \<and> clh_probe_result h' n = Inr False
      | Some a \<Rightarrow>
          clh_probe_result h' n = Inr True \<and>
          clh_request_buffer_len h' n = Inr (msg_buffer_len (msg_at h a)) \<and>
          clh_request_source h' n = Inr (msg_sender_id (msg_at h a)) \<and>
          clh_request_tag h' n = Inr (msg_sender_tag (msg_at h a)) \<and>
          (\<forall>j < CLH_MAX_CHANNELS. received h' j =
             (if remove \<and> j = unat channel then remove1 a (received h j) else received h j)))"
proof -
  let ?f = "clh_encode_tag channel 0 tag" and ?m = "CHANNEL_MASK OR ucast tag_mask :: clh_u64"
  have match: "probe_match h channel ?f ?m =
      List.find (\<lambda>a. msg_sender_tag (msg_at h a) AND tag_mask = tag AND tag_mask)
        (received h (unat channel))"
    unfolding probe_match_def
    by (intro find_cong refl) (simp add: tag_matches_any [OF chan] received_fields [OF inv chan])
  from probe_result_cases [OF inv chan, of ?f ?m remove] show ?thesis
    unfolding match probe_outcome_def clh_probe_def Let_def .
qed

theorem probe_finds_witness:
  "\<exists>(h :: unit clh_handle) h' n a. received h 3 = [a] \<and> clh_probe h 3 7 7 True = Inr (h', n) \<and>
     received h' 3 = [] \<and> clh_probe_result h' n = Inr True \<and> clh_request_source h' n = Inr 1"
proof -
  obtain h :: "unit clh_handle" and a where h: "handle_inv h" "received h 3 = [a]"
      "msg_at h a = demo_message"
    using demo_received by blast
  from probe_finds [OF h(1), of 3 7 7 True] h(2,3)
  show ?thesis by (auto simp: CLH_MAX_CHANNELS_def)
qed

text \<open>
  A probe for one source finds the oldest received message of its channel with that sender
  and an agreeing user tag.
\<close>

theorem probe_source_finds:
  assumes inv: "handle_inv h" and chan: "channel_ok channel" and source: "sender_ok source"
  shows "\<exists>h' n q. clh_probe_source h channel source tag tag_mask remove = Inr (h', n) \<and>
     user_holds h' n \<and> req_at h' = (req_at h)(n \<mapsto> q) \<and> req_completed q \<and>
     (case List.find (\<lambda>a. msg_sender_id (msg_at h a) = source \<and>
               msg_sender_tag (msg_at h a) AND tag_mask = tag AND tag_mask)
             (received h (unat channel)) of
        None \<Rightarrow> received h' = received h \<and> clh_probe_result h' n = Inr False
      | Some a \<Rightarrow>
          clh_probe_result h' n = Inr True \<and>
          clh_request_buffer_len h' n = Inr (msg_buffer_len (msg_at h a)) \<and>
          clh_request_source h' n = Inr source \<and>
          clh_request_tag h' n = Inr (msg_sender_tag (msg_at h a)) \<and>
          (\<forall>j < CLH_MAX_CHANNELS. received h' j =
             (if remove \<and> j = unat channel then remove1 a (received h j) else received h j)))"
proof -
  let ?f = "clh_encode_tag channel source tag"
    and ?m = "CHANNEL_MASK OR SENDER_ID_MASK OR ucast tag_mask :: clh_u64"
  have match: "probe_match h channel ?f ?m =
      List.find (\<lambda>a. msg_sender_id (msg_at h a) = source \<and>
          msg_sender_tag (msg_at h a) AND tag_mask = tag AND tag_mask)
        (received h (unat channel))"
    unfolding probe_match_def
    by (intro find_cong refl)
      (simp add: tag_matches_source [OF chan source] received_fields [OF inv chan])
  from probe_result_cases [OF inv chan, of ?f ?m remove] obtain h' n q where
    run: "clh_probe_channel h channel ?f ?m remove = Inr (h', n)" and
    held: "user_holds h' n" "req_at h' = (req_at h)(n \<mapsto> q)" "req_completed q" and
    res: "probe_outcome h channel remove (probe_match h channel ?f ?m) h' n"
    by blast
  have "msg_sender_id (msg_at h a) = source" if "probe_match h channel ?f ?m = Some a" for a
    using that unfolding match by (auto simp: find_Some_iff)
  then show ?thesis using run held res unfolding match probe_outcome_def clh_probe_source_def Let_def
    by (intro exI [of _ h'] exI [of _ n] exI [of _ q]) (simp split: option.splits)
qed

theorem probe_source_finds_witness:
  "\<exists>(h :: unit clh_handle) h' n a. received h 3 = [a] \<and>
     clh_probe_source h 3 1 7 7 False = Inr (h', n) \<and> received h' 3 = [a] \<and>
     clh_probe_result h' n = Inr True"
proof -
  obtain h :: "unit clh_handle" and a where h: "handle_inv h" "received h 3 = [a]"
      "msg_at h a = demo_message"
    using demo_received by blast
  from probe_source_finds [OF h(1), of 3 1 7 7 False] h(2,3)
  obtain h' n where "clh_probe_source h 3 1 7 7 False = Inr (h', n)" "received h' 3 = [a]"
      "clh_probe_result h' n = Inr True"
    by (auto simp: CLH_MAX_CHANNELS_def sender_ok_def)
  with h(2) show ?thesis by blast
qed

text \<open>
  Posting a receive returns a fresh request at the end of the receive queue, uncompleted and
  with the pattern of the given channel, source and tag; of channel, source and tag of the request
  itself nothing is set.
\<close>

theorem recv_posts:
  assumes "handle_inv h"
  shows "(\<exists>h' n q. clh_recv_from h channel source tag tag_mask buffer = Inr (h', n) \<and>
           enqueued h CLH_REQUEST_TYPE_RECV n
             (recv_request (clh_encode_tag channel source tag)
               (CHANNEL_MASK OR SENDER_ID_MASK OR ucast tag_mask) buffer q) h') \<and>
     (\<exists>h' n q. clh_recv h channel tag tag_mask buffer = Inr (h', n) \<and>
           enqueued h CLH_REQUEST_TYPE_RECV n
             (recv_request (clh_encode_tag channel 0 tag) (CHANNEL_MASK OR ucast tag_mask) buffer q) h')"
  using recv_from_spec [OF assms] recv_spec [OF assms] by blast

theorem recv_posts_witness:
  "\<exists>h' n q. clh_recv_from demo_handle 3 1 7 7 demo_buffer = Inr (h', n) \<and>
     enqueued demo_handle CLH_REQUEST_TYPE_RECV n
       (recv_request (clh_encode_tag 3 1 7)
         (CHANNEL_MASK OR SENDER_ID_MASK OR ucast (7 :: clh_u32)) demo_buffer q) h'"
  using recv_posts [OF demo_inv] by blast

text \<open>
  C32. Receiving a probed message turns the request of the probe into a receive of exactly that
  message: the whole tag has to agree, and the message is the one taken off the list if the probe
  removed it. The request keeps the type of a probe.
\<close>

theorem probed_message_received:
  assumes "handle_inv h" and "user_holds h r" and "req_at h r = Some q"
    and "req_type q = CLH_REQUEST_TYPE_PROBE" "req_data q = Probe_Data d"
      "probe_sender_tag d = Some tag"
  shows "\<exists>h'. clh_request_recv h r buffer = Inr (h', r) \<and> handle_inv h' \<and>
     queued h' = (queued h)(CLH_REQUEST_TYPE_RECV := queued h CLH_REQUEST_TYPE_RECV @ [r]) \<and>
     req_at h' = (req_at h)(r \<mapsto> q\<lparr>req_completed := False,
       req_data := Recv_Data \<lparr>recv_buffer = buffer, recv_tag = tag,
         recv_tag_mask = 0xFFFFFFFFFFFFFFFF, recv_infos = None,
         recv_msg = (if probe_remove d then probe_msg d else 0)\<rparr>\<rparr>) \<and>
     inflight h' = inflight h \<and> received h' = received h \<and> released h' = released h"
  using assms by (rule request_recv_spec)

theorem probed_message_received_witness:
  "\<exists>(h :: unit clh_handle) h1 n h2. clh_probe_channel h 3 (clh_encode_tag 3 1 7) 0 True = Inr (h1, n) \<and>
     clh_request_recv h1 n demo_buffer = Inr (h2, n) \<and> n \<in> tracked h2"
proof -
  obtain h :: "unit clh_handle" and a where h: "handle_inv h" "received h 3 = [a]"
      "msg_at h a = demo_message"
    using demo_received by blast
  have "probe_match h 3 (clh_encode_tag 3 1 7) 0 = Some a"
    using h(2,3) by (simp add: probe_match_def tag_matches_def)
  with probe_spec [OF h(1), of 3 "clh_encode_tag 3 1 7" 0 True] obtain h1 n q where
    run: "clh_probe_channel h 3 (clh_encode_tag 3 1 7) 0 True = Inr (h1, n)" and
    pr: "probed h n (probe_hit True (clh_encode_tag 3 1 7) 0 (msg_at h a) q) h1"
    by auto
  let ?q = "probe_hit True (clh_encode_tag 3 1 7) 0 (msg_at h a) q"
  have h1: "handle_inv h1" "user_holds h1 n" "req_at h1 n = Some ?q"
    using pr by (simp_all add: probed_def)
  from probed_message_received [OF h1, of _ "msg_full_tag (msg_at h a)" demo_buffer] obtain h2 where
    "clh_request_recv h1 n demo_buffer = Inr (h2, n)"
    "queued h2 = (queued h1)(CLH_REQUEST_TYPE_RECV := queued h1 CLH_REQUEST_TYPE_RECV @ [n])"
    by (auto simp: probe_hit_def probe_miss_def probe_data_def)
  then have "n \<in> tracked h2" "clh_request_recv h1 n demo_buffer = Inr (h2, n)"
    by (simp_all add: tracked_def)
  with run show ?thesis by blast
qed

text \<open>
  Releasing a request the user holds puts it in front of the free list of its type, where
  the next request of that type is taken from, and changes nothing else.
\<close>

theorem release_returns_node:
  assumes "handle_inv h" and "user_holds h r"
  shows "\<exists>h' q. clh_request_release h r = Inr h' \<and> req_at h r = Some q \<and> handle_inv h' \<and>
     released h' = (released h)(req_type q := r # released h (req_type q)) \<and>
     queued h' = queued h \<and> inflight h' = inflight h \<and> req_at h' = req_at h \<and>
     received h' = received h"
  using assms by (rule release_request)

theorem release_returns_node_witness:
  "\<exists>h n h' ty. user_holds (h :: unit clh_handle) n \<and> clh_request_release h n = Inr h' \<and>
     n \<in> set (released h' ty)"
proof -
  obtain h n q where "probed demo_handle n q h"
    using probe_spec [OF demo_inv, of 3 0 0 False] by (auto split: option.splits)
  then have h: "handle_inv h" "user_holds h n" by (simp_all add: probed_def)
  from release_returns_node [OF this] obtain h' and q' :: clh_request where
    "clh_request_release h n = Inr h'"
    "released h' = (released h)(req_type q' := n # released h (req_type q'))"
    by blast
  then have "clh_request_release h n = Inr h'" "n \<in> set (released h' (req_type q'))" by simp_all
  with h(2) show ?thesis by blast
qed

section \<open>Tags\<close>

text \<open>
  C33. Encoding a channel, a sender and a user tag into the 64-bit tag and decoding it again gives
  the three back exactly when the channel fits 8 bits and the sender 24.
\<close>

theorem tag_roundtrip_iff:
  "clh_decode_tag (clh_encode_tag c s t) = (c, s, t) \<longleftrightarrow> channel_ok c \<and> sender_ok s"
  by (rule decode_encode_ok_iff)

text \<open>
  Decoding is a bijection from all 64-bit words to the triples whose channel and sender fit,
  and encoding is its inverse: no two tags are confused and no bit is wasted.
\<close>

theorem tag_bijection:
  "bij_betw clh_decode_tag UNIV {(c, s, t). channel_ok c \<and> sender_ok s} \<and>
   (\<forall>f. (case clh_decode_tag f of (c, s, t) \<Rightarrow> clh_encode_tag c s t) = f)"
proof -
  have "{v. fields_ok v} = {(c, s, t). channel_ok c \<and> sender_ok s}"
    by (auto simp: fields_ok_def)
  then have "bij_betw clh_decode_tag UNIV {(c, s, t). channel_ok c \<and> sender_ok s}"
    using tag.bij by simp
  moreover have "(case clh_decode_tag f of (c, s, t) \<Rightarrow> clh_encode_tag c s t) = f" for f
    using tag.enc_dec [of f] by (simp add: encode_fields_def)
  ultimately show ?thesis by blast
qed

section \<open>The buffer cache\<close>

text \<open>
  C34. Registering is the search in a map: an address that is there gives the handle stored for
  it, without a call of UCX and whatever the length asked for; a new one is mapped by UCX and
  added, and nothing else changes.
\<close>

theorem register_is_map:
  assumes inv: "cache_inv C" and nz: "buf_mem b \<noteq> 0"
    and map: "ucp_mem_map U u (buf_mem b) (buf_len b) = (UCS_OK, memh, u')"
  shows "(case cache_map C (buf_mem b) of
       Some h \<Rightarrow> clh_buffer_cache_register_or_get U C u b =
         Inr (C, u, \<lparr>entry_memh = h, entry_mem = buf_mem b\<rparr>)
     | None \<Rightarrow> \<exists>C'. clh_buffer_cache_register_or_get U C u b =
         Inr (C', u', \<lparr>entry_memh = memh, entry_mem = buf_mem b\<rparr>) \<and>
         cache_inv C' \<and> cache_map C' = (cache_map C)(buf_mem b \<mapsto> memh))"
proof (cases "cache_map C (buf_mem b)")
  case None
  then show ?thesis using register_miss [OF inv None nz map] by simp
next
  case (Some h)
  then show ?thesis using register_hit [OF inv Some nz] by simp
qed

theorem register_is_map_witness:
  "\<exists>C. clh_buffer_cache_register_or_get demo_ucp (clh_buffer_cache_create 8) () demo_buffer =
     Inr (C, (), \<lparr>entry_memh = 65, entry_mem = 64\<rparr>) \<and> cache_map C 64 = Some 65"
proof -
  have "ucp_mem_map demo_ucp () (buf_mem demo_buffer) (buf_len demo_buffer) = (UCS_OK, 65, ())"
    by (simp add: demo_ucp_defs demo_buffer_def)
  from register_is_map [OF create_inv _ this, of 8] show ?thesis
    by (auto simp: create_map demo_buffer_def)
qed

text \<open>
  C35. Unregistering removes the address from the map when UCX has unmapped it, and says so; an
  address that is not there, or that UCX keeps, leaves the map as it was.
\<close>

theorem unregister_is_map:
  assumes inv: "cache_inv C"
  shows "\<exists>C' u' ok. clh_buffer_cache_unregister U C u b = Inr (C', u', ok) \<and> cache_inv C' \<and>
     (ok \<longleftrightarrow> (\<exists>h. cache_map C (buf_mem b) = Some h \<and> fst (ucp_mem_unmap U u h) = UCS_OK)) \<and>
     cache_map C' = (if ok then (cache_map C)(buf_mem b := None) else cache_map C)"
proof (cases "cache_map C (buf_mem b)")
  case None
  then show ?thesis using unregister_absent [OF inv None, of U u] inv by auto
next
  case (Some h)
  obtain st u' where unmap: "ucp_mem_unmap U u h = (st, u')" by (rule prod.exhaust)
  from unregister_present [OF inv Some unmap] obtain C' where
    "clh_buffer_cache_unregister U C u b = Inr (C', u', check_ucx st)" "cache_inv C'"
    "cache_map C' = (if check_ucx st then (cache_map C)(buf_mem b := None) else cache_map C)"
    by blast
  then show ?thesis using Some unmap
    by (intro exI [of _ C'] exI [of _ u'] exI [of _ "check_ucx st"]) (simp add: check_ucx_def)
qed

theorem unregister_is_map_witness:
  "\<exists>C' u'. clh_buffer_cache_unregister demo_ucp (clh_buffer_cache_create 8) () demo_buffer =
     Inr (C', u', False) \<and> cache_map C' = Map.empty"
  using unregister_is_map [OF create_inv, of demo_ucp 8 "()" demo_buffer]
  by (auto simp: create_map)

text \<open>
  C36. A buffer that was unregistered is unmapped a second time when the cache is destroyed: its
  node stays in the arena with its handle, and the arena unmaps every node it ever gave out.
\<close>

theorem unregistered_unmapped_again:
  assumes inv: "cache_inv C" and hit: "cache_map C (buf_mem b) = Some h"
    and unmap: "ucp_mem_unmap U u h = (UCS_OK, u')"
  shows "\<exists>C' hs. clh_buffer_cache_unregister U C u b = Inr (C', u', True) \<and>
     cache_map C' (buf_mem b) = None \<and> h \<in> set hs \<and>
     clh_buffer_cache_destroy U C' v = Inr (True, fold (\<lambda>m u. snd (ucp_mem_unmap U u m)) hs v)"
proof -
  define t where "t = cache_tree C"
  have rep: "cache_rep C t" using inv by (simp add: cache_inv_rep t_def)
  have "(buf_mem b, h) \<in> set (entries_of (cache_nodes C) (inorder t))"
    using hit unfolding cache_map_def tree_map_def t_def by (rule map_of_SomeD)
  then have "h \<in> cmemh (cache_nodes C) ` set_tree t"
    by (auto simp: entries_of_def)
  moreover have "set_tree t \<subseteq> set (arena_nodes (cache_allocator C))"
    using cache_rep_live [OF rep] by blast
  ultimately have h: "h \<in> set (arena_handles C)" by (auto simp: arena_handles_def)
  from unregister_present [OF inv hit unmap] obtain C' where
    run: "clh_buffer_cache_unregister U C u b = Inr (C', u', True)" and inv': "cache_inv C'" and
    same: "same_cache C C'" and gone: "cache_map C' = (cache_map C)(buf_mem b := None)"
    by (auto simp: check_ucx_def)
  have "arena_handles C' = arena_handles C"
    using same same_cache_keys(2) [OF same] by (simp add: arena_handles_def same_cache_def)
  then show ?thesis using run gone h cache_destroy_spec [OF inv', of U v] by auto
qed

theorem unregistered_unmapped_again_witness:
  "\<exists>C C' hs. clh_buffer_cache_register_or_get demo_ucp (clh_buffer_cache_create 8) () demo_buffer =
       Inr (C, (), \<lparr>entry_memh = 65, entry_mem = 64\<rparr>) \<and>
     clh_buffer_cache_unregister demo_ucp C () demo_buffer = Inr (C', (), True) \<and> (65 :: ucp_mem_h) \<in> set hs \<and>
     clh_buffer_cache_destroy demo_ucp C' () =
       Inr (True, fold (\<lambda>m u. snd (ucp_mem_unmap demo_ucp u m)) hs ())"
proof -
  have "ucp_mem_map demo_ucp () (buf_mem demo_buffer) (buf_len demo_buffer) = (UCS_OK, 65, ())"
    by (simp add: demo_ucp_defs demo_buffer_def)
  from register_miss [OF create_inv _ _ this, of 8] obtain C where
    C: "clh_buffer_cache_register_or_get demo_ucp (clh_buffer_cache_create 8) () demo_buffer =
        Inr (C, (), \<lparr>entry_memh = 65, entry_mem = 64\<rparr>)" "cache_inv C"
      "cache_map C (buf_mem demo_buffer) = Some 65"
    by (auto simp: create_map demo_buffer_def)
  have "ucp_mem_unmap demo_ucp () 65 = (UCS_OK, ())" by (simp add: demo_ucp_defs)
  from unregistered_unmapped_again [OF C(2,3) this, of "()"] C(1) show ?thesis by blast
qed

text \<open>
  A series of registrations never loses or changes one: every handle that was returned is
  still the one in the map at the end.
\<close>

theorem registrations_stable:
  assumes "cache_inv C" and "\<forall>p \<in> set ks. fst p \<noteq> 0"
    and "get_all (cache_get U) C u ks = Inr (C', u', hs)"
  shows "cache_inv C' \<and> cache_map C \<subseteq>\<^sub>m cache_map C' \<and> map (cache_map C' \<circ> fst) ks = map Some hs"
  using assms by (rule bc.get_all_stable)

theorem registrations_stable_witness:
  "\<exists>C hs. get_all (cache_get demo_ucp) (clh_buffer_cache_create 8) () [(64, 16), (64, 32)] = Inr (C, (), hs) \<and>
     map (cache_map C \<circ> fst) [(64, 16 :: clh_u64), (64, 32)] = map Some hs"
proof -
  have "ucp_mem_map demo_ucp () (buf_mem \<lparr>buf_mem = 64, buf_len = 16\<rparr>) (buf_len \<lparr>buf_mem = 64, buf_len = 16\<rparr>)
      = (UCS_OK, 65, ())"
    by (simp add: demo_ucp_defs)
  from register_miss [OF create_inv _ _ this, of 8] obtain C where
    C: "clh_buffer_cache_register_or_get demo_ucp (clh_buffer_cache_create 8) () \<lparr>buf_mem = 64, buf_len = 16\<rparr> =
        Inr (C, (), \<lparr>entry_memh = 65, entry_mem = 64\<rparr>)" "cache_inv C" "cache_map C 64 = Some 65"
    by (auto simp: create_map)
  have "clh_buffer_cache_register_or_get demo_ucp C () \<lparr>buf_mem = 64, buf_len = 32\<rparr> =
      Inr (C, (), \<lparr>entry_memh = 65, entry_mem = 64\<rparr>)"
    using register_hit [OF C(2), of "\<lparr>buf_mem = 64, buf_len = 32\<rparr>" 65 demo_ucp "()"] C(3) by simp
  then have run: "get_all (cache_get demo_ucp) (clh_buffer_cache_create 8) () [(64, 16), (64, 32)] =
      Inr (C, (), [65, 65])"
    using C(1) by (simp add: cache_get_def)
  show ?thesis using registrations_stable [OF create_inv _ run] run by auto
qed

text \<open>
  When UCX refuses to map a buffer, the failure does not reach the caller as the error code
  it has a branch for: an assertion aborts before.
\<close>

theorem registration_error_aborts:
  assumes "cache_inv C" and "cache_map C (buf_mem b) = None" and "buf_mem b \<noteq> 0"
    and "ucp_mem_map U u (buf_mem b) (buf_len b) = (status, memh, u')" "\<not> check_ucx status"
  shows "clh_buffer_cache_register_or_get U C u b = Inl Assert_Failed"
  using assms by (rule register_fail)

theorem registration_error_aborts_witness:
  "clh_buffer_cache_register_or_get (demo_ucp\<lparr>ucp_mem_map := (\<lambda>u p l. (UCS_ERR 1, 0, u))\<rparr>)
     (clh_buffer_cache_create 8) () demo_buffer = Inl Assert_Failed"
  by (rule registration_error_aborts [OF create_inv,
        where status = "UCS_ERR 1" and memh = 0 and u' = "()"])
    (simp_all add: create_map demo_buffer_def check_ucx_def)

text \<open>Asking whether a buffer is registered unlocks the mutex of the cache twice.\<close>

theorem is_registered_unlocks_twice:
  assumes "cache_inv C"
  shows "clh_buffer_cache_is_registered C b = Inl Unlock_Not_Held"
  using assms by (rule is_registered_faults)

theorem is_registered_unlocks_twice_witness:
  "clh_buffer_cache_is_registered (clh_buffer_cache_create 8) demo_buffer = Inl Unlock_Not_Held"
  by (rule is_registered_unlocks_twice [OF create_inv])

section \<open>Lists and arrays\<close>

text \<open>
  Nodes pushed on a list come out of it in reverse: \<open>clh_list_pop_node\<close> takes from the end
  \<open>clh_list_push_node\<close> adds to. The send queue is served youngest first.
\<close>

theorem queue_is_stack:
  assumes "list_rep S [] fs" and "distinct ns" and "\<forall>n \<in> set ns. node_live S n \<and> n \<notin> set fs"
  shows "\<exists>S'. ebind (push_all clh_list_push_node S ns) (pop_all clh_list_pop_node (Suc (length ns))) =
       Inr (S', rev ns) \<and> list_rep S' [] fs"
  using assms by (rule lq.push_all_pop_all)

definition demo_nodes_heap :: "clh_message node_heap" where
  "demo_nodes_heap = \<lparr>cells = (\<lambda>a. if a < 3 then Some (demo_msg_junk a) else None), brk = 3\<rparr>"

theorem queue_is_stack_witness:
  "\<exists>S'. ebind (push_all clh_list_push_node (demo_nodes_heap, empty_list demo_msg_junk) [0, 1, 2])
     (pop_all clh_list_pop_node 4) = Inr (S', [2, 1, 0])"
proof -
  have "\<exists>S'. ebind (push_all clh_list_push_node (demo_nodes_heap, empty_list demo_msg_junk) [0, 1, 2])
     (pop_all clh_list_pop_node (Suc (length [0, 1, 2 :: nat]))) = Inr (S', rev [0, 1, 2]) \<and>
     list_rep S' [] []"
    by (rule queue_is_stack) (auto simp: list_rep_def node_live_def demo_nodes_heap_def)
  then show ?thesis by (auto simp: numeral_eq_Suc)
qed

text \<open>
  Removing a node from anywhere in a list leaves the others linked in their order and puts
  the node in front of the free list; no data changes and no other node is touched.
\<close>

theorem remove_unlinks:
  assumes "list_inv H L (as @ n # bs) fs"
  shows "\<exists>H' L'. clh_list_remove_node (H, L) n = Inr (H', L') \<and>
     list_inv H' L' (as @ bs) (n # fs) \<and>
     relinks (set (as @ n # bs)) H H' \<and> same_config L L'"
  using assms by (rule remove_node_spec)

theorem remove_unlinks_witness:
  "\<exists>(H :: clh_message node_heap) L H' L'. list_inv H L [0, 1, 2] [] \<and>
     clh_list_remove_node (H, L) 1 = Inr (H', L') \<and> list_inv H' L' [0, 2] [1]"
proof -
  have "list_rep (demo_nodes_heap, empty_list demo_msg_junk) [] []" by (simp add: list_rep_def)
  moreover have "\<forall>n \<in> set [0, 1, 2]. node_live (demo_nodes_heap, empty_list demo_msg_junk) n \<and>
      n \<notin> set [] \<union> set []"
    by (simp add: node_live_def demo_nodes_heap_def)
  moreover have "distinct [0, 1, 2 :: nat]" by simp
  ultimately obtain S :: "clh_message list_state" where "list_rep S ([] @ [0, 1, 2]) []"
    using lq.push_all_inv by blast
  then have inv: "list_inv (fst S) (snd S) ([0] @ 1 # [2]) []" by (simp add: list_rep_def)
  from remove_unlinks [OF this] obtain H' L' where
    "clh_list_remove_node (fst S, snd S) 1 = Inr (H', L')" "list_inv H' L' [0, 2] [1]"
    by auto
  moreover have "list_inv (fst S) (snd S) [0, 1, 2] []" using inv by simp
  ultimately show ?thesis by blast
qed

text \<open>
  Giving back no nodes at all leaves the list locked for good: whatever the thread does with
  it next blocks.
\<close>

theorem release_nothing_blocks:
  assumes "\<not> list_mutex L" and "beg = None \<or> fin = None"
  shows "ebind (clh_list_release_nodes (H, L) beg fin) (\<lambda>S. clh_list_push_node S n) = Inl Deadlock \<and>
     ebind (clh_list_release_nodes (H, L) beg fin) (\<lambda>S. clh_list_release_node S n) = Inl Deadlock \<and>
     ebind (clh_list_release_nodes (H, L) beg fin) clh_list_new_node = Inl Deadlock \<and>
     ebind (clh_list_release_nodes (H, L) beg fin) clh_list_get_all_nodes = Inl Deadlock"
  using release_nothing_keeps_lock [OF assms, of H] by (simp add: locked_blocks)

theorem release_nothing_blocks_witness:
  "ebind (clh_list_release_nodes (demo_nodes_heap, empty_list demo_msg_junk) None None)
     (\<lambda>S. clh_list_push_node S 0) = Inl Deadlock"
  using release_nothing_blocks [of "empty_list demo_msg_junk" None None demo_nodes_heap 0]
  by (simp add: empty_list_def)

text \<open>
  C37. On an array in good order, appending never writes past the memory, and removing an index of
  it takes away that element and keeps the others, in another order. The guard of the removal lets
  an index past the length through: then the last element is dropped instead, or memory past the
  capacity is written.
\<close>

theorem array_remove_element:
  assumes inv: "array_inv arr" and nonempty: "0 < arr_len arr"
  shows "if idx < arr_len arr then
       \<exists>arr'. array_remove arr idx = Inr arr' \<and> array_inv arr' \<and>
         mset (array_list arr') = mset (array_list arr) - {#array_list arr ! idx#}
     else if idx < arr_cap arr then
       \<exists>arr'. array_remove arr idx = Inr arr' \<and> array_list arr' = butlast (array_list arr)
     else array_remove arr idx = Inl Out_Of_Bounds"
proof (cases "idx < arr_len arr")
  case True
  then show ?thesis using array_remove_mset [OF inv True] by auto
next
  case False
  let ?p = "(arr_ptr arr)[idx := arr_ptr arr ! (arr_len arr - 1)]"
  have "butlast (array_list arr) = map the (take (arr_len arr - 1) ?p)"
    using False inv nonempty
    by (simp add: array_list_def array_inv_def map_butlast [symmetric] butlast_take)
  then show ?thesis using False array_remove_past_end [OF inv nonempty, of idx]
    by (auto simp: array_list_def)
qed

theorem array_remove_element_witness:
  "\<exists>arr :: nat clh_array. array_list arr = [5] \<and> array_remove arr 9 = Inl Out_Of_Bounds"
proof -
  let ?arr = "\<lparr>arr_ptr = [Some 5, None], arr_cap = 2, arr_len = 1\<rparr> :: nat clh_array"
  have "array_inv ?arr" by (simp add: array_inv_def)
  from array_remove_element [OF this, of 9] have "array_remove ?arr 9 = Inl Out_Of_Bounds" by simp
  moreover have "array_list ?arr = [5]" by (simp add: array_list_def)
  ultimately show ?thesis by blast
qed

section \<open>Start-up\<close>

text \<open>
  Every process publishes its address under a key of its own: the keys of two ranks are the
  same only if the ranks are.
\<close>

theorem key_identifies_rank: "clh_pmi_make_key m = clh_pmi_make_key n \<longleftrightarrow> m = n"
  using make_key_inj by blast

text \<open>
  C38. When \<open>ucx_init\<close> succeeds there is an endpoint to every process but this one, whose entry of
  the array nobody writes; the cache is empty and the rest of the handle is as it was.
\<close>

theorem ucx_init_connects:
  assumes "ucx_init U P h = Inr (h', CLH_STATUS_SUCCESS)"
  shows "ucx_frame h h' \<and> cache_inv (h_buffer_cache h') \<and> cache_map (h_buffer_cache h') = Map.empty \<and>
     length (h_endpoints h') = unat (clh_nb_nodes h) \<and>
     (\<forall>i < unat (clh_nb_nodes h). h_endpoints h' ! i = None \<longleftrightarrow> i = own_rank (clh_node_id h))"
  using assms by (rule ucx_init_spec)

theorem ucx_init_connects_witness:
  "\<exists>h. ucx_init demo_ucp demo_pmix demo_handle = Inr (h, CLH_STATUS_SUCCESS) \<and>
     length (h_endpoints h) = 2 \<and> h_endpoints h ! 0 = None \<and> h_endpoints h ! 1 \<noteq> None"
proof -
  obtain h where run: "ucx_init demo_ucp demo_pmix demo_handle = Inr (h, CLH_STATUS_SUCCESS)"
    using ucx_init_answers [OF demo_pmix_answers demo_ucp_ok(5)] by blast
  have eps: "length (h_endpoints h) = 2" "\<forall>i < 2. h_endpoints h ! i = None \<longleftrightarrow> i = 0"
    using ucx_init_connects [OF run] by (simp_all add: own_rank_def)
  then have "h_endpoints h ! 0 = None" "h_endpoints h ! 1 \<noteq> None" by simp_all
  with run eps(1) show ?thesis by blast
qed

section \<open>Hand-shakes\<close>

text \<open>
  C39. Completion wakes one thread only: with two threads in \<open>clh_wait\<close> for one request a run
  leads to a state in which the request is completed, one thread has returned, and the other
  sleeps with nobody left to wake it.
\<close>

theorem second_waiter_sleeps:
  "wait_step\<^sup>*\<^sup>* (wait_init 2) (two_waiters None [User 1] True Returned In_Wait Finished) \<and>
   (\<nexists>s. program_step (two_waiters None [User 1] True Returned In_Wait Finished) s)"
  using two_waiters_reach two_waiters_stuck by blast

text \<open>
  C40. The hand-shake of \<open>start_\<close> waits without a predicate and without the lock: the wait unlocks
  a mutex that is not held; where that has no effect, a notification that comes first is lost and
  \<open>start_\<close> sleeps for ever; and a spurious wake-up lets \<open>start_\<close> destroy the condition variable
  before the worker has initialised UCX and while it has still to notify.
\<close>

theorem start_handshake_broken:
  "clh_conditional_variable_wait (User 0) sync_create = Inl Unlock_Not_Held \<and>
   (start_any\<^sup>*\<^sup>* start_init (start_at None [User 0] True True Start_Waits Run_Loop) \<and>
    (\<nexists>s. start_step (start_at None [User 0] True True Start_Waits Run_Loop) s)) \<and>
   start_any\<^sup>*\<^sup>* start_init (start_at (Some (User 0)) [] False False Start_Destroyed Run_Init) \<and>
   start_any\<^sup>*\<^sup>* start_init (start_at (Some (User 0)) [] False True Start_Destroyed Run_Notify)"
  using start_wait_undefined start_lost_wakeup start_early_return by blast

section \<open>Buffers\<close>

text \<open>
  The builder writes over the structure it is given instead of into the memory that points
  to: after a first append of eight bytes the pointer to the memory is those bytes.
\<close>

theorem append_overwrites_buffer:
  assumes "bb_pos bb = 0" and "length data = 8" and "8 < buf_len (load_buffer M (bb_buffer bb))"
  shows "\<exists>M' bb'. clh_bb_append M bb data = (M', bb', True) \<and>
     buf_mem (load_buffer M' (bb_buffer bb)) = word_rcat (rev data)"
  using assms by (rule append_overwrites_pointer)

theorem append_overwrites_buffer_witness:
  "\<exists>M' bb'. clh_bb_append (\<lambda>_. 1) (clh_bb_create 64) [1, 2, 3, 4, 5, 6, 7, 8] = (M', bb', True) \<and>
     buf_mem (load_buffer M' 64) = word_rcat [8, 7, 6, 5, 4, 3, 2, 1 :: clh_u8]"
proof -
  have "8 < buf_len (load_buffer (\<lambda>_. 1) (bb_buffer (clh_bb_create 64)))" by code_simp
  from append_overwrites_buffer [OF _ _ this, of "[1, 2, 3, 4, 5, 6, 7, 8]"] show ?thesis
    by (simp add: clh_bb_create_def)
qed

end
