(* ===== verification/Clh_Conc.thy ===== *)
theory Clh_Conc
  imports Clh_System
begin

text \<open>
  The library with its threads interleaved inside the functions: the worker stops between any two
  operations of \<open>run_\<close> on data it shares, and any number of user threads stop between taking a
  node, filling it in and pushing it. What runs without a stop is what the code protects: one
  operation on a list, under the mutex of that list, and the accesses to data only one thread has,
  that is the operations in flight, the counter of sends, the buffer cache and UCP for the worker,
  a request for the thread that took its node.

  The calls interleaved are \<open>clh_send\<close>, \<open>clh_recv\<close>, \<open>clh_recv_from\<close>, \<open>clh_request_recv\<close> and
  \<open>clh_request_release\<close>. \<open>clh_probe\<close> searches a list of messages under its mutex and uses what it
  found after giving it back; Clh\_Race shows what can happen in between.
\<close>

section \<open>The worker\<close>

text \<open>
  The points between which the worker can be interrupted. \<open>Send_Post\<close> has the node popped from
  the send queue, \<open>Recv_Post\<close> the rest of the list of receives, \<open>Ops\<close> the index into the array.
\<close>

datatype worker_pc =
    Loop_Test | Probing
  | Send_Test | Send_Pop | Send_Post nat
  | Recv_Test | Recv_Get | Recv_Post node_ptr
  | Progress | Ops nat
  | Stopped

definition send_pop :: "'u clh_handle \<Rightarrow> ('u clh_handle \<times> worker_pc) res" where
  "send_pop h =
     (if \<not> h_send_count h < of_nat CONF_SEND_THRESH then Inr (h, Recv_Test)
      else
        ebind (clh_list_pop_node (queue_state h CLH_REQUEST_TYPE_SEND)) (\<lambda>(S, node).
        Inr (set_queue h CLH_REQUEST_TYPE_SEND S,
             case node of None \<Rightarrow> Recv_Test | Some n \<Rightarrow> Send_Post n)))"

definition recv_get :: "'u clh_handle \<Rightarrow> ('u clh_handle \<times> worker_pc) res" where
  "recv_get h =
     ebind (clh_list_get_all_nodes (queue_state h CLH_REQUEST_TYPE_RECV)) (\<lambda>(S, (beg, fin)).
     Inr (set_queue h CLH_REQUEST_TYPE_RECV S, Recv_Post beg))"

definition recv_post ::
  "'u ucp \<Rightarrow> 'u clh_handle \<Rightarrow> nat \<Rightarrow> ('u clh_handle \<times> worker_pc) res" where
  "recv_post U h cur =
     ebind (process_recv_one U h cur) (\<lambda>(h, status).
     ebind (c_assert (status = CLH_STATUS_SUCCESS)) (\<lambda>_.
     ebind (hget (h_requests h) cur) (\<lambda>nd. Inr (h, Recv_Post (node_next nd)))))"

text \<open>One iteration of \<open>process_ops_queue_\<close>; its error result violates the assertion of \<open>run_\<close>.\<close>

definition ops_one ::
  "'u ucp \<Rightarrow> 'u clh_handle \<Rightarrow> nat \<Rightarrow> ('u clh_handle \<times> worker_pc) res" where
  "ops_one U h idx =
     (if \<not> idx < arr_len (h_ops_queue h) then Inr (h, Loop_Test)
      else
        ebind (array_get (h_ops_queue h) idx) (\<lambda>op.
        ebind (test_op U h op) (\<lambda>(h, status, ur).
        (case status of
           UCS_INPROGRESS \<Rightarrow> Inr (h, Ops (idx + 1))
         | UCS_OK \<Rightarrow> ebind (finish_op U h idx ur (op_request op)) (\<lambda>h. Inr (h, Ops idx))
         | UCS_ERR e \<Rightarrow>
             ebind (array_remove (h_ops_queue h) idx) (\<lambda>ops. Inl Assert_Failed)))))"

fun worker_step ::
  "'u ucp \<Rightarrow> 'u clh_handle \<Rightarrow> worker_pc \<Rightarrow> ('u clh_handle \<times> worker_pc) res" where
  "worker_step U h Loop_Test =
     Inr (h, if h_run h \<or> \<not> queues_empty h then Probing else Stopped)"
| "worker_step U h Probing = ebind (probe_incomming_messages U h) (\<lambda>h. Inr (h, Send_Test))"
| "worker_step U h Send_Test =
     Inr (h, if list_head (h_request_queues h CLH_REQUEST_TYPE_SEND) = None then Recv_Test
             else Send_Pop)"
| "worker_step U h Send_Pop = send_pop h"
| "worker_step U h (Send_Post node) =
     ebind (process_send_one U h node) (\<lambda>(h, status).
     ebind (c_assert (status = CLH_STATUS_SUCCESS)) (\<lambda>_. Inr (h, Send_Pop)))"
| "worker_step U h Recv_Test =
     Inr (h, if list_head (h_request_queues h CLH_REQUEST_TYPE_RECV) = None then Progress
             else Recv_Get)"
| "worker_step U h Recv_Get = recv_get h"
| "worker_step U h (Recv_Post None) = Inr (h, Progress)"
| "worker_step U h (Recv_Post (Some cur)) = recv_post U h cur"
| "worker_step U h Progress =
     Inr (fst (worker_progress_loop CONF_PROGRESS_COUNT U h 0), Ops 0)"
| "worker_step U h (Ops idx) = ops_one U h idx"
| "worker_step U h Stopped = Inr (h, Stopped)"

section \<open>The user threads\<close>

text \<open>The calls that post a new request, \<open>clh_recv\<close> and \<open>clh_recv_from\<close> with their pattern.\<close>

datatype clh_call =
    Call_Send clh_u32 clh_u32 clh_u32 clh_buffer
  | Call_Recv clh_u64 clh_u64 clh_buffer

fun call_queue :: "clh_call \<Rightarrow> clh_request_type" where
  "call_queue (Call_Send channel dest tag buffer) = CLH_REQUEST_TYPE_SEND"
| "call_queue (Call_Recv tag tag_mask buffer) = CLH_REQUEST_TYPE_RECV"

text \<open>What the call writes into the node it took.\<close>

fun call_fill :: "'u clh_handle \<Rightarrow> clh_call \<Rightarrow> clh_request \<Rightarrow> clh_request" where
  "call_fill h (Call_Send channel dest tag buffer) =
     (let source = clh_node_id h in (\<lambda>q. q\<lparr>
       req_type := CLH_REQUEST_TYPE_SEND,
       req_completed := False,
       req_channel := channel,
       req_tag := tag,
       req_source := source,
       req_data := Send_Data \<lparr>send_buffer = buffer,
                              send_tag = clh_encode_tag channel source tag,
                              send_dest = dest\<rparr>\<rparr>))"
| "call_fill h (Call_Recv tag tag_mask buffer) =
     (\<lambda>q. q\<lparr>
       req_type := CLH_REQUEST_TYPE_RECV,
       req_completed := False,
       req_data := Recv_Data \<lparr>recv_buffer = buffer, recv_tag = tag, recv_tag_mask = tag_mask,
                              recv_infos = None, recv_msg = 0\<rparr>\<rparr>)"

datatype user_pc =
    Outside
  | Taking clh_call
  | Filling clh_call nat
  | Pushing clh_request_type nat

fun user_step :: "'u clh_handle \<Rightarrow> user_pc \<Rightarrow> ('u clh_handle \<times> user_pc) res" where
  "user_step h Outside = Inr (h, Outside)"
| "user_step h (Taking c) =
     ebind (clh_list_new_node (queue_state h (call_queue c))) (\<lambda>(S, node).
     Inr (set_queue h (call_queue c) S, Filling c node))"
| "user_step h (Filling c node) =
     ebind (upd_request h node (call_fill h c)) (\<lambda>h. Inr (h, Pushing (call_queue c) node))"
| "user_step h (Pushing ty node) =
     ebind (clh_list_push_node (queue_state h ty) node) (\<lambda>S. Inr (set_queue h ty S, Outside))"

text \<open>The part of \<open>clh_request_recv\<close> before the push.\<close>

definition request_recv_fill ::
  "'u clh_handle \<Rightarrow> nat \<Rightarrow> clh_buffer \<Rightarrow> 'u clh_handle res" where
  "request_recv_fill h request buffer =
     ebind (get_request h request) (\<lambda>q.
     ebind (probe_arm (req_data q)) (\<lambda>d.
     ebind (initialised (probe_sender_tag d)) (\<lambda>tag.
     let remove = probe_remove d; msg = probe_msg d in
     upd_request h request (\<lambda>q. q\<lparr>
       req_completed := False,
       req_data := Recv_Data \<lparr>recv_buffer = buffer, recv_tag = tag,
                              recv_tag_mask = 0xFFFFFFFFFFFFFFFF, recv_infos = None,
                              recv_msg = (if remove then msg else 0)\<rparr>\<rparr>))))"

text \<open>Run by one thread without a stop, the steps are the functions of the interface.\<close>

definition run_call :: "'u clh_handle \<Rightarrow> clh_call \<Rightarrow> ('u clh_handle \<times> nat) res" where
  "run_call h c =
     ebind (user_step h (Taking c)) (\<lambda>(h, pc).
     ebind (user_step h pc) (\<lambda>(h, pc).
     (case pc of
        Pushing ty n \<Rightarrow> ebind (user_step h pc) (\<lambda>(h, pc). Inr (h, n))
      | _ \<Rightarrow> Inl Assert_Failed)))"

lemma run_call_send: "run_call h (Call_Send channel dest tag buffer) = clh_send h channel dest tag buffer"
  by (simp add: run_call_def clh_send_def ebind_assoc case_prod_beta clh_node_id_def set_queue_def
      Let_def cong: ebind_cong)

lemma run_call_recv: "run_call h (Call_Recv tag tag_mask buffer) = clh_recv_post h tag tag_mask buffer"
  by (simp add: run_call_def clh_recv_post_def ebind_assoc case_prod_beta Let_def cong: ebind_cong)

lemma run_request_recv:
  "ebind (request_recv_fill h r buffer) (\<lambda>h.
     ebind (user_step h (Pushing CLH_REQUEST_TYPE_RECV r)) (\<lambda>(h, pc). Inr (h, r))) =
   clh_request_recv h r buffer"
  by (simp add: request_recv_fill_def clh_request_recv_def ebind_assoc Let_def
      clh_list_node_from_data_def cong: ebind_cong)

section \<open>The threads together\<close>

record 'u conc_state =
  cs_handle :: "'u clh_handle"
  cs_worker :: worker_pc
  cs_users :: "nat \<Rightarrow> user_pc"

datatype agent = Worker_Thread | Network | User_Thread nat

text \<open>The requests in the hands of the calls under way.\<close>

fun held_by :: "user_pc \<Rightarrow> nat set" where
  "held_by Outside = {}"
| "held_by (Taking c) = {}"
| "held_by (Filling c n) = {n}"
| "held_by (Pushing ty n) = {n}"

definition held :: "(nat \<Rightarrow> user_pc) \<Rightarrow> nat set" where
  "held us = (\<Union>t. held_by (us t))"

text \<open>What the caller of a posting function has to respect.\<close>

fun call_ok :: "'u clh_handle \<Rightarrow> clh_call \<Rightarrow> bool" where
  "call_ok h (Call_Send channel dest tag buffer) \<longleftrightarrow> channel_ok channel \<and>
     unat dest < length (h_endpoints h) \<and> h_endpoints h ! unat dest \<noteq> None"
| "call_ok h (Call_Recv tag tag_mask buffer) \<longleftrightarrow> True"

text \<open>
  A step is labelled with the thread that takes it. A user may give back, or receive into, only
  requests that were returned to it, that is none a call under way has in its hands.
\<close>

inductive conc_step :: "'u ucp \<Rightarrow> agent \<Rightarrow> 'u conc_state \<Rightarrow> 'u conc_state \<Rightarrow> bool" for U where
  worker: "worker_step U (cs_handle s) (cs_worker s) = Inr (h', pc) \<Longrightarrow>
    conc_step U Worker_Thread s (s\<lparr>cs_handle := h', cs_worker := pc\<rparr>)"
| network: "conc_step U Network s (s\<lparr>cs_handle := (cs_handle s)\<lparr>h_world := u\<rparr>\<rparr>)"
| enter: "cs_users s t = Outside \<Longrightarrow> call_ok (cs_handle s) c \<Longrightarrow>
    conc_step U (User_Thread t) s (s\<lparr>cs_users := (cs_users s)(t := Taking c)\<rparr>)"
| user: "user_step (cs_handle s) (cs_users s t) = Inr (h', pc) \<Longrightarrow>
    conc_step U (User_Thread t) s (s\<lparr>cs_handle := h', cs_users := (cs_users s)(t := pc)\<rparr>)"
| request_recv: "cs_users s t = Outside \<Longrightarrow> may_release (cs_handle s) r \<Longrightarrow>
    r \<notin> held (cs_users s) \<Longrightarrow> found_something (cs_handle s) r \<Longrightarrow>
    request_recv_fill (cs_handle s) r buffer = Inr h' \<Longrightarrow>
    conc_step U (User_Thread t) s
      (s\<lparr>cs_handle := h', cs_users := (cs_users s)(t := Pushing CLH_REQUEST_TYPE_RECV r)\<rparr>)"
| release: "cs_users s t = Outside \<Longrightarrow> may_release (cs_handle s) r \<Longrightarrow>
    r \<notin> held (cs_users s) \<Longrightarrow> clh_request_release (cs_handle s) r = Inr h' \<Longrightarrow>
    conc_step U (User_Thread t) s (s\<lparr>cs_handle := h'\<rparr>)"
| stop: "conc_step U (User_Thread t) s (s\<lparr>cs_handle := (cs_handle s)\<lparr>h_run := False\<rparr>\<rparr>)"

inductive_cases worker_thread_elim: "conc_step U Worker_Thread s s'"
inductive_cases network_elim: "conc_step U Network s s'"
inductive_cases user_thread_elim: "conc_step U (User_Thread t) s s'"

text \<open>All threads at rest: the worker before its loop, the users outside the library.\<close>

definition conc_start :: "'u clh_handle \<Rightarrow> 'u conc_state" where
  "conc_start h = \<lparr>cs_handle = h, cs_worker = Loop_Test, cs_users = (\<lambda>_. Outside)\<rparr>"

abbreviation conc_reach :: "'u ucp \<Rightarrow> 'u conc_state \<Rightarrow> 'u conc_state \<Rightarrow> bool" where
  "conc_reach U \<equiv> (\<lambda>s s'. \<exists>a. conc_step U a s s')\<^sup>*\<^sup>*"

lemma conc_reach_step: "conc_reach U s0 s \<Longrightarrow> conc_step U a s s' \<Longrightarrow> conc_reach U s0 s'"
  by (rule rtranclp.rtrancl_into_rtrancl) blast+

end
