(* ===== verification/Clh_Conc_Props.thy ===== *)
theory Clh_Conc_Props
  imports Clh_Conc
begin

text \<open>
  The interleaved threads: each step of the worker keeps the invariant next to whatever requests
  the users have in hand and touches only requests that were posted; each step of a user keeps it
  next to what the worker has in hand and touches only the request of its own call. So the threads
  do not interfere, and the steps of the worker, run without a stop, are the iteration of
  \<open>run_\<close>.
\<close>

section \<open>What the threads have in hand\<close>

text \<open>
  The requests of the handle when the worker has taken \<open>ws\<close> and the users \<open>A\<close>: these exist, are
  in no list and not in flight, and nobody has what another has.
\<close>

definition conc_rep ::
  "'u clh_handle \<Rightarrow> nat list \<Rightarrow> nat set \<Rightarrow> (clh_request_type \<Rightarrow> nat list) \<Rightarrow>
     (clh_request_type \<Rightarrow> nat list) \<Rightarrow> bool" where
  "conc_rep h ws A qs fs \<longleftrightarrow>
     reqs_ok h (set ws \<union> A) qs fs \<and> (\<exists>ms mf. msgs_ok (h_messages h) (h_recv_list h) ms mf) \<and>
     cache_inv (h_buffer_cache h) \<and> distinct ws \<and> set ws \<inter> A = {} \<and>
     (set ws \<union> A) \<inter> pooled UNIV qs fs = {} \<and> (\<forall>a \<in> set ws \<union> A. req_at h a \<noteq> None)"

text \<open>What the worker has taken at each of its points.\<close>

fun worker_ok :: "'u clh_handle \<Rightarrow> worker_pc \<Rightarrow> nat list \<Rightarrow> bool" where
  "worker_ok h (Send_Post n) ws \<longleftrightarrow> ws = [n] \<and>
     opt_all (send_ready (h_endpoints h)) (req_at h n) \<and>
     sends_of (h_requests h) (inflight h) < CONF_SEND_THRESH"
| "worker_ok h (Recv_Post c) ws \<longleftrightarrow> chain (cells (h_requests h)) c ws \<and>
     (\<forall>r \<in> set ws. opt_all recv_ready (req_at h r))"
| "worker_ok h pc ws \<longleftrightarrow> ws = []"

text \<open>The requests in the library's charge.\<close>

definition in_charge ::
  "'u clh_handle \<Rightarrow> (clh_request_type \<Rightarrow> nat list) \<Rightarrow> nat list \<Rightarrow> nat set" where
  "in_charge h qs ws = set (qs CLH_REQUEST_TYPE_SEND) \<union> set (qs CLH_REQUEST_TYPE_RECV) \<union>
     op_request ` set (inflight h) \<union> set ws"

lemma in_charge_tracked:
  "reqs_ok h A qs fs \<Longrightarrow> in_charge h qs ws = tracked h \<union> set ws"
  using reqs_ok_queued [of h A qs fs] by (simp add: in_charge_def tracked_def)

lemma in_charge_disjoint:
  assumes "conc_rep h ws A qs fs"
  shows "in_charge h qs ws \<inter> A = {}"
proof -
  have "op_request ` set (inflight h) \<inter> A = {}"
    using assms reqs_ok_disjoint unfolding conc_rep_def by blast
  moreover have "set (qs ty) \<subseteq> pooled UNIV qs fs" for ty by (auto simp: pooled_def)
  ultimately show ?thesis
    using assms unfolding conc_rep_def in_charge_def by fast
qed

text \<open>
  The way of a request: from the queue of receives into the hand of the worker, from there in
  flight, and then completed.
\<close>

definition forward ::
  "'u clh_handle \<Rightarrow> (clh_request_type \<Rightarrow> nat list) \<Rightarrow> nat list \<Rightarrow>
     'u clh_handle \<Rightarrow> (clh_request_type \<Rightarrow> nat list) \<Rightarrow> nat list \<Rightarrow> bool" where
  "forward h qs ws h' qs' ws' \<longleftrightarrow>
     set (qs CLH_REQUEST_TYPE_RECV) \<subseteq> set (qs' CLH_REQUEST_TYPE_RECV) \<union> set ws' \<and>
     set ws \<subseteq> set ws' \<union> op_request ` set (inflight h') \<and>
     (\<forall>a \<in> op_request ` set (inflight h). a \<in> op_request ` set (inflight h') \<or> completed_in h' a)"

text \<open>A send leaves the queue from its tail only, for the hand of the worker.\<close>

definition popped :: "nat list \<Rightarrow> nat list \<Rightarrow> worker_pc \<Rightarrow> bool" where
  "popped xs xs' pc \<longleftrightarrow> xs' = xs \<or> (\<exists>n. pc = Send_Post n \<and> xs = xs' @ [n])"

lemma popped_same [simp, intro]: "popped xs xs pc"
  by (simp add: popped_def)

text \<open>
  A step of the worker: the requests it was in charge of are still in its charge or completed, it
  takes on no other, changes none but these, and sends none back.
\<close>

definition worker_moved ::
  "'u clh_handle \<Rightarrow> nat list \<Rightarrow> nat set \<Rightarrow> (clh_request_type \<Rightarrow> nat list) \<Rightarrow>
     (clh_request_type \<Rightarrow> nat list) \<Rightarrow> 'u clh_handle \<times> worker_pc \<Rightarrow> bool" where
  "worker_moved h ws A qs fs r \<longleftrightarrow>
     (case r of (h', pc') \<Rightarrow> \<exists>ws' qs'. conc_rep h' ws' A qs' fs \<and> worker_ok h' pc' ws' \<and>
        same_setup h h' \<and> in_charge h' qs' ws' \<subseteq> in_charge h qs ws \<and>
        (\<forall>a \<in> in_charge h qs ws. a \<in> in_charge h' qs' ws' \<or> completed_in h' a) \<and>
        (\<forall>a. a \<notin> in_charge h qs ws \<longrightarrow> req_at h' a = req_at h a) \<and> forward h qs ws h' qs' ws' \<and>
        popped (qs CLH_REQUEST_TYPE_SEND) (qs' CLH_REQUEST_TYPE_SEND) pc')"

lemma worker_movedI:
  assumes "conc_rep h' ws' A qs' fs" and "worker_ok h' pc' ws'" and "same_setup h h'"
    and "in_charge h' qs' ws' \<subseteq> in_charge h qs ws"
    and "\<And>a. a \<in> in_charge h qs ws \<Longrightarrow> a \<in> in_charge h' qs' ws' \<or> completed_in h' a"
    and "\<And>a. a \<notin> in_charge h qs ws \<Longrightarrow> req_at h' a = req_at h a"
    and "forward h qs ws h' qs' ws'"
    and "popped (qs CLH_REQUEST_TYPE_SEND) (qs' CLH_REQUEST_TYPE_SEND) pc'"
  shows "worker_moved h ws A qs fs (h', pc')"
  using assms unfolding worker_moved_def by blast

text \<open>When the operations in flight stay.\<close>

lemma forwardI:
  assumes "set (qs CLH_REQUEST_TYPE_RECV) \<subseteq> set (qs' CLH_REQUEST_TYPE_RECV) \<union> set ws'"
    and "set ws \<subseteq> set ws' \<union> op_request ` set (inflight h')"
    and "set (inflight h) \<subseteq> set (inflight h')"
  shows "forward h qs ws h' qs' ws'"
  using assms unfolding forward_def by blast

section \<open>The steps of the worker\<close>

lemma moved_stay:
  "conc_rep h ws A qs fs \<Longrightarrow> worker_ok h pc ws \<Longrightarrow> worker_moved h ws A qs fs (h, pc)"
  by (rule worker_movedI) (auto intro: forwardI)

text \<open>Steps on messages and on the world only.\<close>

lemma moved_same_requests:
  assumes rep: "conc_rep h [] A qs fs" and same: "same_requests h h'"
    and msgs: "msgs_ok (h_messages h') (h_recv_list h') ms mf" and pc: "worker_ok h' pc []"
  shows "worker_moved h [] A qs fs (h', pc)"
proof (rule worker_movedI [OF _ pc])
  have H: "h_requests h' = h_requests h" using same by (simp add: same_requests_def)
  then have at: "req_at h' = req_at h" by (simp add: req_at_def fun_eq_iff)
  show "conc_rep h' [] A qs fs"
    using rep msgs same same_requests_reqs [OF same] at
    by (auto simp: conc_rep_def same_requests_def)
  show "same_setup h h'" using same by (simp add: same_requests_def)
  have "in_charge h' qs [] = in_charge h qs []"
    using same_requests_queued [OF same] by (simp add: in_charge_def)
  then show "in_charge h' qs [] \<subseteq> in_charge h qs []"
    and "\<And>a. a \<in> in_charge h qs [] \<Longrightarrow> a \<in> in_charge h' qs [] \<or> completed_in h' a" by simp_all
  show "req_at h' a = req_at h a" for a by (simp add: at)
  show "forward h qs [] h' qs []"
    using same_requests_queued [OF same] by (intro forwardI) auto
qed simp

lemma probing_step:
  assumes rep: "conc_rep h [] A qs fs"
  shows "outcome b (worker_step U h Probing) (worker_moved h [] A qs fs)"
proof -
  from rep obtain ms mf where msgs: "msgs_ok (h_messages h) (h_recv_list h) ms mf"
    by (auto simp: conc_rep_def)
  from probe_incoming_outcome [OF msgs, of CONF_PROBE_THRESH U] obtain h' ms' mf' where
    "probe_incomming_messages U h = Inr h'" "fetched h ms h' ms'"
    "msgs_ok (h_messages h') (h_recv_list h') ms' mf'"
    by (auto simp: probe_incomming_messages_def)
  then show ?thesis using moved_same_requests [OF rep] by (auto simp: fetched_def)
qed

lemma progress_step:
  assumes rep: "conc_rep h [] A qs fs"
  shows "outcome b (worker_step U h Progress) (worker_moved h [] A qs fs)"
proof -
  from rep obtain ms mf where msgs: "msgs_ok (h_messages h) (h_recv_list h) ms mf"
    by (auto simp: conc_rep_def)
  from worker_progress_world [of CONF_PROGRESS_COUNT U h 0] obtain u where
    w: "fst (worker_progress_loop CONF_PROGRESS_COUNT U h 0) = h\<lparr>h_world := u\<rparr>" by blast
  have "worker_moved h [] A qs fs (h\<lparr>h_world := u\<rparr>, Ops 0)"
    by (rule moved_same_requests [OF rep])
      (use msgs in \<open>auto simp: same_requests_def same_setup_def\<close>)
  then show ?thesis by (simp add: w)
qed

lemma send_pop_step:
  assumes rep: "conc_rep h [] A qs fs"
  shows "outcome b (send_pop h) (worker_moved h [] A qs fs)"
proof -
  have reqs: "reqs_ok h A qs fs" and A: "A \<inter> pooled UNIV qs fs = {}"
    using rep by (simp_all add: conc_rep_def)
  note stay = moved_stay [OF rep, of Recv_Test]
  show ?thesis
  proof (cases "h_send_count h < of_nat CONF_SEND_THRESH")
    case False
    then show ?thesis using stay by (simp add: send_pop_def)
  next
    case below: True
    then have room: "sends_of (h_requests h) (inflight h) < CONF_SEND_THRESH"
      using send_count_sends [OF reqs] thresh_less by auto
    show ?thesis
    proof (cases "qs CLH_REQUEST_TYPE_SEND" rule: rev_cases)
      case Nil
      have "pool_inv UNIV (h_requests h) (h_request_queues h) qs fs"
        using reqs by (simp add: reqs_ok_def)
      from pool_pop_empty [OF this UNIV_I Nil] below stay
      show ?thesis by (simp add: send_pop_def queue_state_def)
    next
      case (snoc xs n)
      let ?qs = "qs(CLH_REQUEST_TYPE_SEND := xs)"
      from pop_send_in [OF reqs snoc A] obtain S where
        pop: "clh_list_pop_node (queue_state h CLH_REQUEST_TYPE_SEND) = Inr (S, Some n)" and
        reqs': "reqs_ok (set_queue h CLH_REQUEST_TYPE_SEND S) (insert n A) ?qs fs" and
        n: "n \<notin> pooled UNIV ?qs fs" "n \<notin> A" and data: "data_at (fst S) = data_at (h_requests h)"
        by blast
      let ?h = "set_queue h CLH_REQUEST_TYPE_SEND S"
      have at: "req_at ?h = req_at h" and fl: "inflight ?h = inflight h"
        using data by (simp_all add: req_at_def set_queue_def inflight_def fun_eq_iff)
      have ready: "opt_all (send_ready (h_endpoints h)) (req_at h n)"
        using reqs snoc by (simp add: reqs_ok_def queue_ok_def req_at_def)
      have sends: "sends_of (h_requests ?h) (inflight ?h) = sends_of (h_requests h) (inflight h)"
        unfolding fl using data by (intro sends_of_cong) (simp add: set_queue_def)
      have "pooled UNIV ?qs fs \<subseteq> pooled UNIV qs fs"
        by (rule pooled_mono) (use snoc in auto)
      then have "conc_rep ?h [n] A ?qs fs"
        using rep reqs' n ready unfolding conc_rep_def at by (auto simp: opt_all_iff)
      moreover have "in_charge ?h ?qs [n] = in_charge h qs []"
        using snoc by (auto simp: in_charge_def fl)
      ultimately have "worker_moved h [] A qs fs (?h, Send_Post n)"
        using ready room sends at fl
        by (intro worker_movedI forwardI) (auto simp: same_setup_def set_queue_def popped_def snoc)
      then show ?thesis using below pop by (simp add: send_pop_def)
    qed
  qed
qed

text \<open>
  Posting moves a request from the hand of the worker to the operations in flight.
\<close>

lemma moved_posted:
  assumes rep: "conc_rep h (r # ws) A qs fs" and posted: "posted h (set ws \<union> A) qs fs r h'"
    and msgs: "\<exists>ms mf. msgs_ok (h_messages h') (h_recv_list h') ms mf"
    and same: "same_setup h h'" and frame: "\<And>a. a \<noteq> r \<Longrightarrow> req_at h' a = req_at h a"
    and pc: "worker_ok h' pc ws"
  shows "worker_moved h (r # ws) A qs fs (h', pc)"
proof -
  from posted obtain op where p: "reqs_ok h' (set ws \<union> A) qs fs" "cache_inv (h_buffer_cache h')"
    "inflight h' = inflight h @ [op]" "op_request op = r"
    by (auto simp: posted_def)
  have "in_charge h' qs ws = in_charge h qs (r # ws)"
    using p(3,4) by (auto simp: in_charge_def)
  moreover have "req_at h' a \<noteq> None" if "a \<in> set ws \<union> A" for a
  proof -
    have "a \<noteq> r" using rep that by (auto simp: conc_rep_def)
    then show ?thesis using frame rep that by (auto simp: conc_rep_def)
  qed
  then have "conc_rep h' ws A qs fs"
    using rep p(1,2) msgs by (auto simp: conc_rep_def)
  ultimately show ?thesis
    using same pc frame p(3,4)
    by (intro worker_movedI forwardI) (auto simp: in_charge_def)
qed

lemma conc_rep_hand:
  assumes "conc_rep h (r # ws) A qs fs"
  shows "reqs_ok h (insert r (set ws \<union> A)) qs fs" and "r \<notin> pooled UNIV qs fs \<union> (set ws \<union> A)"
    and "cache_inv (h_buffer_cache h)"
  using assms by (auto simp: conc_rep_def)

lemma send_post_step:
  assumes rep: "conc_rep h ws A qs fs" and w: "worker_ok h (Send_Post n) ws"
    and U: "posts_requests U" "\<not> b \<longrightarrow> ucp_reliable U"
  shows "outcome b (worker_step U h (Send_Post n)) (worker_moved h ws A qs fs)"
proof -
  have ws: "ws = [n]" and ready: "opt_all (send_ready (h_endpoints h)) (req_at h n)"
    and room: "sends_of (h_requests h) (inflight h) < CONF_SEND_THRESH"
    using w by simp_all
  note rep' = rep [unfolded ws] and hand = conc_rep_hand [OF rep']
  have moved: "worker_moved h [n] A qs fs (h1, Send_Pop)"
    if "posted h (set [] \<union> A) qs fs n h1" and lists: "same_lists h h1" for h1
    using rep lists by (intro moved_posted [OF rep' that(1)])
      (auto simp: same_lists_def req_at_def conc_rep_def)
  show ?thesis
    unfolding ws worker_step.simps
    by (rule outcome_bind [OF process_send_one_outcome [OF hand(1,3,2) ready room U]])
      (auto split: if_splits intro!: outcome_assert moved)
qed

lemma recv_get_step:
  assumes rep: "conc_rep h [] A qs fs"
  shows "outcome b (recv_get h) (worker_moved h [] A qs fs)"
proof -
  let ?rs = "qs CLH_REQUEST_TYPE_RECV" and ?qs = "qs(CLH_REQUEST_TYPE_RECV := [])"
  have reqs: "reqs_ok h A qs fs" and A: "A \<inter> pooled UNIV qs fs = {}"
    using rep by (simp_all add: conc_rep_def)
  from get_recvs_in [OF this] obtain L' c d where
    run: "clh_list_get_all_nodes (queue_state h CLH_REQUEST_TYPE_RECV) =
       Inr ((h_requests h, L'), (c, d))" and
    got: "reqs_ok (set_queue h CLH_REQUEST_TYPE_RECV (h_requests h, L')) (set ?rs \<union> A) ?qs fs"
      "chain (cells (h_requests h)) c ?rs" "distinct ?rs"
      "set ?rs \<inter> (pooled UNIV ?qs fs \<union> A) = {}" "\<forall>r \<in> set ?rs. opt_all recv_ready (req_at h r)"
    by blast
  let ?h = "set_queue h CLH_REQUEST_TYPE_RECV (h_requests h, L')"
  have at: "req_at ?h = req_at h" and fl: "inflight ?h = inflight h"
    by (simp_all add: req_at_def set_queue_def inflight_def fun_eq_iff)
  have "pooled UNIV ?qs fs \<subseteq> pooled UNIV qs fs" by (rule pooled_mono) auto
  then have "conc_rep ?h ?rs A ?qs fs"
    using rep got unfolding conc_rep_def at by (auto simp: opt_all_iff)
  moreover have "in_charge ?h ?qs ?rs = in_charge h qs []"
    by (auto simp: in_charge_def fl)
  ultimately have "worker_moved h [] A qs fs (?h, Recv_Post c)"
    using got(2,5) at fl by (intro worker_movedI forwardI) (auto simp: same_setup_def set_queue_def)
  then show ?thesis using run by (simp add: recv_get_def)
qed

lemma recv_post_step:
  assumes rep: "conc_rep h ws A qs fs" and w: "worker_ok h (Recv_Post (Some r)) ws"
    and U: "posts_requests U" "\<not> b \<longrightarrow> ucp_reliable U"
  shows "outcome b (recv_post U h r) (worker_moved h ws A qs fs)"
proof -
  from w obtain rs nd where ws: "ws = r # rs" and nd: "cells (h_requests h) r = Some nd"
    and chain: "chain (cells (h_requests h)) (node_next nd) rs"
    and ready: "opt_all recv_ready (req_at h r)" "\<forall>a \<in> set rs. opt_all recv_ready (req_at h a)"
    by (cases ws) (auto split: option.splits)
  note rep' = rep [unfolded ws] and hand = conc_rep_hand [OF rep']
  from rep obtain ms mf where msgs: "msgs_ok (h_messages h) (h_recv_list h) ms mf"
    by (auto simp: conc_rep_def)
  have rest: "outcome b (ebind (hget (h_requests h1) r) (\<lambda>nd. Inr (h1, Recv_Post (node_next nd))))
      (worker_moved h (r # rs) A qs fs)"
    if post: "posted h (set rs \<union> A) qs fs r h1" and rc: "receives h ms r h1" for h1
  proof -
    from receives_effect(3) [OF rc msgs] obtain x where
      H: "h_requests h1 = h_requests h \<or> h_requests h1 = set_data (h_requests h) r x" by blast
    then obtain nd1 where nd1: "cells (h_requests h1) r = Some nd1" "node_next nd1 = node_next nd"
      and chain1: "chain (cells (h_requests h1)) (node_next nd) rs"
      using nd chain by auto
    have frame: "req_at h1 a = req_at h a" if "a \<noteq> r" for a
      using H that by (auto simp: req_at_def data_at_set_data)
    have "r \<notin> set rs" using rep' by (simp add: conc_rep_def)
    then have "worker_ok h1 (Recv_Post (node_next nd1)) rs"
      using chain1 ready(2) frame by (metis nd1(2) worker_ok.simps(2))
    from moved_posted [OF rep' post _ _ frame this] receives_effect(1) [OF rc msgs] rc
    show ?thesis using nd1(1) by (auto simp: hget_def receives_def)
  qed
  show ?thesis
    unfolding ws recv_post_def
    by (rule outcome_bind [OF process_recv_one_outcome [OF hand(1,3,2) ready(1) msgs U]])
      (auto split: if_splits intro!: outcome_assert rest)
qed

text \<open>Testing and finishing one operation in flight.\<close>

lemma conc_rep_ops:
  assumes "conc_rep h [] A qs fs" and "reqs_ok h1 A qs fs" and "same_rest h h1"
    and "req_at h1 = (req_at h)(r \<mapsto> y)"
  shows "conc_rep h1 [] A qs fs"
  using assms by (auto simp: conc_rep_def same_rest_def)

lemma ops_finish_step:
  assumes rep: "conc_rep h [] A qs fs" and idx: "idx < length (inflight h)"
    and reqs1: "reqs_ok (h\<lparr>h_requests := H'\<rparr>) A qs fs"
    and data: "data_at H' = (data_at (h_requests h))(op_request (inflight h ! idx) \<mapsto> x)"
    and infos: "req_type x = CLH_REQUEST_TYPE_RECV \<longrightarrow> has_infos x"
  shows "outcome b (finish_op U (h\<lparr>h_requests := H'\<rparr>) idx ur (op_request (inflight h ! idx)))
    (\<lambda>h1. worker_moved h [] A qs fs (h1, Ops idx))"
proof -
  let ?op = "inflight h ! idx" and ?h = "h\<lparr>h_requests := H'\<rparr>"
  let ?r = "op_request ?op"
  have h: "inflight ?h = inflight h" "same_rest h ?h" "req_at ?h = (req_at h)(?r \<mapsto> x)"
    using data by (auto simp: inflight_def same_rest_def same_setup_def req_at_def fun_eq_iff)
  have "idx < length (inflight ?h)" "req_at ?h (op_request (inflight ?h ! idx)) = Some x"
    using idx h(1,3) by simp_all
  from finish_op_spec [OF reqs1 this infos, of U ur] h(1) obtain h1 where
    fin: "finish_op U ?h idx ur ?r = Inr h1" "reqs_ok h1 A qs fs" "same_rest ?h h1"
      "inflight h1 = butlast ((inflight h)[idx := last (inflight h)])"
      "req_at h1 = (req_at ?h)(?r \<mapsto> finished x)"
    by auto
  have "mset (?op # inflight h1) = mset (inflight h)"
    using swap_remove_perm [OF idx] by (simp only: fin(4))
  from mset_eq_setD [OF this] have ops: "insert ?op (set (inflight h1)) = set (inflight h)" by simp
  have at: "req_at h1 = (req_at h)(?r \<mapsto> finished x)" using fin(5) h(3) by simp
  have rest: "same_rest h h1" by (rule same_rest_trans [OF h(2) fin(3)])
  have "op_request ` set (inflight h) = insert ?r (op_request ` set (inflight h1))"
    by (simp only: ops [symmetric] image_insert)
  then have charge: "in_charge h qs [] = insert ?r (in_charge h1 qs [])" by (auto simp: in_charge_def)
  moreover have "completed_in h1 ?r" using at by (simp add: completed_in_def opt_all_iff)
  moreover have "forward h qs [] h1 qs []"
    using calculation by (auto simp: forward_def ops [symmetric])
  ultimately have "worker_moved h [] A qs fs (h1, Ops idx)"
    using rest at by (intro worker_movedI [OF conc_rep_ops [OF rep fin(2) rest at]])
      (auto simp: same_rest_def)
  then show ?thesis by (simp add: fin(1))
qed

lemma ops_one_step:
  assumes rep: "conc_rep h [] A qs fs" and U: "fills_infos U" "\<not> b \<longrightarrow> ucp_reliable U"
  shows "outcome b (ops_one U h idx) (worker_moved h [] A qs fs)"
proof -
  have reqs: "reqs_ok h A qs fs" using rep by (simp add: conc_rep_def)
  note len = array_len_inflight [OF reqs]
  show ?thesis
  proof (cases "idx < length (inflight h)")
    case False
    then show ?thesis using len moved_stay [OF rep, of Loop_Test] by (simp add: ops_one_def)
  next
    case idx: True
    let ?op = "inflight h ! idx"
    have op: "?op \<in> set (inflight h)" using idx by simp
    from op_in_flight [OF reqs op] obtain ur q where
      ur: "op_status_ptr ?op = Status_Request ur" and q: "req_at h (op_request ?op) = Some q" by blast
    from test_op_spec [OF reqs op ur q U(1)] obtain H' st x where
      test: "test_op U h ?op = Inr (h\<lparr>h_requests := H'\<rparr>, st, ur)" and
      reqs1: "reqs_ok (h\<lparr>h_requests := H'\<rparr>) A qs fs" and
      data: "data_at H' = (data_at (h_requests h))(op_request ?op \<mapsto> x)" and
      same: "same_but_infos q x" and
      infos: "req_type q = CLH_REQUEST_TYPE_RECV \<and> st = UCS_OK \<longrightarrow> has_infos x" and
      rel: "ucp_reliable U \<longrightarrow> (\<forall>e. st \<noteq> UCS_ERR e)"
      by blast
    let ?h = "h\<lparr>h_requests := H'\<rparr>"
    have unfold: "ops_one U h idx =
        (case st of
           UCS_INPROGRESS \<Rightarrow> Inr (?h, Ops (idx + 1))
         | UCS_OK \<Rightarrow> ebind (finish_op U ?h idx ur (op_request ?op)) (\<lambda>h. Inr (h, Ops idx))
         | UCS_ERR e \<Rightarrow> ebind (array_remove (h_ops_queue h) idx) (\<lambda>ops. Inl Assert_Failed))"
      using idx len array_get_inflight [OF reqs idx] test
      by (simp add: ops_one_def split: ucs_status.splits)
    show ?thesis
    proof (cases st)
      case UCS_INPROGRESS
      have h: "inflight ?h = inflight h" "same_rest h ?h"
        "req_at ?h = (req_at h)(op_request ?op \<mapsto> x)"
        using data by (auto simp: inflight_def same_rest_def same_setup_def req_at_def fun_eq_iff)
      have "worker_moved h [] A qs fs (?h, Ops (idx + 1))"
        by (rule worker_movedI [OF conc_rep_ops [OF rep reqs1 h(2,3)]])
          (use op h in \<open>auto simp: same_rest_def in_charge_def intro: forwardI\<close>)
      then show ?thesis by (simp add: unfold UCS_INPROGRESS)
    next
      case UCS_OK
      then have "req_type x = CLH_REQUEST_TYPE_RECV \<longrightarrow> has_infos x"
        using infos same by (simp add: same_but_infos_def)
      then show ?thesis
        by (auto simp: unfold UCS_OK intro!: outcome_bind [OF ops_finish_step [OF rep idx reqs1 data]])
    next
      case (UCS_ERR e)
      then have b using rel U(2) by blast
      moreover have "idx < arr_len (h_ops_queue h)" using idx len by simp
      ultimately show ?thesis
        unfolding unfold UCS_ERR
        using array_remove_spec [of "h_ops_queue h" idx] reqs
        by (auto simp: reqs_ok_def ops_ok_def)
    qed
  qed
qed

text \<open>Whatever the point the worker is at.\<close>

lemma worker_step_outcome:
  assumes rep: "conc_rep h ws A qs fs" and w: "worker_ok h pc ws"
    and U: "posts_requests U" "fills_infos U" "\<not> b \<longrightarrow> ucp_reliable U"
  shows "outcome b (worker_step U h pc) (worker_moved h ws A qs fs)"
proof (cases "ws = []")
  case True
  note rep' = rep [unfolded True]
  show ?thesis
  proof (cases pc)
    case (Recv_Post c)
    then show ?thesis
      using w moved_stay [OF rep'] True by (cases c) auto
  next
    case Send_Pop
    then show ?thesis using send_pop_step [OF rep'] True by simp
  next
    case Recv_Get
    then show ?thesis using recv_get_step [OF rep'] True by simp
  next
    case (Ops idx)
    then show ?thesis using ops_one_step [OF rep' U(2,3)] True by simp
  qed (use True w moved_stay [OF rep'] probing_step [OF rep'] progress_step [OF rep'] in auto)
next
  case False
  then obtain r rs where ws: "ws = r # rs" by (cases ws) auto
  show ?thesis
  proof (cases pc)
    case (Send_Post n)
    then show ?thesis using send_post_step [OF rep _ U(1,3)] w by simp
  next
    case (Recv_Post c)
    then have "c = Some r" using w ws by simp
    then show ?thesis using recv_post_step [OF rep _ U(1,3)] w Recv_Post by simp
  qed (use w False in simp_all)
qed

section \<open>The steps of the users\<close>

fun user_ok :: "'u clh_handle \<Rightarrow> user_pc \<Rightarrow> bool" where
  "user_ok h Outside \<longleftrightarrow> True"
| "user_ok h (Taking c) \<longleftrightarrow> call_ok h c"
| "user_ok h (Filling c n) \<longleftrightarrow> call_ok h c"
| "user_ok h (Pushing ty n) \<longleftrightarrow>
     opt_all (\<lambda>q. ty = CLH_REQUEST_TYPE_SEND \<and> send_ready (h_endpoints h) q \<or>
       ty = CLH_REQUEST_TYPE_RECV \<and> recv_ready q) (req_at h n)"

text \<open>
  A step of a user, \<open>B\<close> being in the hands of the other users: it changes the requests \<open>X\<close> only,
  apart from free ones, and neither the links of what the worker has in hand nor the operations.
\<close>

definition user_moved ::
  "'u clh_handle \<Rightarrow> nat list \<Rightarrow> nat set \<Rightarrow> (clh_request_type \<Rightarrow> nat list) \<Rightarrow>
     (clh_request_type \<Rightarrow> nat list) \<Rightarrow> nat set \<Rightarrow> 'u clh_handle \<times> user_pc \<Rightarrow> bool" where
  "user_moved h ws B qs fs X r \<longleftrightarrow>
     (case r of (h', pc') \<Rightarrow> \<exists>qs' fs'. conc_rep h' ws (B \<union> held_by pc') qs' fs' \<and>
        B \<inter> held_by pc' = {} \<and> user_ok h' pc' \<and> h_endpoints h' = h_endpoints h \<and>
        inflight h' = inflight h \<and> (\<forall>ty. set (qs ty) \<subseteq> set (qs' ty)) \<and>
        (\<forall>a \<in> set ws. cells (h_requests h') a = cells (h_requests h) a) \<and>
        (\<forall>a. a \<notin> X \<and> req_at h a \<noteq> None \<and> (\<forall>ty. a \<notin> set (fs ty)) \<longrightarrow> req_at h' a = req_at h a))"

lemma user_movedI:
  assumes "conc_rep h' ws (B \<union> held_by pc') qs' fs'" and "B \<inter> held_by pc' = {}" and "user_ok h' pc'"
    and "h_endpoints h' = h_endpoints h" and "inflight h' = inflight h"
    and "\<And>ty. set (qs ty) \<subseteq> set (qs' ty)"
    and "\<And>a. a \<in> set ws \<Longrightarrow> cells (h_requests h') a = cells (h_requests h) a"
    and "\<And>a. a \<notin> X \<Longrightarrow> req_at h a \<noteq> None \<Longrightarrow> (\<And>ty. a \<notin> set (fs ty)) \<Longrightarrow> req_at h' a = req_at h a"
  shows "user_moved h ws B qs fs X (h', pc')"
  using assms unfolding user_moved_def by blast

text \<open>Other values for one request in hand.\<close>

lemma conc_rep_upd:
  assumes rep: "conc_rep h ws A qs fs" and n: "n \<in> A" and x: "channel_ok (req_channel x)"
  shows "conc_rep (h\<lparr>h_requests := set_data (h_requests h) n x\<rparr>) ws A qs fs"
proof -
  let ?h = "h\<lparr>h_requests := set_data (h_requests h) n x\<rparr>"
  have "insert n (set ws \<union> A) = set ws \<union> A" using n by auto
  with rep have reqs: "reqs_ok h (insert n (set ws \<union> A)) qs fs" by (simp add: conc_rep_def)
  have live: "n \<notin> pooled UNIV qs fs" "req_at h n \<noteq> None" using rep n by (auto simp: conc_rep_def)
  from reqs_ok_upd [OF reqs live(1) x live(2)]
  have "reqs_ok ?h (set ws \<union> A) qs fs" using \<open>insert n (set ws \<union> A) = set ws \<union> A\<close> by simp
  moreover have "req_at ?h a \<noteq> None" if "req_at h a \<noteq> None" for a
    using that live(2) by (auto simp: req_at_def data_at_set_data)
  ultimately show ?thesis using rep by (simp add: conc_rep_def)
qed

lemma conc_rep_channel:
  "conc_rep h ws A qs fs \<Longrightarrow> req_at h n = Some q \<Longrightarrow> channel_ok (req_channel q)"
  by (auto simp: conc_rep_def reqs_ok_def channels_ok_def req_at_def)

lemma taking_step:
  assumes rep: "conc_rep h ws B qs fs" and ok: "call_ok h c"
  shows "outcome b (user_step h (Taking c)) (user_moved h ws B qs fs {})"
proof -
  let ?ty = "call_queue c"
  have reqs: "reqs_ok h (set ws \<union> B) qs fs" and A: "(set ws \<union> B) \<inter> pooled UNIV qs fs = {}"
    "\<forall>a \<in> set ws \<union> B. req_at h a \<noteq> None"
    using rep by (simp_all add: conc_rep_def)
  from take_request_in [OF this, of ?ty] obtain S n fs' q where
    new: "clh_list_new_node (queue_state h ?ty) = Inr (S, n)" and
    reqs': "reqs_ok (set_queue h ?ty S) (insert n (set ws \<union> B)) qs (fs(?ty := fs'))" and
    n: "n \<notin> pooled UNIV qs (fs(?ty := fs'))" "n \<notin> set ws \<union> B" and
    q: "req_at (set_queue h ?ty S) n = Some q" and
    other: "\<forall>a. a \<noteq> n \<longrightarrow> req_at (set_queue h ?ty S) a = req_at h a" and
    orig: "n \<in> set (fs ?ty) \<or> req_at h n = None" "set fs' \<subseteq> set (fs ?ty)" and
    cells: "\<forall>a. a \<noteq> n \<longrightarrow> cells (fst S) a = cells (h_requests h) a"
    by blast
  let ?h = "set_queue h ?ty S"
  have "pooled UNIV qs (fs(?ty := fs')) \<subseteq> pooled UNIV qs fs"
    by (rule pooled_mono) (use orig(2) in auto)
  moreover have "req_at ?h a \<noteq> None" if "a \<in> insert n (set ws \<union> B)" for a
    using that A(2) other q by (cases "a = n") auto
  ultimately have "conc_rep ?h ws (B \<union> {n}) qs (fs(?ty := fs'))"
    using rep reqs' n unfolding conc_rep_def by auto
  moreover have "call_ok ?h c" using ok by (cases c) simp_all
  moreover have "cells (h_requests ?h) a = cells (h_requests h) a" if "a \<in> set ws" for a
    using cells n(2) that by (auto simp: set_queue_def)
  moreover have "req_at ?h a = req_at h a"
    if "req_at h a \<noteq> None" "\<And>ty. a \<notin> set (fs ty)" for a
    using other orig(1) that by metis
  ultimately have "user_moved h ws B qs fs {} (?h, Filling c n)"
    using n(2) by (intro user_movedI [where qs' = qs and fs' = "fs(?ty := fs')"])
      (auto simp: inflight_def)
  then show ?thesis using new by simp
qed

lemma filling_step:
  assumes rep: "conc_rep h ws (B \<union> {n}) qs fs" and B: "n \<notin> B" and ok: "call_ok h c"
  shows "outcome b (user_step h (Filling c n)) (user_moved h ws B qs fs {n})"
proof -
  from rep obtain q where q: "req_at h n = Some q" by (auto simp: conc_rep_def)
  let ?x = "call_fill h c q"
  let ?h = "h\<lparr>h_requests := set_data (h_requests h) n ?x\<rparr>"
  have run: "upd_request h n (call_fill h c) = Inr ?h"
    using q upd_request_Some by (simp add: req_at_def)
  have chan: "channel_ok (req_channel ?x)"
    using conc_rep_channel [OF rep q] ok by (cases c) (auto simp: Let_def)
  have at: "req_at ?h = (req_at h)(n \<mapsto> ?x)" by (rule req_at_set [OF q])
  have "user_ok ?h (Pushing (call_queue c) n)"
    using ok at by (cases c) (auto simp: opt_all_iff send_ready_iff recv_ready_iff Let_def)
  moreover have "n \<notin> set ws" using rep by (auto simp: conc_rep_def)
  ultimately have "user_moved h ws B qs fs {n} (?h, Pushing (call_queue c) n)"
    using conc_rep_upd [OF rep _ chan] B at
    by (intro user_movedI) (auto simp: inflight_def)
  then show ?thesis using run by simp
qed

lemma pushing_step:
  assumes rep: "conc_rep h ws (B \<union> {n}) qs fs" and B: "n \<notin> B" and ok: "user_ok h (Pushing ty n)"
  shows "outcome b (user_step h (Pushing ty n)) (user_moved h ws B qs fs {n})"
proof -
  have reqs: "reqs_ok h (insert n (set ws \<union> B)) qs fs" and n: "n \<notin> pooled UNIV qs fs"
    "n \<notin> set ws"
    using rep by (auto simp: conc_rep_def)
  from ok obtain q where q: "req_at h n = Some q" and
    fits: "ty = CLH_REQUEST_TYPE_SEND \<and> send_ready (h_endpoints h) q \<or>
       ty = CLH_REQUEST_TYPE_RECV \<and> recv_ready q"
    by (auto simp: opt_all_iff)
  from push_request_in [OF reqs n(1) q fits] obtain S where
    run: "clh_list_push_node (queue_state h ty) n = Inr S" and
    reqs': "reqs_ok (set_queue h ty S) (set ws \<union> B) (qs(ty := qs ty @ [n])) fs" and
    at: "req_at (set_queue h ty S) = req_at h" and
    cells: "\<forall>a. a \<notin> insert n (set (qs ty)) \<longrightarrow> cells (fst S) a = cells (h_requests h) a"
    by blast
  let ?h = "set_queue h ty S"
  have pooled: "pooled UNIV (qs(ty := qs ty @ [n])) fs \<subseteq> insert n (pooled UNIV qs fs)"
    by (auto simp: pooled_def split: if_splits)
  have "set (qs ty) \<subseteq> pooled UNIV qs fs" by (auto simp: pooled_def)
  then have ws: "cells (h_requests ?h) a = cells (h_requests h) a" if "a \<in> set ws" for a
    using cells n(2) rep that by (fastforce simp: conc_rep_def set_queue_def)
  have "conc_rep ?h ws B (qs(ty := qs ty @ [n])) fs"
    using rep reqs' pooled n(2) B unfolding conc_rep_def at by auto
  then have "user_moved h ws B qs fs {n} (?h, Outside)"
    using at ws by (intro user_movedI) (auto simp: inflight_def)
  then show ?thesis using run by simp
qed

lemma user_step_outcome:
  assumes rep: "conc_rep h ws (B \<union> held_by pc) qs fs" and B: "B \<inter> held_by pc = {}"
    and ok: "user_ok h pc"
  shows "outcome b (user_step h pc) (user_moved h ws B qs fs (held_by pc))"
proof (cases pc)
  case Outside
  then show ?thesis using rep by (auto intro!: user_movedI)
next
  case (Taking c)
  then show ?thesis using taking_step [of h ws B qs fs c] rep ok by simp
next
  case (Filling c n)
  then show ?thesis using filling_step [of h ws B n qs fs c] rep B ok by simp
next
  case (Pushing ty n)
  then show ?thesis using pushing_step [of h ws B n qs fs ty] rep B ok by simp
qed

text \<open>A completed request that no call has in hand is the user's.\<close>

lemma completed_unowned:
  assumes rep: "conc_rep h ws A qs fs" and w: "worker_ok h pc ws"
    and r: "may_release h r" "r \<notin> A"
  shows "r \<notin> in_charge h qs ws" and "r \<notin> pooled UNIV qs fs" and "\<exists>q. req_at h r = Some q"
proof -
  from r obtain q where q: "req_at h r = Some q" "req_completed q"
    by (auto simp: may_release_def completed_in_def opt_all_iff)
  then show "\<exists>q. req_at h r = Some q" by simp
  have reqs: "reqs_ok h (set ws \<union> A) qs fs" using rep by (simp add: conc_rep_def)
  have queue: "r \<notin> set (qs ty)" for ty
    using reqs q by (cases ty)
      (auto simp: reqs_ok_def queue_ok_def opt_all_iff req_at_def send_ready_def recv_ready_def)
  moreover have "r \<notin> op_request ` set (inflight h)"
    using op_in_flight [OF reqs] q by fastforce
  moreover have "r \<notin> set ws"
    using w q by (cases "(h, pc, ws)" rule: worker_ok.cases)
      (auto simp: opt_all_iff send_ready_iff recv_ready_iff)
  ultimately show "r \<notin> in_charge h qs ws" by (simp add: in_charge_def)
  have "r \<notin> set (fs ty)" for ty
    using r(1) reqs_ok_queued [OF reqs] by (simp add: may_release_def)
  with queue show "r \<notin> pooled UNIV qs fs" by (auto simp: pooled_def)
qed

text \<open>Taking such a request into the hand again.\<close>

lemma conc_rep_insert:
  assumes rep: "conc_rep h ws A qs fs" and r: "r \<notin> in_charge h qs ws" "r \<notin> pooled UNIV qs fs"
    and live: "req_at h r \<noteq> None"
  shows "conc_rep h ws (insert r A) qs fs"
proof -
  have "r \<notin> op_request ` set (inflight h)" "r \<notin> set ws" using r(1) by (auto simp: in_charge_def)
  then have "reqs_ok h (set ws \<union> insert r A) qs fs"
    using rep by (auto simp: conc_rep_def reqs_ok_def ops_ok_def inflight_def)
  then show ?thesis using rep r live \<open>r \<notin> set ws\<close> by (auto simp: conc_rep_def)
qed

lemma request_recv_fill_step:
  assumes rep: "conc_rep h ws A qs fs" and w: "worker_ok h pc ws" and r: "may_release h r" "r \<notin> A"
    and found: "found_something h r"
  shows "outcome b (request_recv_fill h r buffer)
           (\<lambda>h'. user_moved h ws A qs fs {r} (h', Pushing CLH_REQUEST_TYPE_RECV r))"
proof -
  note free = completed_unowned [OF rep w r]
  from found obtain q d tag where q: "req_at h r = Some q" "req_type q = CLH_REQUEST_TYPE_PROBE"
    "req_data q = Probe_Data d" "probe_sender_tag d = Some tag"
    by (auto simp: found_something_iff)
  let ?f = "\<lambda>q. q\<lparr>req_completed := False,
       req_data := Recv_Data \<lparr>recv_buffer = buffer, recv_tag = tag,
                              recv_tag_mask = 0xFFFFFFFFFFFFFFFF, recv_infos = None,
                              recv_msg = (if probe_remove d then probe_msg d else 0)\<rparr>\<rparr>"
  let ?h = "h\<lparr>h_requests := set_data (h_requests h) r (?f q)\<rparr>"
  have "upd_request h r ?f = Inr ?h"
    by (rule upd_request_Some) (use q(1) in \<open>simp add: req_at_def\<close>)
  then have run: "request_recv_fill h r buffer = Inr ?h"
    using q by (simp add: request_recv_fill_def Let_def)
  have rep': "conc_rep h ws (insert r A) qs fs"
    by (rule conc_rep_insert [OF rep free(1,2)]) (use q in simp)
  have chan: "channel_ok (req_channel (?f q))" using conc_rep_channel [OF rep q(1)] by simp
  have at: "req_at ?h = (req_at h)(r \<mapsto> ?f q)" by (rule req_at_set [OF q(1)])
  have "conc_rep ?h ws (A \<union> {r}) qs fs" using conc_rep_upd [OF rep' _ chan] by simp
  moreover have "user_ok ?h (Pushing CLH_REQUEST_TYPE_RECV r)"
    using at q(2) by (simp add: opt_all_iff recv_ready_iff)
  moreover have "r \<notin> set ws" using free(1) by (simp add: in_charge_def)
  ultimately have "user_moved h ws A qs fs {r} (?h, Pushing CLH_REQUEST_TYPE_RECV r)"
    using r(2) at by (intro user_movedI) (auto simp: inflight_def)
  then show ?thesis using run by simp
qed

lemma release_step:
  assumes rep: "conc_rep h ws A qs fs" and w: "worker_ok h pc ws" and r: "may_release h r" "r \<notin> A"
  shows "outcome b (clh_request_release h r) (\<lambda>h'. user_moved h ws A qs fs {} (h', Outside))"
proof -
  note free = completed_unowned [OF rep w r]
  from free(3) obtain q where q: "req_at h r = Some q" by blast
  have reqs: "reqs_ok h (set ws \<union> A) qs fs" using rep by (simp add: conc_rep_def)
  have ops: "r \<notin> op_request ` set (inflight h)" "r \<notin> set ws" using free(1) by (auto simp: in_charge_def)
  let ?fs = "fs(req_type q := r # fs (req_type q))"
  from release_request_in [OF reqs free(2) ops(1) q] obtain S where
    run: "clh_request_release h r = Inr (set_queue h (req_type q) S)" and
    reqs': "reqs_ok (set_queue h (req_type q) S) (set ws \<union> A) qs ?fs" and
    data: "data_at (fst S) = data_at (h_requests h)" and
    cells: "\<forall>a. a \<noteq> r \<longrightarrow> cells (fst S) a = cells (h_requests h) a"
    by blast
  let ?h = "set_queue h (req_type q) S"
  have at: "req_at ?h = req_at h" using data by (simp add: req_at_def set_queue_def fun_eq_iff)
  have "pooled UNIV qs ?fs \<subseteq> insert r (pooled UNIV qs fs)"
    by (auto simp: pooled_def split: if_splits)
  then have "conc_rep ?h ws A qs ?fs"
    using rep reqs' ops(2) r(2) unfolding conc_rep_def at by auto
  then have "user_moved h ws A qs fs {} (?h, Outside)"
    using at cells ops(2) by (intro user_movedI) (auto simp: inflight_def set_queue_def)
  then show ?thesis using run by simp
qed

section \<open>The threads do not interfere\<close>

text \<open>What the worker has in hand, read off its state.\<close>

fun in_hand :: "'u clh_handle \<Rightarrow> worker_pc \<Rightarrow> nat list" where
  "in_hand h (Send_Post n) = [n]"
| "in_hand h (Recv_Post c) = walk (brk (h_requests h)) (cells (h_requests h)) c"
| "in_hand h pc = []"

lemma conc_rep_read:
  assumes rep: "conc_rep h ws A qs fs" and w: "worker_ok h pc ws"
  shows "qs = queued h" and "fs = released h" and "ws = in_hand h pc"
proof -
  have reqs: "reqs_ok h (set ws \<union> A) qs fs" using rep by (simp add: conc_rep_def)
  show "qs = queued h" and "fs = released h" using reqs_ok_queued [OF reqs] by simp_all
  have heap: "heap_inv (h_requests h)"
    using reqs pool_inv_heap by (auto simp: reqs_ok_def)
  have "a < brk (h_requests h)" if "a \<in> set ws" for a
  proof -
    have "cells (h_requests h) a \<noteq> None"
      using rep that by (auto simp: conc_rep_def req_at_def data_at_live)
    then show ?thesis using heap by (meson heap_inv_def not_le)
  qed
  then have "set ws \<subseteq> {..<brk (h_requests h)}" by auto
  then have "card (set ws) \<le> brk (h_requests h)" using card_mono [of "{..<brk (h_requests h)}"] by simp
  moreover have "distinct ws" using rep by (simp add: conc_rep_def)
  ultimately have "length ws \<le> brk (h_requests h)" by (simp add: distinct_card)
  then show "ws = in_hand h pc"
    using w by (cases pc) (auto dest: walk_chain)
qed

text \<open>The common invariant, and the condition of each thread.\<close>

definition shared_inv :: "'u ucp \<Rightarrow> 'u conc_state \<Rightarrow> bool" where
  "shared_inv U s \<longleftrightarrow> ucp_ok U \<and>
     conc_rep (cs_handle s) (in_hand (cs_handle s) (cs_worker s)) (held (cs_users s))
       (queued (cs_handle s)) (released (cs_handle s)) \<and>
     (\<forall>t u. t \<noteq> u \<longrightarrow> held_by (cs_users s t) \<inter> held_by (cs_users s u) = {})"

fun thread_ok :: "agent \<Rightarrow> 'u conc_state \<Rightarrow> bool" where
  "thread_ok Worker_Thread s \<longleftrightarrow>
     worker_ok (cs_handle s) (cs_worker s) (in_hand (cs_handle s) (cs_worker s))"
| "thread_ok Network s \<longleftrightarrow> True"
| "thread_ok (User_Thread t) s \<longleftrightarrow> user_ok (cs_handle s) (cs_users s t)"

abbreviation threads_ok :: "'u ucp \<Rightarrow> 'u conc_state \<Rightarrow> bool" where
  "threads_ok U s \<equiv> shared_inv U s \<and> (\<forall>a. thread_ok a s)"

text \<open>What the library is in charge of, the hand of the worker included.\<close>

definition charge :: "'u conc_state \<Rightarrow> nat set" where
  "charge s = tracked (cs_handle s) \<union> set (in_hand (cs_handle s) (cs_worker s))"

definition others_held :: "(nat \<Rightarrow> user_pc) \<Rightarrow> nat \<Rightarrow> nat set" where
  "others_held us t = (\<Union>u \<in> - {t}. held_by (us u))"

lemma held_split: "held us = others_held us t \<union> held_by (us t)"
  by (auto simp: held_def others_held_def)

lemma held_upd: "held (us(t := pc)) = others_held us t \<union> held_by pc"
  by (auto simp: held_def others_held_def split: if_splits)

lemma charge_in_charge:
  assumes "shared_inv U s"
  shows "charge s = in_charge (cs_handle s) (queued (cs_handle s))
                      (in_hand (cs_handle s) (cs_worker s))"
proof -
  have "reqs_ok (cs_handle s) (set (in_hand (cs_handle s) (cs_worker s)) \<union> held (cs_users s))
      (queued (cs_handle s)) (released (cs_handle s))"
    using assms by (simp add: shared_inv_def conc_rep_def)
  from in_charge_tracked [OF this] show ?thesis by (simp add: charge_def)
qed

text \<open>Conditions that only depend on the requests in hand.\<close>

lemma user_ok_frame:
  assumes "user_ok h pc" and "h_endpoints h' = h_endpoints h"
    and "\<And>a. a \<in> held_by pc \<Longrightarrow> req_at h' a = req_at h a"
  shows "user_ok h' pc"
proof -
  have "call_ok h' c = call_ok h c" for c using assms(2) by (cases c) simp_all
  then show ?thesis using assms by (cases pc) auto
qed

lemma worker_ok_frame:
  assumes w: "worker_ok h pc ws" and ep: "h_endpoints h' = h_endpoints h"
    and ops: "inflight h' = inflight h"
    and cells: "\<And>a. a \<in> set ws \<Longrightarrow> cells (h_requests h') a = cells (h_requests h) a"
    and at: "\<And>a. a \<in> op_request ` set (inflight h) \<union> set ws \<Longrightarrow> req_at h' a = req_at h a"
  shows "worker_ok h' pc ws"
proof (cases pc)
  case (Send_Post n)
  have "sends_of (h_requests h') (inflight h) = sends_of (h_requests h) (inflight h)"
    using at by (intro sends_of_cong) (simp add: req_at_def)
  then show ?thesis using w ep ops at Send_Post by auto
next
  case (Recv_Post c)
  have "chain (cells (h_requests h')) c ws = chain (cells (h_requests h)) c ws"
    using cells by (intro chain_cong) simp
  then show ?thesis using w at Recv_Post by auto
qed (use w in simp_all)

lemma shared_invI:
  assumes "ucp_ok U" and rep: "conc_rep h ws (held us) qs fs" and w: "worker_ok h pc ws"
    and "\<And>t u. t \<noteq> u \<Longrightarrow> held_by (us t) \<inter> held_by (us u) = {}"
  shows "shared_inv U \<lparr>cs_handle = h, cs_worker = pc, cs_users = us\<rparr>"
    and "thread_ok Worker_Thread \<lparr>cs_handle = h, cs_worker = pc, cs_users = us\<rparr>"
  using assms conc_rep_read [OF rep w] by (simp_all add: shared_inv_def)

subsection \<open>Steps of the worker\<close>

lemma worker_thread_moved:
  assumes ok: "threads_ok U s" and run: "worker_step U (cs_handle s) (cs_worker s) = Inr (h', pc')"
  shows "worker_moved (cs_handle s) (in_hand (cs_handle s) (cs_worker s)) (held (cs_users s))
           (queued (cs_handle s)) (released (cs_handle s)) (h', pc')"
proof -
  have "worker_ok (cs_handle s) (cs_worker s) (in_hand (cs_handle s) (cs_worker s))"
    using ok thread_ok.simps(1) by blast
  with ok have "outcome True (worker_step U (cs_handle s) (cs_worker s))
      (worker_moved (cs_handle s) (in_hand (cs_handle s) (cs_worker s)) (held (cs_users s))
         (queued (cs_handle s)) (released (cs_handle s)))"
    by (intro worker_step_outcome) (simp_all add: shared_inv_def ucp_ok_def)
  then show ?thesis by (simp add: run)
qed

lemma worker_own:
  assumes ok: "threads_ok U s" and run: "worker_step U (cs_handle s) (cs_worker s) = Inr (h', pc')"
  defines "s' \<equiv> s\<lparr>cs_handle := h', cs_worker := pc'\<rparr>"
  shows "shared_inv U s'" and "thread_ok Worker_Thread s'"
proof -
  from worker_thread_moved [OF ok run] obtain ws' qs' where
    rep: "conc_rep h' ws' (held (cs_users s)) qs' (released (cs_handle s))" and
    w: "worker_ok h' pc' ws'"
    by (auto simp: worker_moved_def)
  have U: "ucp_ok U" and disj: "\<And>t u. t \<noteq> u \<Longrightarrow> held_by (cs_users s t) \<inter> held_by (cs_users s u) = {}"
    using ok by (auto simp: shared_inv_def)
  have "s' = \<lparr>cs_handle = h', cs_worker = pc', cs_users = cs_users s\<rparr>"
    by (cases s) (simp add: s'_def)
  then show "shared_inv U s'" and "thread_ok Worker_Thread s'"
    using shared_invI [OF U rep w disj] by simp_all
qed

lemma worker_others:
  assumes ok: "threads_ok U s" and run: "worker_step U (cs_handle s) (cs_worker s) = Inr (h', pc')"
  shows "user_ok h' (cs_users s t)"
proof (rule user_ok_frame [where h = "cs_handle s"])
  have "thread_ok (User_Thread t) s" using ok by blast
  then show "user_ok (cs_handle s) (cs_users s t)" by simp
  from worker_thread_moved [OF ok run] have
    "same_setup (cs_handle s) h'" and
    frame: "\<And>a. a \<notin> in_charge (cs_handle s) (queued (cs_handle s))
               (in_hand (cs_handle s) (cs_worker s)) \<Longrightarrow> req_at h' a = req_at (cs_handle s) a"
    by (auto simp: worker_moved_def)
  then show "h_endpoints h' = h_endpoints (cs_handle s)" by (simp add: same_setup_def)
  show "req_at h' a = req_at (cs_handle s) a" if "a \<in> held_by (cs_users s t)" for a
  proof -
    have "a \<in> held (cs_users s)" using that by (auto simp: held_def)
    then show ?thesis
      using ok in_charge_disjoint by (intro frame) (fastforce simp: shared_inv_def)
  qed
qed

subsection \<open>Steps of a user\<close>

lemma charge_not_free:
  assumes rep: "conc_rep h ws A qs fs" and a: "a \<in> in_charge h qs ws"
  shows "a \<notin> set (fs ty)" and "req_at h a \<noteq> None"
proof -
  have reqs: "reqs_ok h (set ws \<union> A) qs fs" using rep by (simp add: conc_rep_def)
  have pool: "pool_inv UNIV (h_requests h) (h_request_queues h) qs fs"
    using reqs by (simp add: reqs_ok_def)
  have queue: "x \<notin> set (fs ty)" "req_at h x \<noteq> None" if "x \<in> set (qs t)" for x t
  proof -
    show "x \<notin> set (fs ty)"
      using that pool_other [OF pool UNIV_I [of t] UNIV_I [of ty]]
        list_inv_distinct [OF pool_inv_list [OF pool UNIV_I [of ty]]] by (cases "t = ty") auto
    show "req_at h x \<noteq> None"
      using that pooled_live [OF pool pooledI [OF UNIV_I, of x qs t fs]]
      by (simp add: req_at_def data_at_live)
  qed
  have op: "x \<notin> pooled UNIV qs fs \<and> req_at h x \<noteq> None" if "x \<in> op_request ` set (inflight h)" for x
    using reqs_ok_disjoint [OF reqs] op_in_flight [OF reqs] that by fastforce
  have "set (fs ty) \<subseteq> pooled UNIV qs fs" by (auto simp: pooled_def)
  then show "a \<notin> set (fs ty)" and "req_at h a \<noteq> None"
    using a queue op rep unfolding in_charge_def conc_rep_def by blast+
qed

text \<open>
  A step of user \<open>t\<close> that changes \<open>X\<close>, none of it in anybody else's hands.
\<close>

lemma user_moved_stays:
  assumes ok: "threads_ok U s"
    and moved: "user_moved (cs_handle s) (in_hand (cs_handle s) (cs_worker s))
       (others_held (cs_users s) t) (queued (cs_handle s)) (released (cs_handle s)) X (h', pc')"
    and X: "X \<inter> charge s = {}" "X \<inter> others_held (cs_users s) t = {}"
    and r: "r \<in> charge s \<union> others_held (cs_users s) t"
  shows "req_at h' r = req_at (cs_handle s) r"
proof -
  let ?h = "cs_handle s" and ?us = "cs_users s"
  have frame: "req_at h' r = req_at ?h r"
    if "r \<notin> X" "req_at ?h r \<noteq> None" "\<And>ty. r \<notin> set (released ?h ty)" for r
    using moved that by (auto simp: user_moved_def)
  have rep: "conc_rep ?h (in_hand ?h (cs_worker s)) (held ?us) (queued ?h) (released ?h)"
    using ok by (auto simp: shared_inv_def)
  show ?thesis
  proof (cases "r \<in> charge s")
    case True
    moreover have "charge s = in_charge ?h (queued ?h) (in_hand ?h (cs_worker s))"
      using ok charge_in_charge by blast
    ultimately show ?thesis using X(1) charge_not_free [OF rep] by (intro frame) auto
  next
    case False
    then have r: "r \<in> others_held ?us t" "r \<in> held ?us" using r held_split [of ?us t] by auto
    have "r \<notin> set (released ?h ty)" for ty
      using r(2) rep pooledI [OF UNIV_I, of r "queued ?h" ty] unfolding conc_rep_def by auto
    moreover have "r \<notin> X" using r(1) X(2) by blast
    moreover have "req_at ?h r \<noteq> None" using r(2) rep by (simp add: conc_rep_def)
    ultimately show ?thesis by (intro frame)
  qed
qed

lemma user_moved_after:
  assumes ok: "threads_ok U s"
    and moved: "user_moved (cs_handle s) (in_hand (cs_handle s) (cs_worker s))
       (others_held (cs_users s) t) (queued (cs_handle s)) (released (cs_handle s)) X (h', pc')"
    and X: "X \<inter> charge s = {}" "X \<inter> others_held (cs_users s) t = {}"
  defines "s' \<equiv> s\<lparr>cs_handle := h', cs_users := (cs_users s)(t := pc')\<rparr>"
  shows "shared_inv U s'" and "thread_ok a s'" and "charge s \<subseteq> charge s'"
    and "\<And>r. r \<notin> X \<Longrightarrow> req_at (cs_handle s) r \<noteq> None \<Longrightarrow> (\<And>ty. r \<notin> set (released (cs_handle s) ty)) \<Longrightarrow>
          req_at h' r = req_at (cs_handle s) r"
    and "\<And>r. r \<in> charge s \<union> others_held (cs_users s) t \<Longrightarrow> req_at h' r = req_at (cs_handle s) r"
    and "in_hand h' (cs_worker s) = in_hand (cs_handle s) (cs_worker s)"
    and "inflight h' = inflight (cs_handle s)"
    and "set (queued (cs_handle s) ty) \<subseteq> set (queued h' ty)"
proof -
  let ?h = "cs_handle s" and ?us = "cs_users s"
  let ?ws = "in_hand ?h (cs_worker s)"
  from moved obtain qs' fs' where
    rep': "conc_rep h' ?ws (others_held ?us t \<union> held_by pc') qs' fs'" and
    new: "others_held ?us t \<inter> held_by pc' = {}" "user_ok h' pc'" and
    same: "h_endpoints h' = h_endpoints ?h" "inflight h' = inflight ?h"
      "\<forall>ty. set (queued ?h ty) \<subseteq> set (qs' ty)"
      "\<forall>a \<in> set ?ws. cells (h_requests h') a = cells (h_requests ?h) a" and
    frame: "\<And>r. r \<notin> X \<Longrightarrow> req_at ?h r \<noteq> None \<Longrightarrow> (\<And>ty. r \<notin> set (released ?h ty)) \<Longrightarrow>
          req_at h' r = req_at ?h r"
    by (auto simp: user_moved_def)
  show "req_at h' r = req_at ?h r"
    if "r \<notin> X" "req_at ?h r \<noteq> None" "\<And>ty. r \<notin> set (released ?h ty)" for r
    by (rule frame [OF that])
  have rep: "conc_rep ?h ?ws (held ?us) (queued ?h) (released ?h)" and "ucp_ok U"
    and disj: "\<And>t u. t \<noteq> u \<Longrightarrow> held_by (?us t) \<inter> held_by (?us u) = {}"
    using ok by (auto simp: shared_inv_def)
  have charge: "charge s = in_charge ?h (queued ?h) ?ws" using ok charge_in_charge by blast
  note stay = user_moved_stays [OF ok moved X]
  then show "req_at h' r = req_at ?h r" if "r \<in> charge s \<union> others_held ?us t" for r using that .
  have w: "worker_ok ?h (cs_worker s) ?ws" using ok thread_ok.simps(1) by blast
  have w': "worker_ok h' (cs_worker s) ?ws"
  proof (rule worker_ok_frame [OF w same(1,2)])
    show "cells (h_requests h') a = cells (h_requests ?h) a" if "a \<in> set ?ws" for a
      using same(4) that by blast
    show "req_at h' a = req_at ?h a" if "a \<in> op_request ` set (inflight ?h) \<union> set ?ws" for a
      using that by (intro stay) (auto simp: charge in_charge_def)
  qed
  show "in_hand h' (cs_worker s) = ?ws" using conc_rep_read(3) [OF rep' w'] by simp
  show "inflight h' = inflight ?h" by (rule same(2))
  show "set (queued ?h ty) \<subseteq> set (queued h' ty)" using conc_rep_read(1) [OF rep' w'] same(3) by simp
  have held': "held (?us(t := pc')) = others_held ?us t \<union> held_by pc'" by (rule held_upd)
  have disj': "held_by ((?us(t := pc')) u) \<inter> held_by ((?us(t := pc')) v) = {}" if "u \<noteq> v" for u v
    using that disj [OF that] new(1) by (auto simp: others_held_def)
  have s': "s' = \<lparr>cs_handle = h', cs_worker = cs_worker s, cs_users = ?us(t := pc')\<rparr>"
    by (cases s) (simp add: s'_def)
  show inv': "shared_inv U s'"
    unfolding s' by (rule shared_invI(1) [OF \<open>ucp_ok U\<close> rep' [folded held'] w' disj'])
  show "thread_ok a s'"
  proof (cases a)
    case Worker_Thread
    then show ?thesis
      unfolding s' using shared_invI(2) [OF \<open>ucp_ok U\<close> rep' [folded held'] w' disj'] by simp
  next
    case (User_Thread u)
    have "user_ok h' (?us u)" if "u \<noteq> t"
    proof (rule user_ok_frame [OF _ same(1)])
      show "user_ok ?h (?us u)" using ok thread_ok.simps(3) by blast
      show "req_at h' r = req_at ?h r" if "r \<in> held_by (?us u)" for r
        using that \<open>u \<noteq> t\<close> by (intro stay) (auto simp: others_held_def)
    qed
    then show ?thesis using User_Thread new(2) by (simp add: s'_def)
  qed simp
  have "charge s' = in_charge h' qs' ?ws"
    using charge_in_charge [OF inv'] conc_rep_read [OF rep' w'] by (simp add: s'_def)
  then show "charge s \<subseteq> charge s'"
    using same(2,3) by (auto simp: charge in_charge_def)
qed

subsection \<open>Every step\<close>

text \<open>
  What every step does to the requests: those in charge of the library stay so or are completed.
\<close>

definition conc_keeps :: "'u conc_state \<Rightarrow> 'u conc_state \<Rightarrow> bool" where
  "conc_keeps s s' \<longleftrightarrow>
     (\<forall>r \<in> charge s. r \<in> charge s' \<or> completed_in (cs_handle s') r)"

lemma worker_keeps:
  assumes ok: "threads_ok U s" and run: "worker_step U (cs_handle s) (cs_worker s) = Inr (h', pc')"
  shows "conc_keeps s (s\<lparr>cs_handle := h', cs_worker := pc'\<rparr>)"
proof -
  let ?s = "s\<lparr>cs_handle := h', cs_worker := pc'\<rparr>"
  from worker_thread_moved [OF ok run] obtain ws' qs' where
    rep: "conc_rep h' ws' (held (cs_users s)) qs' (released (cs_handle s))" and
    w: "worker_ok h' pc' ws'" and
    keep: "\<forall>a \<in> in_charge (cs_handle s) (queued (cs_handle s)) (in_hand (cs_handle s) (cs_worker s)).
       a \<in> in_charge h' qs' ws' \<or> completed_in h' a"
    by (auto simp: worker_moved_def)
  have "charge ?s = in_charge h' qs' ws'"
    using charge_in_charge [OF worker_own(1) [OF ok run]] conc_rep_read [OF rep w] by simp
  moreover have "charge s = in_charge (cs_handle s) (queued (cs_handle s))
      (in_hand (cs_handle s) (cs_worker s))"
    using ok charge_in_charge by blast
  ultimately show ?thesis using keep by (simp add: conc_keeps_def)
qed

text \<open>The world and the flag are in none of the conditions.\<close>

lemma shared_inv_irrelevant:
  assumes "s' = s\<lparr>cs_handle := (cs_handle s)\<lparr>h_world := u\<rparr>\<rparr> \<or>
           s' = s\<lparr>cs_handle := (cs_handle s)\<lparr>h_run := r\<rparr>\<rparr>"
  shows "shared_inv U s' = shared_inv U s" and "thread_ok a s' = thread_ok a s"
    and "charge s' = charge s" and "completed_in (cs_handle s') = completed_in (cs_handle s)"
proof -
  let ?h = "cs_handle s" and ?h' = "cs_handle s'"
  have same: "h_requests ?h' = h_requests ?h" "h_request_queues ?h' = h_request_queues ?h"
    "h_messages ?h' = h_messages ?h" "h_recv_list ?h' = h_recv_list ?h"
    "h_buffer_cache ?h' = h_buffer_cache ?h" "h_endpoints ?h' = h_endpoints ?h"
    "h_ops_queue ?h' = h_ops_queue ?h" "h_send_count ?h' = h_send_count ?h"
    "cs_worker s' = cs_worker s" "cs_users s' = cs_users s"
    using assms by auto
  have read: "req_at ?h' = req_at ?h" "queued ?h' = queued ?h" "released ?h' = released ?h"
    "inflight ?h' = inflight ?h"
    by (simp_all add: same req_at_def queued_def released_def inflight_def fun_eq_iff)
  have hand: "in_hand ?h' pc = in_hand ?h pc" for pc by (cases pc) (simp_all add: same)
  have reqs: "reqs_ok ?h' A qs fs = reqs_ok ?h A qs fs" for A qs fs by (simp add: reqs_ok_def same)
  have rep: "conc_rep ?h' ws A qs fs = conc_rep ?h ws A qs fs" for ws A qs fs
    by (simp add: conc_rep_def reqs read same)
  show "shared_inv U s' = shared_inv U s" by (simp add: shared_inv_def rep hand read same)
  have call: "call_ok ?h' c = call_ok ?h c" for c by (cases c) (simp_all add: same)
  have user: "user_ok ?h' pc = user_ok ?h pc" for pc by (cases pc) (simp_all add: call read same)
  have worker: "worker_ok ?h' pc ws = worker_ok ?h pc ws" for pc ws
    by (cases "(?h, pc, ws)" rule: worker_ok.cases) (simp_all add: read same)
  show "thread_ok a s' = thread_ok a s" by (cases a) (simp_all add: worker user hand same)
  show "charge s' = charge s" by (simp add: charge_def tracked_def hand read same)
  show "completed_in ?h' = completed_in ?h" by (simp add: completed_in_def read fun_eq_iff)
qed

text \<open>A step of a user, whatever it is, is of the form of \<open>user_moved\<close>, enters a call, or stops.\<close>

lemma user_thread_moved:
  assumes ok: "threads_ok U s" and step: "conc_step U (User_Thread t) s s'"
  shows "(\<exists>h' pc' X. s' = s\<lparr>cs_handle := h', cs_users := (cs_users s)(t := pc')\<rparr> \<and>
      user_moved (cs_handle s) (in_hand (cs_handle s) (cs_worker s))
        (others_held (cs_users s) t) (queued (cs_handle s)) (released (cs_handle s)) X (h', pc') \<and>
      X \<inter> charge s = {} \<and> X \<inter> others_held (cs_users s) t = {}) \<or>
    s' = s\<lparr>cs_handle := (cs_handle s)\<lparr>h_run := False\<rparr>\<rparr>"
    (is "(\<exists>h' pc' X. ?form h' pc' X) \<or> _")
proof -
  let ?h = "cs_handle s" and ?us = "cs_users s"
  let ?ws = "in_hand ?h (cs_worker s)"
  let ?B = "others_held ?us t"
  have rep: "conc_rep ?h ?ws (held ?us) (queued ?h) (released ?h)"
    and disj: "\<And>t u. t \<noteq> u \<Longrightarrow> held_by (?us t) \<inter> held_by (?us u) = {}"
    using ok by (auto simp: shared_inv_def)
  have w: "worker_ok ?h (cs_worker s) ?ws" using ok thread_ok.simps(1) by blast
  have user: "user_ok ?h (?us t)" using ok thread_ok.simps(3) by blast
  have charge: "charge s = in_charge ?h (queued ?h) ?ws" using ok charge_in_charge by blast
  have split: "held ?us = ?B \<union> held_by (?us t)" by (rule held_split)
  have B: "?B \<inter> held_by (?us t) = {}" using disj by (auto simp: others_held_def)
  have own: "held_by (?us t) \<inter> charge s = {}"
    using in_charge_disjoint [OF rep] split by (auto simp: charge)
  have outside: "held ?us = ?B" if "?us t = Outside" using split that by simp
  from step show ?thesis
  proof cases
    case (enter c)
    then have "?us t = Outside" by simp
    then have "user_moved ?h ?ws ?B (queued ?h) (released ?h) {} (?h, Taking c)"
      using rep enter(3) outside by (intro user_movedI) auto
    moreover have "s' = s\<lparr>cs_handle := ?h, cs_users := ?us(t := Taking c)\<rparr>" using enter by simp
    ultimately have "?form ?h (Taking c) {}" by simp
    then show ?thesis by blast
  next
    case (user h' pc)
    have "outcome True (user_step ?h (?us t))
        (user_moved ?h ?ws ?B (queued ?h) (released ?h) (held_by (?us t)))"
      using rep split B \<open>user_ok ?h (?us t)\<close> by (intro user_step_outcome) simp_all
    then have "?form h' pc (held_by (?us t))" using user own B by auto
    then show ?thesis by blast
  next
    case (request_recv r buffer h')
    note free = completed_unowned [OF rep w request_recv(3,4)]
    have "outcome True (request_recv_fill ?h r buffer)
        (\<lambda>h'. user_moved ?h ?ws (held ?us) (queued ?h) (released ?h) {r}
           (h', Pushing CLH_REQUEST_TYPE_RECV r))"
      using request_recv by (intro request_recv_fill_step [OF rep w]) simp_all
    then have "?form h' (Pushing CLH_REQUEST_TYPE_RECV r) {r}"
      using request_recv free outside by (simp add: charge)
    then show ?thesis by blast
  next
    case (release r h')
    have "outcome True (clh_request_release ?h r)
        (\<lambda>h'. user_moved ?h ?ws (held ?us) (queued ?h) (released ?h) {} (h', Outside))"
      using release by (intro release_step [OF rep w]) simp_all
    moreover have "?us = ?us(t := Outside)" using release(2) by auto
    then have "s' = s\<lparr>cs_handle := h', cs_users := ?us(t := Outside)\<rparr>" using release(1) by simp
    ultimately have "?form h' Outside {}" using release outside by simp
    then show ?thesis by blast
  next
    case stop
    then show ?thesis by blast
  qed
qed

lemma user_thread_after:
  assumes ok: "threads_ok U s" and step: "conc_step U (User_Thread t) s s'"
  shows "shared_inv U s'" and "thread_ok a s'" and "conc_keeps s s'"
proof -
  from user_thread_moved [OF ok step] have "shared_inv U s' \<and> thread_ok a s' \<and> charge s \<subseteq> charge s'"
  proof (elim disjE exE conjE)
    fix h' pc' X
    assume "s' = s\<lparr>cs_handle := h', cs_users := (cs_users s)(t := pc')\<rparr>"
      and m: "user_moved (cs_handle s) (in_hand (cs_handle s) (cs_worker s))
        (others_held (cs_users s) t) (queued (cs_handle s)) (released (cs_handle s)) X (h', pc')"
        "X \<inter> charge s = {}" "X \<inter> others_held (cs_users s) t = {}"
    then show ?thesis using user_moved_after [OF ok m] by simp
  next
    assume "s' = s\<lparr>cs_handle := (cs_handle s)\<lparr>h_run := False\<rparr>\<rparr>"
    then show ?thesis using shared_inv_irrelevant [where s = s and s' = s' and r = False] ok by simp
  qed
  then show "shared_inv U s'" and "thread_ok a s'" and "conc_keeps s s'"
    by (auto simp: conc_keeps_def)
qed

interpretation thr: interference_free "conc_step U" "shared_inv U" thread_ok
  for U :: "'u ucp"
proof unfold_locales
  fix s s' :: "'u conc_state" and a c
  assume inv: "shared_inv U s" and all: "\<forall>b. thread_ok b s" and step: "conc_step U a s s'"
  note ok = conjI [OF inv all]
  show "shared_inv U s' \<and> thread_ok a s'"
  proof (cases a)
    case Worker_Thread
    with step obtain h' pc where "worker_step U (cs_handle s) (cs_worker s) = Inr (h', pc)"
      and s': "s' = s\<lparr>cs_handle := h', cs_worker := pc\<rparr>"
      by (auto elim!: worker_thread_elim)
    from worker_own [OF ok this(1)] Worker_Thread show ?thesis unfolding s' by blast
  next
    case Network
    with step obtain u where "s' = s\<lparr>cs_handle := (cs_handle s)\<lparr>h_world := u\<rparr>\<rparr>"
      by (auto elim: network_elim)
    then show ?thesis using shared_inv_irrelevant [where s = s and s' = s' and u = u] inv all by simp
  next
    case (User_Thread t)
    with step show ?thesis using user_thread_after [OF ok] by blast
  qed
  show "thread_ok c s'" if "c \<noteq> a"
  proof (cases a)
    case Worker_Thread
    then show ?thesis
      using that step by (cases c) (auto elim!: worker_thread_elim intro: worker_others [OF ok])
  next
    case Network
    with step obtain u where "s' = s\<lparr>cs_handle := (cs_handle s)\<lparr>h_world := u\<rparr>\<rparr>"
      by (auto elim: network_elim)
    then show ?thesis using shared_inv_irrelevant [where s = s and s' = s' and u = u] all by simp
  next
    case (User_Thread t)
    with step show ?thesis using user_thread_after [OF ok] by blast
  qed
qed

text \<open>From a handle in order, with all threads at rest.\<close>

lemma conc_start_ok:
  assumes "handle_inv h" and "ucp_ok U"
  shows "threads_ok U (conc_start h)"
proof -
  have "thread_ok a (conc_start h)" for a by (cases a) (simp_all add: conc_start_def)
  moreover have "shared_inv U (conc_start h)"
    using assms handle_inv_reqs [OF assms(1)]
    by (auto simp: shared_inv_def conc_start_def conc_rep_def held_def handle_inv_def handle_rep_def)
  ultimately show ?thesis by blast
qed

lemma conc_reach_ok:
  assumes "handle_inv h" and "ucp_ok U" and "conc_reach U (conc_start h) s"
  shows "threads_ok U s"
  by (rule thr.together.reach_inv [OF assms(3) conc_start_ok [OF assms(1,2)]])

lemma conc_step_keeps:
  assumes ok: "threads_ok U s" and step: "conc_step U a s s'"
  shows "conc_keeps s s'"
proof (cases a)
  case Worker_Thread
  with step show ?thesis by (auto elim!: worker_thread_elim intro: worker_keeps [OF ok])
next
  case Network
  with step obtain u where "s' = s\<lparr>cs_handle := (cs_handle s)\<lparr>h_world := u\<rparr>\<rparr>"
    by (auto elim: network_elim)
  then show ?thesis using shared_inv_irrelevant [where s = s and s' = s' and u = u] by (simp add: conc_keeps_def)
next
  case (User_Thread t)
  with step show ?thesis using user_thread_after(3) [OF ok] by blast
qed

text \<open>No step but those of the user itself touches a request in its hands.\<close>

lemma conc_step_hands_off:
  assumes ok: "threads_ok U s" and step: "conc_step U a s s'" and other: "a \<noteq> User_Thread t"
    and r: "r \<in> held_by (cs_users s t)"
  shows "cs_users s' t = cs_users s t \<and> req_at (cs_handle s') r = req_at (cs_handle s) r"
proof (cases a)
  case Worker_Thread
  with step obtain h' pc where run: "worker_step U (cs_handle s) (cs_worker s) = Inr (h', pc)"
    and s': "s' = s\<lparr>cs_handle := h', cs_worker := pc\<rparr>"
    by (auto elim!: worker_thread_elim)
  have "r \<in> held (cs_users s)" using r by (auto simp: held_def)
  then have "r \<notin> in_charge (cs_handle s) (queued (cs_handle s)) (in_hand (cs_handle s) (cs_worker s))"
    using ok in_charge_disjoint by (fastforce simp: shared_inv_def)
  then show ?thesis using worker_thread_moved [OF ok run] s' by (auto simp: worker_moved_def)
next
  case Network
  with step show ?thesis by (auto elim!: network_elim simp: req_at_def)
next
  case (User_Thread u)
  with other have u: "u \<noteq> t" by simp
  then have held: "r \<in> others_held (cs_users s) u" using r by (auto simp: others_held_def)
  from user_thread_moved [OF ok step [unfolded User_Thread]] show ?thesis
  proof (elim disjE exE conjE)
    fix h' pc' X
    assume "s' = s\<lparr>cs_handle := h', cs_users := (cs_users s)(u := pc')\<rparr>"
      and m: "user_moved (cs_handle s) (in_hand (cs_handle s) (cs_worker s))
        (others_held (cs_users s) u) (queued (cs_handle s)) (released (cs_handle s)) X (h', pc')"
        "X \<inter> charge s = {}" "X \<inter> others_held (cs_users s) u = {}"
    then show ?thesis using user_moved_after(5) [OF ok m] held u by simp
  next
    assume "s' = s\<lparr>cs_handle := (cs_handle s)\<lparr>h_run := False\<rparr>\<rparr>"
    then show ?thesis by (simp add: req_at_def)
  qed
qed

text \<open>Every step moves requests forward only.\<close>

abbreviation state_forward :: "'u conc_state \<Rightarrow> 'u conc_state \<Rightarrow> bool" where
  "state_forward s s' \<equiv>
     forward (cs_handle s) (queued (cs_handle s)) (in_hand (cs_handle s) (cs_worker s))
       (cs_handle s') (queued (cs_handle s')) (in_hand (cs_handle s') (cs_worker s'))"

lemma conc_step_forward:
  assumes ok: "threads_ok U s" and step: "conc_step U a s s'"
  shows "state_forward s s'"
proof (cases a)
  case Worker_Thread
  with step obtain h' pc where run: "worker_step U (cs_handle s) (cs_worker s) = Inr (h', pc)"
    and s': "s' = s\<lparr>cs_handle := h', cs_worker := pc\<rparr>"
    by (auto elim!: worker_thread_elim)
  from worker_thread_moved [OF ok run] obtain ws' qs' where
    rep: "conc_rep h' ws' (held (cs_users s)) qs' (released (cs_handle s))" and
    w: "worker_ok h' pc ws'" and
    fw: "forward (cs_handle s) (queued (cs_handle s)) (in_hand (cs_handle s) (cs_worker s)) h' qs' ws'"
    by (auto simp: worker_moved_def)
  show ?thesis using fw conc_rep_read [OF rep w] s' by simp
next
  case Network
  with step obtain u where s': "s' = s\<lparr>cs_handle := (cs_handle s)\<lparr>h_world := u\<rparr>\<rparr>"
    by (auto elim: network_elim)
  then show ?thesis
    by (cases "cs_worker s") (auto intro!: forwardI simp: queued_def inflight_def)
next
  case (User_Thread t)
  from user_thread_moved [OF ok step [unfolded User_Thread]] show ?thesis
  proof (elim disjE exE conjE)
    fix h' pc' X
    assume "s' = s\<lparr>cs_handle := h', cs_users := (cs_users s)(t := pc')\<rparr>"
      and m: "user_moved (cs_handle s) (in_hand (cs_handle s) (cs_worker s))
        (others_held (cs_users s) t) (queued (cs_handle s)) (released (cs_handle s)) X (h', pc')"
        "X \<inter> charge s = {}" "X \<inter> others_held (cs_users s) t = {}"
    then show ?thesis using user_moved_after(6-8) [OF ok m] by (intro forwardI) auto
  next
    assume "s' = s\<lparr>cs_handle := (cs_handle s)\<lparr>h_run := False\<rparr>\<rparr>"
    then show ?thesis
      by (cases "cs_worker s") (auto intro!: forwardI simp: queued_def inflight_def)
  qed
qed

text \<open>At rest again, the handle is in order as the sequential theories have it.\<close>

lemma conc_rest_inv:
  assumes ok: "threads_ok U s" and "cs_worker s = Loop_Test" and "\<And>t. held_by (cs_users s t) = {}"
  shows "handle_inv (cs_handle s)"
proof -
  have "held (cs_users s) = {}" using assms(3) by (auto simp: held_def)
  then show ?thesis
    using ok assms(2) by (auto simp: shared_inv_def conc_rep_def handle_inv_def handle_rep_def)
qed

text \<open>In such a state no thread is stuck.\<close>

lemma worker_defined:
  assumes ok: "threads_ok U s"
  shows "outcome (\<not> ucp_reliable U) (worker_step U (cs_handle s) (cs_worker s)) (\<lambda>_. True)"
proof -
  have w: "worker_ok (cs_handle s) (cs_worker s) (in_hand (cs_handle s) (cs_worker s))"
    using ok thread_ok.simps(1) by blast
  have rep: "conc_rep (cs_handle s) (in_hand (cs_handle s) (cs_worker s)) (held (cs_users s))
      (queued (cs_handle s)) (released (cs_handle s))" and "ucp_ok U"
    using ok by (auto simp: shared_inv_def)
  then have "outcome (\<not> ucp_reliable U) (worker_step U (cs_handle s) (cs_worker s))
      (worker_moved (cs_handle s) (in_hand (cs_handle s) (cs_worker s)) (held (cs_users s))
        (queued (cs_handle s)) (released (cs_handle s)))"
    by (intro worker_step_outcome [OF rep w]) (simp_all add: ucp_ok_def)
  then show ?thesis by (rule outcome_mono) simp
qed

lemma user_defined:
  assumes ok: "threads_ok U s"
  shows "\<exists>r. user_step (cs_handle s) (cs_users s t) = Inr r"
proof -
  have "user_ok (cs_handle s) (cs_users s t)" using ok thread_ok.simps(3) by blast
  moreover have "others_held (cs_users s) t \<inter> held_by (cs_users s t) = {}"
    using ok by (auto simp: shared_inv_def others_held_def)
  ultimately have "outcome False (user_step (cs_handle s) (cs_users s t))
      (user_moved (cs_handle s) (in_hand (cs_handle s) (cs_worker s)) (others_held (cs_users s) t)
        (queued (cs_handle s)) (released (cs_handle s)) (held_by (cs_users s t)))"
    using ok held_split [of "cs_users s" t]
    by (intro user_step_outcome) (simp_all add: shared_inv_def)
  then show ?thesis by (auto simp: outcome_False)
qed

lemma given_back_defined:
  assumes ok: "threads_ok U s" and r: "may_release (cs_handle s) r" "r \<notin> held (cs_users s)"
  shows "\<exists>h'. clh_request_release (cs_handle s) r = Inr h'"
    and "found_something (cs_handle s) r \<Longrightarrow> \<exists>h'. request_recv_fill (cs_handle s) r buffer = Inr h'"
proof -
  have w: "worker_ok (cs_handle s) (cs_worker s) (in_hand (cs_handle s) (cs_worker s))"
    using ok thread_ok.simps(1) by blast
  have rep: "conc_rep (cs_handle s) (in_hand (cs_handle s) (cs_worker s)) (held (cs_users s))
      (queued (cs_handle s)) (released (cs_handle s))"
    using ok by (simp add: shared_inv_def)
  show "\<exists>h'. clh_request_release (cs_handle s) r = Inr h'"
    using release_step [OF rep w r, of False] by (auto simp: outcome_False)
  show "\<exists>h'. request_recv_fill (cs_handle s) r buffer = Inr h'" if "found_something (cs_handle s) r"
    using request_recv_fill_step [OF rep w r that, of False] by (auto simp: outcome_False)
qed

text \<open>Whatever a thread has in hand nobody else has.\<close>

lemma owners_disjoint:
  assumes ok: "threads_ok U s"
  defines "hand \<equiv> in_hand (cs_handle s) (cs_worker s)"
  shows "(\<forall>a \<in> set hand \<union> held (cs_users s). req_at (cs_handle s) a \<noteq> None \<and>
        a \<notin> tracked (cs_handle s) \<and>
        (\<forall>ty. a \<notin> set (queued (cs_handle s) ty) \<and> a \<notin> set (released (cs_handle s) ty))) \<and>
     distinct hand \<and> set hand \<inter> held (cs_users s) = {} \<and>
     (\<forall>t u. t \<noteq> u \<longrightarrow> held_by (cs_users s t) \<inter> held_by (cs_users s u) = {})"
proof -
  let ?h = "cs_handle s" and ?A = "set hand \<union> held (cs_users s)"
  have rep: "conc_rep ?h hand (held (cs_users s)) (queued ?h) (released ?h)"
    and one: "\<forall>t u. t \<noteq> u \<longrightarrow> held_by (cs_users s t) \<inter> held_by (cs_users s u) = {}"
    using ok by (auto simp: shared_inv_def hand_def)
  have reqs: "reqs_ok ?h ?A (queued ?h) (released ?h)" and pooled: "?A \<inter> pooled UNIV (queued ?h) (released ?h) = {}"
    using rep by (simp_all add: conc_rep_def)
  have out: "a \<notin> set (queued ?h ty) \<and> a \<notin> set (released ?h ty)" if "a \<in> ?A" for a ty
  proof -
    have "a \<notin> pooled UNIV (queued ?h) (released ?h)" using that pooled by blast
    then show ?thesis by (auto simp: pooled_def)
  qed
  moreover have "a \<notin> op_request ` set (inflight ?h)" if "a \<in> ?A" for a
    using reqs_ok_disjoint [OF reqs] that by blast
  ultimately have "a \<notin> tracked ?h" if "a \<in> ?A" for a using that by (simp add: tracked_def)
  then show ?thesis using out rep one by (simp add: conc_rep_def)
qed

end
