(* ===== verification/Clh_Conc_Iter.thy ===== *)
theory Clh_Conc_Iter
  imports Clh_Conc_Props
begin

text \<open>
  The steps of the worker without interference. Run one after the other from the point after the
  test of the loop they do what one iteration of \<open>run_\<close> does: they come to the test of the loop
  with the same handle, or to the same fault.
\<close>

section \<open>Runs of the worker\<close>

definition small :: "'u ucp \<Rightarrow> 'u clh_handle \<times> worker_pc \<Rightarrow> 'u clh_handle \<times> worker_pc \<Rightarrow> bool" where
  "small U c c' \<longleftrightarrow> worker_step U (fst c) (snd c) = Inr c'"

text \<open>The worker comes from \<open>c\<close> to the point \<open>pc\<close> with the handle of the result, or to its fault.\<close>

definition comes_to :: "'u ucp \<Rightarrow> 'u clh_handle \<times> worker_pc \<Rightarrow> worker_pc \<Rightarrow> 'u clh_handle res \<Rightarrow> bool" where
  "comes_to U c pc m \<longleftrightarrow>
     (case m of
        Inr h' \<Rightarrow> (small U)\<^sup>*\<^sup>* c (h', pc)
      | Inl e \<Rightarrow> \<exists>c'. (small U)\<^sup>*\<^sup>* c c' \<and> worker_step U (fst c') (snd c') = Inl e)"

lemma comes_here [simp]: "comes_to U (h, pc) pc (Inr h)"
  by (simp add: comes_to_def)

lemma comes_fault: "worker_step U h p = Inl e \<Longrightarrow> comes_to U (h, p) pc (Inl e)"
  by (auto simp: comes_to_def)

lemma comes_after:
  "(small U)\<^sup>*\<^sup>* c d \<Longrightarrow> comes_to U d pc m \<Longrightarrow> comes_to U c pc m"
  by (cases m) (auto simp: comes_to_def intro: rtranclp_trans)

lemma comes_step:
  "worker_step U h p = Inr d \<Longrightarrow> comes_to U d pc m \<Longrightarrow> comes_to U (h, p) pc m"
  by (rule comes_after [of U _ d]) (auto simp: small_def)

lemma comes_direct: "worker_step U h p = Inr (h', pc) \<Longrightarrow> comes_to U (h, p) pc (Inr h')"
  by (rule comes_step) auto

lemma comes_seq:
  assumes "comes_to U c mid m" and "\<And>h. m = Inr h \<Longrightarrow> comes_to U (h, mid) pc (f h)"
  shows "comes_to U c pc (ebind m f)"
proof (cases m)
  case (Inl e)
  then show ?thesis using assms(1) by (simp add: comes_to_def)
next
  case (Inr h)
  then show ?thesis
    using assms(1) comes_after [OF _ assms(2) [OF Inr]] by (simp add: comes_to_def)
qed

text \<open>\<open>assert(f(handle) == CLH_STATUS_SUCCESS)\<close>\<close>

definition asserted :: "('u clh_handle \<times> clh_status) res \<Rightarrow> 'u clh_handle res" where
  "asserted m = ebind m (\<lambda>(h, status). ebind (c_assert (status = CLH_STATUS_SUCCESS)) (\<lambda>_. Inr h))"

lemma asserted_simps [simp]:
  "asserted (Inr (h, CLH_STATUS_SUCCESS)) = Inr h"
  "asserted (Inl e) = Inl e"
  "st \<noteq> CLH_STATUS_SUCCESS \<Longrightarrow> asserted (Inr (h, st)) = Inl Assert_Failed"
  by (simp_all add: asserted_def)

lemma asserted_bind: "asserted (ebind m f) = ebind m (\<lambda>x. asserted (f x))"
  by (cases m) simp_all

lemma asserted_diverges: "asserted m = Inl Diverges \<longleftrightarrow> m = Inl Diverges"
  by (cases m) (auto simp: asserted_def c_assert_def split: if_splits)

lemma ebind_diverges: "ebind m f \<noteq> Inl Diverges \<longleftrightarrow>
    m \<noteq> Inl Diverges \<and> (\<forall>x. m = Inr x \<longrightarrow> f x \<noteq> Inl Diverges)"
  by (cases m) auto

text \<open>An iteration as the sequence of its stages.\<close>

lemma run_body_stages:
  "run_body U h =
     ebind (probe_incomming_messages U h) (\<lambda>h.
     ebind (asserted (process_send_queue U h)) (\<lambda>h.
     ebind (asserted (process_recv_queue U h)) (\<lambda>h.
     asserted (process_ops_queue U (fst (worker_progress_loop CONF_PROGRESS_COUNT U h 0))))))"
  by (simp add: run_body_def process_shared_queues_def asserted_def ebind_assoc case_prod_beta
      cong: ebind_cong)

section \<open>The stages\<close>

text \<open>
  From the result \<open>r\<close> of a step the worker comes to \<open>pc\<close> with the result \<open>m\<close> of the function whose
  step it is, unless the function has run out of fuel.
\<close>

definition follows ::
  "'u ucp \<Rightarrow> ('u clh_handle \<times> worker_pc) res \<Rightarrow> worker_pc \<Rightarrow> 'u clh_handle res \<Rightarrow> bool" where
  "follows U r pc m \<longleftrightarrow>
     m = Inl Diverges \<or> (case r of Inl e \<Rightarrow> m = Inl e | Inr d \<Rightarrow> comes_to U d pc m)"

named_theorems follows_intros

lemma follows_here [follows_intros]: "follows U (Inr (h, pc)) pc (Inr h)"
  by (simp add: follows_def)

lemma follows_fault [follows_intros]: "follows U (Inl e) pc (Inl e)"
  by (simp add: follows_def)

lemma follows_fuel [follows_intros]: "follows U r pc (Inl Diverges)"
  by (simp add: follows_def)

lemma follows_bind [follows_intros]:
  "(\<And>x. m = Inr x \<Longrightarrow> follows U (g x) pc (f x)) \<Longrightarrow> follows U (ebind m g) pc (ebind m f)"
  by (cases m) (simp_all add: follows_def)

lemma follows_next: "follows U (worker_step U h p) pc m \<Longrightarrow> follows U (Inr (h, p)) pc m"
  by (cases "worker_step U h p") (auto simp: follows_def intro: comes_fault comes_step)

lemma follows_comes: "follows U (Inr d) pc m \<Longrightarrow> m \<noteq> Inl Diverges \<Longrightarrow> comes_to U d pc m"
  by (simp add: follows_def)

lemma asserted_status: "asserted (Inr (h, st)) = ebind (c_assert (st = CLH_STATUS_SUCCESS)) (\<lambda>_. Inr h)"
  by (simp add: asserted_def)

lemma asserted_unless:
  "asserted (if st \<noteq> CLH_STATUS_SUCCESS then Inr (h, st) else m) =
     ebind (c_assert (st = CLH_STATUS_SUCCESS)) (\<lambda>_. asserted m)"
  by (simp add: asserted_def)

lemma send_follows:
  "follows U (Inr (h, Send_Pop)) Recv_Test (asserted (process_send_loop k U h))"
proof (induction k arbitrary: h)
  case 0
  show ?case
    by (rule follows_next, subst process_send_loop.simps) (simp add: send_pop_def follows_intros)
next
  case (Suc k)
  have post: "follows U (Inr (h, Send_Post n)) Recv_Test
      (asserted (ebind (process_send_one U h n) (\<lambda>(h, status).
         if status \<noteq> CLH_STATUS_SUCCESS then Inr (h, status) else process_send_loop k U h)))" for h n
    by (rule follows_next)
      (auto simp: asserted_bind asserted_unless intro!: follows_intros Suc.IH split: prod.splits
        simp del: not_None_eq)
  show ?case
    by (rule follows_next, subst process_send_loop.simps)
      (auto simp: send_pop_def asserted_bind Let_def follows_intros post [unfolded asserted_bind]
        intro!: follows_bind split: prod.splits option.splits)
qed

lemma recv_follows:
  "follows U (Inr (h, Recv_Post c)) Progress (asserted (process_recv_loop k U h c))"
proof (induction k U h c rule: process_recv_loop.induct)
  case (3 k U h cur)
  show ?case
    by (rule follows_next)
      (auto simp: recv_post_def asserted_bind asserted_unless intro!: follows_intros 3
        split: prod.splits)
qed (auto intro!: follows_intros follows_next)

lemma ops_follows:
  "follows U (Inr (h, Ops idx)) Loop_Test (asserted (process_ops_loop k U h idx))"
proof (induction k arbitrary: h idx)
  case 0
  show ?case
    by (rule follows_next, subst process_ops_loop.simps) (simp add: ops_one_def follows_intros)
next
  case (Suc k)
  show ?case
    by (rule follows_next, subst process_ops_loop.simps)
      (auto simp: ops_one_def asserted_bind asserted_status intro!: follows_intros Suc.IH
        split: prod.splits ucs_status.splits)
qed

lemma send_queue_stage:
  assumes "process_send_queue U h \<noteq> Inl Diverges"
  shows "comes_to U (h, Send_Test) Recv_Test (asserted (process_send_queue U h))"
proof (rule follows_comes)
  show "follows U (Inr (h, Send_Test)) Recv_Test (asserted (process_send_queue U h))"
    by (rule follows_next) (auto simp: process_send_queue_def intro!: follows_intros send_follows)
qed (use assms in \<open>simp add: asserted_diverges\<close>)

lemma recv_queue_stage:
  assumes "process_recv_queue U h \<noteq> Inl Diverges"
  shows "comes_to U (h, Recv_Test) Progress (asserted (process_recv_queue U h))"
proof (rule follows_comes)
  have "follows U (Inr (h, Recv_Get)) Progress (asserted (process_recv_queue U h))"
    if "list_head (h_request_queues h CLH_REQUEST_TYPE_RECV) \<noteq> None"
    using that by (intro follows_next)
      (auto simp: process_recv_queue_def recv_get_def asserted_bind intro!: follows_bind recv_follows
        split: prod.splits)
  then show "follows U (Inr (h, Recv_Test)) Progress (asserted (process_recv_queue U h))"
    by (intro follows_next) (auto simp: process_recv_queue_def intro!: follows_intros)
qed (use assms in \<open>simp add: asserted_diverges\<close>)

section \<open>The iteration\<close>

lemma run_body_small:
  assumes "run_body U h \<noteq> Inl Diverges"
  shows "comes_to U (h, Probing) Loop_Test (run_body U h)"
proof (cases "probe_incomming_messages U h")
  case (Inl e)
  then show ?thesis by (auto intro: comes_fault simp: run_body_stages)
next
  case (Inr h1)
  let ?send = "asserted (process_send_queue U h1)"
  have ops: "comes_to U (h3, Progress) Loop_Test
      (asserted (process_ops_queue U (fst (worker_progress_loop CONF_PROGRESS_COUNT U h3 0))))"
    if "process_ops_queue U (fst (worker_progress_loop CONF_PROGRESS_COUNT U h3 0)) \<noteq> Inl Diverges" for h3
  proof (rule comes_step)
    show "worker_step U h3 Progress =
        Inr (fst (worker_progress_loop CONF_PROGRESS_COUNT U h3 0), Ops 0)" by simp
  qed (use that in \<open>auto simp: process_ops_queue_def asserted_diverges intro!: follows_comes ops_follows\<close>)
  have nd: "?send \<noteq> Inl Diverges"
    "\<And>h2. ?send = Inr h2 \<Longrightarrow> asserted (process_recv_queue U h2) \<noteq> Inl Diverges"
    "\<And>h2 h3. ?send = Inr h2 \<Longrightarrow> asserted (process_recv_queue U h2) = Inr h3 \<Longrightarrow>
       asserted (process_ops_queue U (fst (worker_progress_loop CONF_PROGRESS_COUNT U h3 0)))
         \<noteq> Inl Diverges"
    using assms unfolding run_body_stages Inr by (auto simp: ebind_diverges)
  have "comes_to U (h1, Send_Test) Loop_Test (run_body U h)"
    unfolding run_body_stages Inr ebind.simps
  proof (rule comes_seq [OF send_queue_stage])
    show "process_send_queue U h1 \<noteq> Inl Diverges" using nd(1) by (simp add: asserted_diverges)
    fix h2 assume h2: "?send = Inr h2"
    show "comes_to U (h2, Recv_Test) Loop_Test
        (ebind (asserted (process_recv_queue U h2)) (\<lambda>h.
           asserted (process_ops_queue U (fst (worker_progress_loop CONF_PROGRESS_COUNT U h 0)))))"
    proof (rule comes_seq [OF recv_queue_stage])
      show "process_recv_queue U h2 \<noteq> Inl Diverges" using nd(2) [OF h2] by (simp add: asserted_diverges)
      show "comes_to U (h3, Progress) Loop_Test
          (asserted (process_ops_queue U (fst (worker_progress_loop CONF_PROGRESS_COUNT U h3 0))))"
        if "asserted (process_recv_queue U h2) = Inr h3" for h3
        using ops nd(3) [OF h2 that] by (simp add: asserted_diverges)
    qed
  qed
  then show ?thesis by (rule comes_step [rotated]) (simp add: Inr)
qed

lemma iteration_small:
  assumes "handle_inv h" and "ucp_ok U"
  shows "comes_to U (h, Probing) Loop_Test (run_body U h)"
proof (rule run_body_small)
  have "outcome True (run_body U h) (iterated U h)"
    using assms by (intro run_body_outcome) (simp_all add: ucp_ok_def)
  then show "run_body U h \<noteq> Inl Diverges" by auto
qed

end
