(* ===== verification/Clh_Conc_Live.thy ===== *)
theory Clh_Conc_Live
  imports Clh_Conc_Props
begin

text \<open>
  The worker cannot be kept inside an iteration of its loop: whatever the users and the network do
  meanwhile, each of its steps brings it nearer to the test of the loop, and no step of the others
  takes it away from there.
\<close>

section \<open>How far the worker is from the test of its loop\<close>

text \<open>
  The stage of the iteration, and within a stage what is left to do: the sends that still fit, the
  receives in hand, the operations not looked at.
\<close>

fun worker_rank_at :: "'u clh_handle \<Rightarrow> worker_pc \<Rightarrow> nat \<times> nat" where
  "worker_rank_at h Loop_Test = (10, 0)"
| "worker_rank_at h Probing = (9, 0)"
| "worker_rank_at h Send_Test = (8, 0)"
| "worker_rank_at h Send_Pop = (7, Suc (2 * (CONF_SEND_THRESH - unat (h_send_count h))))"
| "worker_rank_at h (Send_Post n) = (7, 2 * (CONF_SEND_THRESH - unat (h_send_count h)))"
| "worker_rank_at h Recv_Test = (6, 0)"
| "worker_rank_at h Recv_Get = (5, 0)"
| "worker_rank_at h (Recv_Post c) = (4, length (in_hand h (Recv_Post c)))"
| "worker_rank_at h Progress = (3, 0)"
| "worker_rank_at h (Ops idx) = (2, arr_len (h_ops_queue h) - idx)"
| "worker_rank_at h Stopped = (1, 0)"

definition worker_rank :: "'u conc_state \<Rightarrow> nat \<times> nat" where
  "worker_rank s = worker_rank_at (cs_handle s) (cs_worker s)"

section \<open>What the steps leave alone\<close>

lemma upd_request_counts:
  "upd_request h r f = Inr h' \<Longrightarrow> h_ops_queue h' = h_ops_queue h \<and> h_send_count h' = h_send_count h"
  by (auto simp: upd_request_def res_simps)

lemma upd_request_links:
  "upd_request h r f = Inr h' \<Longrightarrow>
     map_option node_next (cells (h_requests h') a) = map_option node_next (cells (h_requests h) a) \<and>
     brk (h_requests h') = brk (h_requests h)"
  by (auto simp: upd_request_def hupd_def hget_def hput_def res_simps split: option.splits)

lemma complete_request_counts:
  "complete_request h r = Inr h' \<Longrightarrow> h_ops_queue h' = h_ops_queue h \<and> h_send_count h' = h_send_count h"
  by (auto simp: complete_request_def dest!: upd_request_counts)

lemma process_send_one_count:
  "process_send_one U h n = Inr (h', CLH_STATUS_SUCCESS) \<Longrightarrow> h_send_count h' = h_send_count h + 1"
  by (auto simp: process_send_one_def ucx_send_def validate_status_ptr_def Let_def res_simps
      case_prod_beta split: if_splits dest!: complete_request_counts)

lemma complete_request_links:
  "complete_request h r = Inr h' \<Longrightarrow>
     map_option node_next (cells (h_requests h') a) = map_option node_next (cells (h_requests h) a) \<and>
     brk (h_requests h') = brk (h_requests h)"
  by (auto simp: complete_request_def dest!: upd_request_links [where a = a])

lemma match_received_links:
  "match_received h cur = Inr h' \<Longrightarrow>
     map_option node_next (cells (h_requests h') a) = map_option node_next (cells (h_requests h) a) \<and>
     brk (h_requests h') = brk (h_requests h)"
  by (auto simp: match_received_def Let_def res_simps case_prod_beta split: option.splits
      dest!: upd_request_links [where a = a])

lemma ucx_recv_requests: "ucx_recv U h r memh = Inr (h', sp) \<Longrightarrow> h_requests h' = h_requests h"
  by (auto simp: ucx_recv_def Let_def res_simps case_prod_beta split: if_splits)

lemma validate_links:
  "validate_status_ptr h op = Inr (h', ok) \<Longrightarrow>
     map_option node_next (cells (h_requests h') a) = map_option node_next (cells (h_requests h) a) \<and>
     brk (h_requests h') = brk (h_requests h)"
  by (auto simp: validate_status_ptr_def res_simps split: if_splits
      dest!: complete_request_links [where a = a])

lemma process_recv_one_links:
  "process_recv_one U h cur = Inr (h', st) \<Longrightarrow>
     map_option node_next (cells (h_requests h') a) = map_option node_next (cells (h_requests h) a) \<and>
     brk (h_requests h') = brk (h_requests h)"
  by (auto simp: process_recv_one_def Let_def ebind_Inr_iff case_prod_beta split: if_splits
      dest!: match_received_links [where a = a] ucx_recv_requests validate_links [where a = a])

lemma test_op_ops: "test_op U h op = Inr (h', st, ur) \<Longrightarrow> h_ops_queue h' = h_ops_queue h"
  by (auto simp: test_op_def Let_def res_simps case_prod_beta
      split: if_splits ucs_status_ptr.splits dest!: upd_request_counts)

lemma finish_op_ops:
  "finish_op U h idx ur r = Inr h' \<Longrightarrow> array_remove (h_ops_queue h) idx = Inr (h_ops_queue h')"
  by (auto simp: finish_op_def Let_def res_simps case_prod_beta
      split: if_splits dest!: upd_request_counts complete_request_counts)

section \<open>Every step of the worker brings it nearer\<close>

lemma walk_length: "length (walk k h c) \<le> k"
  by (induction k h c rule: walk.induct) (auto split: option.splits)

text \<open>The links alone decide where a walk leads.\<close>

lemma chain_links:
  assumes "\<And>a. map_option node_next (H' a) = map_option node_next (H a)"
  shows "chain H' c xs = chain H c xs"
proof (induction xs arbitrary: c)
  case (Cons x xs)
  show ?case using Cons.IH assms [of x] by (cases "H x"; cases "H' x") auto
qed simp

lemma send_count_word:
  assumes "conc_rep h ws A qs fs"
  shows "unat (h_send_count h) = sends_of (h_requests h) (inflight h)"
    and "sends_of (h_requests h) (inflight h) \<le> CONF_SEND_THRESH"
proof -
  have "h_send_count h = of_nat (sends_of (h_requests h) (inflight h))"
    and le: "sends_of (h_requests h) (inflight h) \<le> CONF_SEND_THRESH"
    using assms by (simp_all add: conc_rep_def reqs_ok_def ops_ok_def inflight_def)
  moreover have "sends_of (h_requests h) (inflight h) < 2 ^ 64"
    using le by (simp add: CONF_SEND_THRESH_def)
  ultimately show "unat (h_send_count h) = sends_of (h_requests h) (inflight h)"
    by (simp add: unat_of_nat)
  show "sends_of (h_requests h) (inflight h) \<le> CONF_SEND_THRESH" by (rule le)
qed

lemma recv_post_nearer:
  assumes rep: "conc_rep h ws A qs fs" and w: "worker_ok h (Recv_Post (Some cur)) ws"
    and run: "recv_post U h cur = Inr (h', pc')"
  shows "\<exists>c. pc' = Recv_Post c \<and> length (in_hand h' pc') < length ws"
proof -
  from w obtain rs nd where ws: "ws = cur # rs" and nd: "cells (h_requests h) cur = Some nd"
    and chain: "chain (cells (h_requests h)) (node_next nd) rs"
    by (cases ws) (auto split: option.splits)
  from run obtain st nd' where one: "process_recv_one U h cur = Inr (h', st)"
    and nd': "cells (h_requests h') cur = Some nd'" and pc': "pc' = Recv_Post (node_next nd')"
    by (auto simp: recv_post_def res_simps hget_def split: option.splits)
  note links = process_recv_one_links [OF one]
  have next': "node_next nd' = node_next nd" using links [of cur] nd nd' by simp
  have "chain (cells (h_requests h')) (node_next nd') rs"
    unfolding next' using chain links chain_links [of "cells (h_requests h')" "cells (h_requests h)"] by simp
  moreover have "ws = walk (brk (h_requests h)) (cells (h_requests h)) (Some cur)"
    using conc_rep_read(3) [OF rep w] by simp
  then have "length ws \<le> brk (h_requests h)" using walk_length by metis
  then have "length rs \<le> brk (h_requests h')" using links [of cur] ws by simp
  ultimately have "in_hand h' pc' = rs" using walk_chain pc' by simp
  then show ?thesis using pc' ws by simp
qed

lemma ops_one_nearer:
  assumes arr: "array_inv (h_ops_queue h)" and run: "ops_one U h idx = Inr (h', pc')"
  shows "pc' = Loop_Test \<or>
     (\<exists>i. pc' = Ops i \<and> arr_len (h_ops_queue h') - i < arr_len (h_ops_queue h) - idx)"
proof (cases "idx < arr_len (h_ops_queue h)")
  case True
  with run obtain op h1 st ur where test: "test_op U h op = Inr (h1, st, ur)" and
    rest: "(case st of
           UCS_INPROGRESS \<Rightarrow> Inr (h1, Ops (idx + 1))
         | UCS_OK \<Rightarrow> ebind (finish_op U h1 idx ur (op_request op)) (\<lambda>h. Inr (h, Ops idx))
         | UCS_ERR e \<Rightarrow> ebind (array_remove (h_ops_queue h1) idx) (\<lambda>ops. Inl Assert_Failed)) =
       Inr (h', pc')"
    by (auto simp: ops_one_def res_simps)
  note same = test_op_ops [OF test]
  show ?thesis
  proof (cases st)
    case UCS_INPROGRESS
    then show ?thesis using rest same True by auto
  next
    case UCS_OK
    with rest have fin: "finish_op U h1 idx ur (op_request op) = Inr h'" and pc': "pc' = Ops idx"
      by (auto simp: res_simps)
    from finish_op_ops [OF fin] array_remove_spec [OF arr, of idx] True same
    have "arr_len (h_ops_queue h') = arr_len (h_ops_queue h) - 1" by auto
    then show ?thesis using pc' True by simp
  next
    case (UCS_ERR e)
    then show ?thesis using rest by (simp add: res_simps)
  qed
next
  case False
  then show ?thesis using run by (simp add: ops_one_def)
qed

lemma worker_nearer:
  assumes ok: "threads_ok U s" and run: "worker_step U (cs_handle s) (cs_worker s) = Inr (h', pc')"
    and on: "pc' \<noteq> Loop_Test" "cs_worker s \<noteq> Stopped"
  shows "(worker_rank_at h' pc', worker_rank_at (cs_handle s) (cs_worker s)) \<in> less_than <*lex*> less_than"
proof -
  let ?h = "cs_handle s"
  have rep: "conc_rep ?h (in_hand ?h (cs_worker s)) (held (cs_users s)) (queued ?h) (released ?h)"
    using ok by (simp add: shared_inv_def)
  have w: "worker_ok ?h (cs_worker s) (in_hand ?h (cs_worker s))" using ok thread_ok.simps(1) by blast
  note count = send_count_word [OF rep]
  show ?thesis
  proof (cases "cs_worker s")
    case Send_Pop
    then show ?thesis
      using run by (auto simp: send_pop_def set_queue_def res_simps split: if_splits option.splits)
  next
    case (Send_Post n)
    with run have "process_send_one U ?h n = Inr (h', CLH_STATUS_SUCCESS)" and pc': "pc' = Send_Pop"
      by (auto simp: res_simps)
    from process_send_one_count [OF this(1)] have n: "h_send_count h' = h_send_count ?h + 1" .
    have room: "unat (h_send_count ?h) < CONF_SEND_THRESH" using w Send_Post count by simp
    then have "unat (h_send_count ?h) + 1 < 2 ^ 64" by (simp add: CONF_SEND_THRESH_def)
    then have "unat (h_send_count h') = Suc (unat (h_send_count ?h))"
      unfolding n by (simp add: unat_word_ariths(1))
    then show ?thesis using Send_Post pc' room by auto
  next
    case (Recv_Post c)
    show ?thesis
    proof (cases c)
      case None
      then show ?thesis using Recv_Post run by auto
    next
      case (Some cur)
      then have at: "cs_worker s = Recv_Post (Some cur)" using Recv_Post by simp
      then have "recv_post U ?h cur = Inr (h', pc')" using run by simp
      moreover have "worker_ok ?h (Recv_Post (Some cur)) (in_hand ?h (cs_worker s))"
        using w by (simp only: at)
      ultimately obtain c' where
        "pc' = Recv_Post c'" "length (in_hand h' pc') < length (in_hand ?h (cs_worker s))"
        using recv_post_nearer [OF rep] by blast
      then show ?thesis using at by (simp del: in_hand.simps)
    qed
  next
    case Recv_Get
    then show ?thesis using run by (auto simp: recv_get_def res_simps)
  next
    case (Ops idx)
    have "array_inv (h_ops_queue ?h)" using rep by (simp add: conc_rep_def reqs_ok_def ops_ok_def)
    from ops_one_nearer [OF this, of U idx h' pc'] show ?thesis using run on Ops by auto
  qed (use run on in \<open>auto simp: res_simps split: if_splits\<close>)
qed

section \<open>The others leave it where it is\<close>

lemma user_step_counts:
  "user_step h pc = Inr (h', pc') \<Longrightarrow> h_ops_queue h' = h_ops_queue h \<and> h_send_count h' = h_send_count h"
  by (cases pc) (auto simp: set_queue_def res_simps dest!: upd_request_counts)

lemma request_recv_fill_counts:
  "request_recv_fill h r buffer = Inr h' \<Longrightarrow>
     h_ops_queue h' = h_ops_queue h \<and> h_send_count h' = h_send_count h"
  by (auto simp: request_recv_fill_def Let_def res_simps dest!: upd_request_counts)

lemma release_counts:
  "clh_request_release h r = Inr h' \<Longrightarrow> h_ops_queue h' = h_ops_queue h \<and> h_send_count h' = h_send_count h"
  by (auto simp: clh_request_release_def set_queue_def res_simps)

lemma rank_same:
  assumes "h_ops_queue h' = h_ops_queue h" and "h_send_count h' = h_send_count h"
    and "in_hand h' pc = in_hand h pc"
  shows "worker_rank_at h' pc = worker_rank_at h pc"
  using assms by (cases pc) simp_all

lemma others_rank:
  assumes ok: "threads_ok U s" and step: "conc_step U a s s'" and a: "a \<noteq> Worker_Thread"
  shows "cs_worker s' = cs_worker s \<and> worker_rank s' = worker_rank s"
proof (cases a)
  case Worker_Thread
  with a show ?thesis by simp
next
  case Network
  with step obtain u where "s' = s\<lparr>cs_handle := (cs_handle s)\<lparr>h_world := u\<rparr>\<rparr>"
    by (auto elim: network_elim)
  then show ?thesis by (cases "cs_worker s") (simp_all add: worker_rank_def)
next
  case (User_Thread t)
  note step = step [unfolded User_Thread]
  have counts: "h_ops_queue (cs_handle s') = h_ops_queue (cs_handle s)"
    "h_send_count (cs_handle s') = h_send_count (cs_handle s)" "cs_worker s' = cs_worker s"
    using step
    by (auto elim!: user_thread_elim dest: user_step_counts request_recv_fill_counts release_counts)
  from user_thread_moved [OF ok step]
  have "in_hand (cs_handle s') (cs_worker s) = in_hand (cs_handle s) (cs_worker s)"
  proof (elim disjE exE conjE)
    fix h' pc' X
    assume "s' = s\<lparr>cs_handle := h', cs_users := (cs_users s)(t := pc')\<rparr>"
      and m: "user_moved (cs_handle s) (in_hand (cs_handle s) (cs_worker s))
        (others_held (cs_users s) t) (queued (cs_handle s)) (released (cs_handle s)) X (h', pc')"
        "X \<inter> charge s = {}" "X \<inter> others_held (cs_users s) t = {}"
    then show ?thesis using user_moved_after(6) [OF ok m] by simp
  next
    assume "s' = s\<lparr>cs_handle := (cs_handle s)\<lparr>h_run := False\<rparr>\<rparr>"
    then show ?thesis by (cases "cs_worker s") simp_all
  qed
  with counts show ?thesis using rank_same by (simp add: worker_rank_def)
qed

section \<open>Runs\<close>

text \<open>An infinite run, with the thread that takes each step.\<close>

definition conc_run :: "'u ucp \<Rightarrow> (nat \<Rightarrow> agent) \<Rightarrow> (nat \<Rightarrow> 'u conc_state) \<Rightarrow> bool" where
  "conc_run U who run \<longleftrightarrow> (\<forall>i. conc_step U (who i) (run i) (run (Suc i)))"

lemma conc_run_reach: "conc_run U who run \<Longrightarrow> conc_reach U (run 0) (run i)"
proof (induction i)
  case (Suc i)
  then show ?case using conc_reach_step [of U "run 0" "run i" "who i"] by (simp add: conc_run_def)
qed simp

lemma others_idle:
  assumes ok: "\<And>i. threads_ok U (run i)" and run: "conc_run U who run"
    and idle: "\<And>j. i \<le> j \<Longrightarrow> j < k \<Longrightarrow> who j \<noteq> Worker_Thread" and le: "i \<le> k"
  shows "cs_worker (run k) = cs_worker (run i) \<and> worker_rank (run k) = worker_rank (run i)"
  using le idle
proof (induction k rule: dec_induct)
  case (step k)
  have "conc_step U (who k) (run k) (run (Suc k))" using run by (simp add: conc_run_def)
  from others_rank [OF ok this] step.prems(1) [of k] step.hyps
  have "cs_worker (run (Suc k)) = cs_worker (run k) \<and>
      worker_rank (run (Suc k)) = worker_rank (run k)" by simp
  moreover have "cs_worker (run k) = cs_worker (run i) \<and> worker_rank (run k) = worker_rank (run i)"
    by (rule step.IH) (simp add: step.prems)
  ultimately show ?case by simp
qed simp

text \<open>
  Where steps of the worker lead from the points \<open>P\<close>, if they do not pass the test of the loop.
\<close>

lemma worker_leads_to:
  assumes ok: "\<And>i. threads_ok U (run i)" and run: "conc_run U who run"
    and fair: "\<forall>i. \<exists>j \<ge> i. who j = Worker_Thread"
    and step: "\<And>j. i \<le> j \<Longrightarrow> who j = Worker_Thread \<Longrightarrow> cs_worker (run j) \<in> P \<Longrightarrow>
       cs_worker (run (Suc j)) \<in> Q \<or> cs_worker (run (Suc j)) \<in> P - {Loop_Test}"
    and P: "Stopped \<notin> P" "cs_worker (run i) \<in> P"
  shows "\<exists>j \<ge> i. cs_worker (run j) \<in> Q"
proof (rule ccontr)
  let ?rank = "\<lambda>i. worker_rank (run i)"
  assume "\<not> ?thesis"
  then have never: "cs_worker (run j) \<notin> Q" if "i \<le> j" for j using that by blast
  have others: "cs_worker (run (Suc j)) = cs_worker (run j)" if "who j \<noteq> Worker_Thread" for j
    using others_rank [OF ok _ that] run by (simp add: conc_run_def)
  have on: "cs_worker (run j) \<in> P" if "i \<le> j" for j
    using that
  proof (induction j rule: dec_induct)
    case (step j)
    then show ?case
      using assms(4) [of j] never [of "Suc j"] others [of j] by (cases "who j = Worker_Thread") auto
  qed (rule P(2))
  have wf: "wf (less_than <*lex*> less_than)" by (intro wf_lex_prod wf_less_than)
  have "False" if "i \<le> j" "?rank j = x" for j x
    using that
  proof (induction x arbitrary: j rule: wf_induct_rule [OF wf])
    case (1 x)
    define k where "k = (LEAST k. j \<le> k \<and> who k = Worker_Thread)"
    have k: "j \<le> k \<and> who k = Worker_Thread"
      unfolding k_def by (rule LeastI_ex) (use fair in blast)
    have "who l \<noteq> Worker_Thread" if "j \<le> l" "l < k" for l
      using not_less_Least [OF that(2) [unfolded k_def]] that(1) by blast
    from others_idle [OF ok run this, of j] k have same: "?rank k = x" using 1(3) by simp
    have ik: "i \<le> k" using k 1(2) by simp
    have "conc_step U Worker_Thread (run k) (run (Suc k))" using run k by (metis conc_run_def)
    then obtain h' pc' where
      w: "worker_step U (cs_handle (run k)) (cs_worker (run k)) = Inr (h', pc')"
      and next_state: "run (Suc k) = (run k)\<lparr>cs_handle := h', cs_worker := pc'\<rparr>"
      by (auto elim!: worker_thread_elim)
    have "pc' \<noteq> Loop_Test"
      using step [OF ik _ on [OF ik]] k never [of "Suc k"] ik next_state by auto
    moreover have "cs_worker (run k) \<noteq> Stopped" using on [OF ik] P(1) by auto
    ultimately have "(?rank (Suc k), ?rank k) \<in> less_than <*lex*> less_than"
      using worker_nearer [OF ok w] by (simp add: worker_rank_def next_state)
    then have "(?rank (Suc k), x) \<in> less_than <*lex*> less_than" using same by simp
    from 1(1) [OF this, of "Suc k"] ik show False by simp
  qed
  then show False by blast
qed

lemma worker_comes_back:
  assumes ok: "\<And>i. threads_ok U (run i)" and run: "conc_run U who run"
    and fair: "\<forall>i. \<exists>j \<ge> i. who j = Worker_Thread"
  shows "\<exists>j \<ge> i. cs_worker (run j) = Loop_Test \<or> cs_worker (run j) = Stopped"
proof (cases "cs_worker (run i) \<in> {Loop_Test, Stopped}")
  case False
  have "\<exists>j \<ge> i. cs_worker (run j) \<in> {Loop_Test, Stopped}"
    by (rule worker_leads_to [OF ok run fair, where P = "- {Loop_Test, Stopped}"]) (use False in auto)
  then show ?thesis by auto
qed auto

text \<open>Only at the test of the loop does it end, with nothing in the queues and the flag cleared.\<close>

lemma no_other_status: "st \<noteq> UCS_OK \<Longrightarrow> st \<noteq> UCS_INPROGRESS \<Longrightarrow> \<forall>e. st \<noteq> UCS_ERR e \<Longrightarrow> False"
  by (cases st) auto

lemma worker_stops:
  "worker_step U h pc = Inr (h', Stopped) \<Longrightarrow> pc \<noteq> Stopped \<Longrightarrow>
     pc = Loop_Test \<and> h' = h \<and> queues_empty h \<and> \<not> h_run h"
  by (cases "(U, h, pc)" rule: worker_step.cases)
    (auto simp: send_pop_def recv_get_def recv_post_def ops_one_def res_simps c_assert_def case_prod_beta
      split: if_splits option.splits ucs_status.splits dest: no_other_status)

lemma queued_distinct:
  assumes "threads_ok U s"
  shows "distinct (queued (cs_handle s) ty)"
proof -
  have "pool_inv UNIV (h_requests (cs_handle s)) (h_request_queues (cs_handle s))
      (queued (cs_handle s)) (released (cs_handle s))"
    using assms by (simp add: shared_inv_def conc_rep_def reqs_ok_def)
  from list_inv_distinct [OF pool_inv_list [OF this UNIV_I]] show ?thesis by simp
qed

section \<open>Every receive comes to be completed\<close>

lemma get_all_empties:
  "clh_list_get_all_nodes (H, L) = Inr ((H', L'), x) \<Longrightarrow> list_head L' = None"
  by (auto simp: clh_list_get_all_nodes_def list_lock_region_def res_simps case_prod_beta)

lemma queued_empty: "list_head (h_request_queues h ty) = None \<Longrightarrow> queued h ty = []"
  by (simp add: queued_def list_nodes_def)

lemma recv_get_empties: "recv_get h = Inr (h', pc) \<Longrightarrow> queued h' CLH_REQUEST_TYPE_RECV = []"
  by (rule queued_empty)
    (auto simp: recv_get_def queue_state_def set_queue_def res_simps dest: get_all_empties)

lemma test_op_finishes: "test_op U h op = Inr (h', st, ur) \<Longrightarrow> finishes U \<Longrightarrow> st = UCS_OK"
  by (auto simp: test_op_def finishes_def statuses_fixed_def Let_def res_simps case_prod_beta
      split: if_splits ucs_status_ptr.splits)

lemma ops_one_finishes:
  assumes run: "ops_one U h 0 = Inr (h', pc')" and "finishes U" and "0 < arr_len (h_ops_queue h)"
  shows "pc' = Ops 0"
proof -
  from assms obtain op h1 st ur where test: "test_op U h op = Inr (h1, st, ur)" and
    rest: "(case st of
           UCS_INPROGRESS \<Rightarrow> Inr (h1, Ops (0 + 1))
         | UCS_OK \<Rightarrow> ebind (finish_op U h1 0 ur (op_request op)) (\<lambda>h. Inr (h, Ops 0))
         | UCS_ERR e \<Rightarrow> ebind (array_remove (h_ops_queue h1) 0) (\<lambda>ops. Inl Assert_Failed)) =
       Inr (h', pc')"
    by (auto simp: ops_one_def res_simps)
  have "st = UCS_OK" by (rule test_op_finishes [OF test assms(2)])
  then show ?thesis using rest by (auto simp: res_simps)
qed

lemma run_forward:
  assumes ok: "\<And>i. threads_ok U (run i)" and run: "conc_run U who run"
  shows "state_forward (run j) (run (Suc j))"
  by (rule conc_step_forward [OF ok, where a = "who j"]) (use run in \<open>simp add: conc_run_def\<close>)

text \<open>A request that the worker is never to take, to post or to finish would stay where it is.\<close>

lemma request_taken:
  assumes ok: "\<And>i. threads_ok U (run i)" and run: "conc_run U who run"
    and fair: "\<forall>i. \<exists>j \<ge> i. who j = Worker_Thread"
    and r: "r \<in> set (queued (cs_handle (run i)) CLH_REQUEST_TYPE_RECV)"
  shows "\<exists>j \<ge> i. r \<in> set (in_hand (cs_handle (run j)) (cs_worker (run j))) \<or> cs_worker (run j) = Stopped"
proof (rule ccontr)
  let ?q = "\<lambda>j. queued (cs_handle (run j)) CLH_REQUEST_TYPE_RECV"
  assume "\<not> ?thesis"
  then have no: "r \<notin> set (in_hand (cs_handle (run j)) (cs_worker (run j)))"
      "cs_worker (run j) \<noteq> Stopped" if "i \<le> j" for j
    using that by blast+
  note fw = run_forward [OF ok run]
  have q: "r \<in> set (?q j)" if "i \<le> j" for j
    using that
  proof (induction j rule: dec_induct)
    case (step j)
    then show ?case using fw [of j] no(1) [of "Suc j"] by (auto simp: forward_def)
  qed (rule r)
  let ?P = "{pc. pc \<noteq> Progress \<and> pc \<noteq> Stopped \<and> (\<forall>c. pc \<noteq> Recv_Post c) \<and> (\<forall>k. pc \<noteq> Ops k)}"
  obtain m where m: "i \<le> m" "cs_worker (run m) = Loop_Test"
    using worker_comes_back [OF ok run fair] no(2) by blast
  have "\<exists>j \<ge> m. cs_worker (run j) \<in> {}"
  proof (rule worker_leads_to [OF ok run fair, where P = ?P])
    fix j assume j: "m \<le> j" "who j = Worker_Thread" "cs_worker (run j) \<in> ?P"
    have "conc_step U Worker_Thread (run j) (run (Suc j))" using run j(2) by (metis conc_run_def)
    then obtain h' pc' where
      w: "worker_step U (cs_handle (run j)) (cs_worker (run j)) = Inr (h', pc')"
      and next_state: "run (Suc j) = (run j)\<lparr>cs_handle := h', cs_worker := pc'\<rparr>"
      by (auto elim!: worker_thread_elim)
    have ij: "i \<le> j" "i \<le> Suc j" using m(1) j(1) by simp_all
    have head: "list_head (h_request_queues (cs_handle (run j)) CLH_REQUEST_TYPE_RECV) \<noteq> None"
      using q [OF ij(1)] queued_empty by fastforce
    have get: "\<not> recv_get (cs_handle (run j)) = Inr (h', pc')"
      using recv_get_empties [of "cs_handle (run j)" h' pc'] q [OF ij(2)] next_state by auto
    show "cs_worker (run (Suc j)) \<in> {} \<or> cs_worker (run (Suc j)) \<in> ?P - {Loop_Test}"
      using w j(3) head get no(2) [OF ij(2)] next_state
      by (cases "cs_worker (run j)")
        (auto simp: send_pop_def res_simps split: if_splits option.splits)
  qed (use m in simp_all)
  then show False by simp
qed

lemma request_posted:
  assumes ok: "\<And>i. threads_ok U (run i)" and run: "conc_run U who run"
    and fair: "\<forall>i. \<exists>j \<ge> i. who j = Worker_Thread"
    and r: "r \<in> set (in_hand (cs_handle (run i)) (cs_worker (run i)))"
  shows "\<exists>j \<ge> i. r \<in> op_request ` set (inflight (cs_handle (run j)))"
proof (rule ccontr)
  assume "\<not> ?thesis"
  then have no: "r \<notin> op_request ` set (inflight (cs_handle (run j)))" if "i \<le> j" for j
    using that by blast
  note fw = run_forward [OF ok run]
  have hand: "r \<in> set (in_hand (cs_handle (run j)) (cs_worker (run j)))" if "i \<le> j" for j
    using that
  proof (induction j rule: dec_induct)
    case (step j)
    then show ?case using fw [of j] no [of "Suc j"] by (auto simp: forward_def)
  qed (rule r)
  obtain m where "i \<le> m" "cs_worker (run m) = Loop_Test \<or> cs_worker (run m) = Stopped"
    using worker_comes_back [OF ok run fair] by blast
  with hand [of m] show False by auto
qed

lemma request_completed:
  assumes ok: "\<And>i. threads_ok U (run i)" and run: "conc_run U who run"
    and fair: "\<forall>i. \<exists>j \<ge> i. who j = Worker_Thread" and fin: "finishes U"
    and r: "r \<in> op_request ` set (inflight (cs_handle (run i)))"
  shows "\<exists>j \<ge> i. completed_in (cs_handle (run j)) r \<or> cs_worker (run j) = Stopped"
proof (rule ccontr)
  assume "\<not> ?thesis"
  then have all: "\<forall>j \<ge> i. \<not> completed_in (cs_handle (run j)) r \<and> cs_worker (run j) \<noteq> Stopped" by blast
  then have no: "\<not> completed_in (cs_handle (run j)) r" "cs_worker (run j) \<noteq> Stopped" if "i \<le> j" for j
    using that by (simp_all only: not_False_eq_True)
  note fw = run_forward [OF ok run]
  have fl: "r \<in> op_request ` set (inflight (cs_handle (run j)))" if "i \<le> j" for j
    using that
  proof (induction j rule: dec_induct)
    case (step j)
    have "i \<le> Suc j" using step.hyps by simp
    then have "\<not> completed_in (cs_handle (run (Suc j))) r" by (rule no(1))
    then show ?case using fw [of j] step.IH unfolding forward_def by blast
  qed (rule r)
  let ?P = "{pc. pc \<noteq> Stopped \<and> (\<forall>k. pc \<noteq> Ops (Suc k))}"
  obtain m where m: "i \<le> m" "cs_worker (run m) = Loop_Test"
    using worker_comes_back [OF ok run fair] no(2) by blast
  have "\<exists>j \<ge> m. cs_worker (run j) \<in> {}"
  proof (rule worker_leads_to [OF ok run fair, where P = ?P])
    fix j assume j: "m \<le> j" "who j = Worker_Thread" "cs_worker (run j) \<in> ?P"
    have "conc_step U Worker_Thread (run j) (run (Suc j))" using run j(2) by (metis conc_run_def)
    then obtain h' pc' where
      w: "worker_step U (cs_handle (run j)) (cs_worker (run j)) = Inr (h', pc')"
      and next_state: "run (Suc j) = (run j)\<lparr>cs_handle := h', cs_worker := pc'\<rparr>"
      by (auto elim!: worker_thread_elim)
    have ij: "i \<le> j" "i \<le> Suc j" using m(1) j(1) by simp_all
    have "conc_rep (cs_handle (run j)) (in_hand (cs_handle (run j)) (cs_worker (run j)))
        (held (cs_users (run j))) (queued (cs_handle (run j))) (released (cs_handle (run j)))"
      using ok [of j] by (simp add: shared_inv_def)
    then have "arr_len (h_ops_queue (cs_handle (run j))) = length (inflight (cs_handle (run j)))"
      using array_len_inflight unfolding conc_rep_def by blast
    then have some: "0 < arr_len (h_ops_queue (cs_handle (run j)))" using fl [OF ij(1)] by auto
    have "pc' = Ops 0" if "cs_worker (run j) = Ops 0"
      using w that by (intro ops_one_finishes [OF _ fin some]) simp
    have "pc' \<in> ?P - {Loop_Test}"
    proof (cases "cs_worker (run j)")
      case (Recv_Post c)
      then show ?thesis using w by (cases c) (auto simp: recv_post_def res_simps)
    next
      case (Ops k)
      then have "k = 0" using j(3) by (cases k) auto
      then show ?thesis using \<open>cs_worker (run j) = Ops 0 \<Longrightarrow> pc' = Ops 0\<close> Ops by simp
    qed (use w j(3) no(2) [OF ij(2)] next_state in
        \<open>auto simp: send_pop_def recv_get_def res_simps split: if_splits option.splits\<close>)
    then show "cs_worker (run (Suc j)) \<in> {} \<or> cs_worker (run (Suc j)) \<in> ?P - {Loop_Test}"
      using next_state by simp
  qed (use m in simp_all)
  then show False by simp
qed

text \<open>All the way.\<close>

lemma receive_completes:
  assumes ok: "\<And>i. threads_ok U (run i)" and run: "conc_run U who run"
    and fair: "\<forall>i. \<exists>j \<ge> i. who j = Worker_Thread" and fin: "finishes U"
    and r: "r \<in> set (queued (cs_handle (run i)) CLH_REQUEST_TYPE_RECV)"
  shows "\<exists>j \<ge> i. completed_in (cs_handle (run j)) r \<or> cs_worker (run j) = Stopped"
proof -
  from request_taken [OF ok run fair r] obtain j where j: "i \<le> j"
    "r \<in> set (in_hand (cs_handle (run j)) (cs_worker (run j))) \<or> cs_worker (run j) = Stopped" by blast
  show ?thesis
  proof (cases "cs_worker (run j) = Stopped")
    case False
    with j(2) request_posted [OF ok run fair, of r j] obtain k where
      k: "j \<le> k" "r \<in> op_request ` set (inflight (cs_handle (run k)))" by blast
    from request_completed [OF ok run fair fin k(2)] j(1) k(1) show ?thesis by (meson order_trans)
  qed (use j in blast)
qed

section \<open>A fair run\<close>

text \<open>The worker alone, with a UCX that reports no error.\<close>

fun alone :: "'u ucp \<Rightarrow> 'u conc_state \<Rightarrow> nat \<Rightarrow> 'u conc_state" where
  "alone U s 0 = s"
| "alone U s (Suc n) =
     (let s = alone U s n in
      case worker_step U (cs_handle s) (cs_worker s) of
        Inl e \<Rightarrow> s
      | Inr (h, pc) \<Rightarrow> s\<lparr>cs_handle := h, cs_worker := pc\<rparr>)"

lemma alone_run:
  assumes "handle_inv h" and "ucp_ok U" and "ucp_reliable U"
  shows "conc_run U (\<lambda>_. Worker_Thread) (alone U (conc_start h))"
proof -
  let ?run = "alone U (conc_start h)"
  have step: "conc_step U Worker_Thread (?run n) (?run (Suc n))" if "threads_ok U (?run n)" for n
  proof -
    from worker_defined [OF that] assms(3) obtain h' pc where
      w: "worker_step U (cs_handle (?run n)) (cs_worker (?run n)) = Inr (h', pc)"
      by (auto simp: outcome_False)
    then have "?run (Suc n) = (?run n)\<lparr>cs_handle := h', cs_worker := pc\<rparr>" by (simp add: Let_def)
    then show ?thesis using conc_step.worker [OF w] by simp
  qed
  have "conc_reach U (conc_start h) (?run n)" for n
  proof (induction n)
    case (Suc n)
    from conc_reach_step [OF Suc step [OF conc_reach_ok [OF assms(1,2) Suc]]] show ?case .
  qed simp
  then have "threads_ok U (?run n)" for n by (rule conc_reach_ok [OF assms(1,2)])
  then show ?thesis using step by (simp add: conc_run_def del: alone.simps)
qed

end
