(* ===== verification/Clh_Starve.thy ===== *)
theory Clh_Starve
  imports Clh_Conc_Live
begin

text \<open>
  A send that starves. The worker takes the newest send of the queue first, so a user that posts a
  new send whenever the worker is about to reach an older one keeps it, and all below it, in the
  queue for ever. The run is constructed, step by step, from a scheduler of the two threads.
\<close>

section \<open>What the steps do to the queue of sends\<close>

abbreviation sends :: "'u clh_handle \<Rightarrow> nat list" where
  "sends h \<equiv> queued h CLH_REQUEST_TYPE_SEND"

lemma send_post_from_pop:
  "worker_step U h pc = Inr (h', Send_Post n) \<Longrightarrow> pc = Send_Pop"
  by (cases "(U, h, pc)" rule: worker_step.cases)
    (auto simp: recv_get_def recv_post_def ops_one_def res_simps c_assert_def case_prod_beta
      split: if_splits ucs_status.splits dest: no_other_status)

lemma worker_sends:
  assumes ok: "threads_ok U s" and run: "worker_step U (cs_handle s) (cs_worker s) = Inr (h', pc')"
  shows "(sends h' = sends (cs_handle s) \<or>
      cs_worker s = Send_Pop \<and> (\<exists>n. sends (cs_handle s) = sends h' @ [n])) \<and>
    same_setup (cs_handle s) h'"
proof -
  from worker_thread_moved [OF ok run] obtain ws' qs' where
    rep: "conc_rep h' ws' (held (cs_users s)) qs' (released (cs_handle s))" and
    w: "worker_ok h' pc' ws'" and same: "same_setup (cs_handle s) h'" and
    pop: "popped (sends (cs_handle s)) (qs' CLH_REQUEST_TYPE_SEND) pc'"
    by (auto simp: worker_moved_def)
  show ?thesis
    using pop conc_rep_read(1) [OF rep w] same send_post_from_pop [of U "cs_handle s" _ h'] run
    by (auto simp: popped_def)
qed

lemma user_sends:
  assumes ok: "threads_ok U s" and run: "user_step (cs_handle s) (cs_users s t) = Inr (h', pc')"
  shows "queued h' = (case cs_users s t of
      Pushing ty n \<Rightarrow> (queued (cs_handle s))(ty := queued (cs_handle s) ty @ [n])
    | _ \<Rightarrow> queued (cs_handle s))"
    and "h_endpoints h' = h_endpoints (cs_handle s)" and "h_run h' = h_run (cs_handle s)"
proof -
  let ?h = "cs_handle s" and ?ws = "in_hand (cs_handle s) (cs_worker s)"
  have rep: "conc_rep ?h ?ws (others_held (cs_users s) t \<union> held_by (cs_users s t)) (queued ?h) (released ?h)"
    using ok held_split [of "cs_users s" t] by (simp add: shared_inv_def)
  have user: "user_ok ?h (cs_users s t)" using ok thread_ok.simps(3) by blast
  show "queued h' = (case cs_users s t of
      Pushing ty n \<Rightarrow> (queued ?h)(ty := queued ?h ty @ [n]) | _ \<Rightarrow> queued ?h)"
  proof (cases "cs_users s t")
    case Outside
    then show ?thesis using run by simp
  next
    case (Taking c)
    from rep Taking take_request_in [of ?h "set ?ws \<union> others_held (cs_users s) t" "queued ?h" "released ?h"
        "call_queue c"] obtain S n fs' where
      "clh_list_new_node (queue_state ?h (call_queue c)) = Inr (S, n)"
      "reqs_ok (set_queue ?h (call_queue c) S) (insert n (set ?ws \<union> others_held (cs_users s) t)) (queued ?h)
        ((released ?h)(call_queue c := fs'))"
      unfolding conc_rep_def by auto
    then show ?thesis using run Taking reqs_ok_queued by fastforce
  next
    case (Filling c n)
    then obtain q where q: "req_at ?h n = Some q" using rep by (auto simp: conc_rep_def)
    let ?x = "call_fill ?h c q"
    have "channel_ok (req_channel ?x)"
      using conc_rep_channel [OF rep q] user Filling by (cases c) (auto simp: Let_def)
    from conc_rep_upd [OF rep _ this, of n] Filling
    have "conc_rep (?h\<lparr>h_requests := set_data (h_requests ?h) n ?x\<rparr>) ?ws
        (others_held (cs_users s) t \<union> {n}) (queued ?h) (released ?h)" by simp
    moreover have "h' = ?h\<lparr>h_requests := set_data (h_requests ?h) n ?x\<rparr>"
      using run Filling upd_request_Some [of ?h n q "call_fill ?h c"] q by (simp add: req_at_def)
    ultimately show ?thesis using Filling reqs_ok_queued by (fastforce simp: conc_rep_def)
  next
    case (Pushing ty n)
    from rep Pushing have reqs: "reqs_ok ?h (insert n (set ?ws \<union> others_held (cs_users s) t))
        (queued ?h) (released ?h)" "n \<notin> pooled UNIV (queued ?h) (released ?h)"
      by (auto simp: conc_rep_def)
    from user Pushing obtain q where q: "req_at ?h n = Some q" and
      "ty = CLH_REQUEST_TYPE_SEND \<and> send_ready (h_endpoints ?h) q \<or>
       ty = CLH_REQUEST_TYPE_RECV \<and> recv_ready q"
      by (auto simp: opt_all_iff)
    from push_request_in [OF reqs this] obtain S where
      "clh_list_push_node (queue_state ?h ty) n = Inr S"
      "reqs_ok (set_queue ?h ty S) (set ?ws \<union> others_held (cs_users s) t)
         ((queued ?h)(ty := queued ?h ty @ [n])) (released ?h)" by blast
    then show ?thesis using run Pushing reqs_ok_queued by fastforce
  qed
  show "h_endpoints h' = h_endpoints ?h" and "h_run h' = h_run ?h"
    using run by (cases "cs_users s t";
      auto simp: set_queue_def upd_request_def res_simps split: prod.splits)+
qed

lemma sends_pending:
  assumes ok: "threads_ok U s" and r: "r \<in> set (sends (cs_handle s))"
  shows "\<not> completed_in (cs_handle s) r"
proof -
  have "queue_ok (h_endpoints (cs_handle s)) (h_requests (cs_handle s)) (queued (cs_handle s))"
    using ok by (simp add: shared_inv_def conc_rep_def reqs_ok_def)
  with r have "opt_all (send_ready (h_endpoints (cs_handle s))) (req_at (cs_handle s) r)"
    by (simp add: queue_ok_def req_at_def)
  then show ?thesis by (auto simp: completed_in_def opt_all_iff send_ready_iff)
qed

section \<open>The scheduler\<close>

text \<open>
  User 0 posts the call \<open>c\<close> when the worker is about to take \<open>r\<close>, and is let through to the end of
  the call; otherwise the worker moves.
\<close>

definition about_to_send :: "nat \<Rightarrow> 'u conc_state \<Rightarrow> bool" where
  "about_to_send r s \<longleftrightarrow> cs_worker s = Send_Pop \<and> sends (cs_handle s) \<noteq> [] \<and>
     last (sends (cs_handle s)) = r"

definition flood_turn :: "nat \<Rightarrow> 'u conc_state \<Rightarrow> agent" where
  "flood_turn r s =
     (if cs_users s 0 = Outside \<and> \<not> about_to_send r s then Worker_Thread else User_Thread 0)"

definition flood_step :: "'u ucp \<Rightarrow> clh_call \<Rightarrow> nat \<Rightarrow> 'u conc_state \<Rightarrow> 'u conc_state" where
  "flood_step U c r s =
     (if cs_users s 0 \<noteq> Outside then
        case user_step (cs_handle s) (cs_users s 0) of Inl e \<Rightarrow> s
        | Inr (h, pc) \<Rightarrow> s\<lparr>cs_handle := h, cs_users := (cs_users s)(0 := pc)\<rparr>
      else if about_to_send r s then s\<lparr>cs_users := (cs_users s)(0 := Taking c)\<rparr>
      else
        case worker_step U (cs_handle s) (cs_worker s) of Inl e \<Rightarrow> s
        | Inr (h, pc) \<Rightarrow> s\<lparr>cs_handle := h, cs_worker := pc\<rparr>)"

text \<open>
  Below \<open>r\<close> the queue is what it was, above it only what was there before, or the one new send.
\<close>

definition flood_inv ::
  "'u ucp \<Rightarrow> clh_call \<Rightarrow> nat \<Rightarrow> nat list \<Rightarrow> nat \<Rightarrow> 'u conc_state \<Rightarrow> bool" where
  "flood_inv U c r xs m s \<longleftrightarrow>
     threads_ok U s \<and> call_ok (cs_handle s) c \<and> h_run (cs_handle s) \<and> cs_worker s \<noteq> Stopped \<and>
     (\<exists>ys. sends (cs_handle s) = xs @ r # ys \<and> length ys \<le> m \<and> (cs_users s 0 \<noteq> Outside \<longrightarrow> ys = [])) \<and>
     (case cs_users s 0 of Outside \<Rightarrow> True | Taking c' \<Rightarrow> c' = c | Filling c' n \<Rightarrow> c' = c
      | Pushing ty n \<Rightarrow> ty = CLH_REQUEST_TYPE_SEND)"

lemma conc_step_ok: "threads_ok U s \<Longrightarrow> conc_step U a s s' \<Longrightarrow> threads_ok U s'"
  by (rule thr.together.reach_inv [where s = s]) auto

lemma call_ok_cong: "h_endpoints h' = h_endpoints h \<Longrightarrow> call_ok h' c = call_ok h c"
  by (cases c) simp_all

lemma flood_user:
  assumes inv: "flood_inv U c r xs m s" and c: "call_queue c = CLH_REQUEST_TYPE_SEND" and m: "1 \<le> m"
    and busy: "cs_users s 0 \<noteq> Outside"
  shows "conc_step U (User_Thread 0) s (flood_step U c r s)" and "flood_inv U c r xs m (flood_step U c r s)"
proof -
  have ok: "threads_ok U s" using inv by (simp add: flood_inv_def)
  obtain h' pc where run: "user_step (cs_handle s) (cs_users s 0) = Inr (h', pc)"
    using user_defined [OF ok, of 0] by auto
  let ?s = "s\<lparr>cs_handle := h', cs_users := (cs_users s)(0 := pc)\<rparr>"
  have eq: "flood_step U c r s = ?s" using busy run by (simp add: flood_step_def)
  show step: "conc_step U (User_Thread 0) s (flood_step U c r s)"
    unfolding eq by (rule conc_step.user [OF run])
  note eff = user_sends [OF ok run]
  have "(\<exists>ys. sends h' = xs @ r # ys \<and> length ys \<le> m \<and> (pc \<noteq> Outside \<longrightarrow> ys = [])) \<and>
     (case pc of Outside \<Rightarrow> True | Taking c' \<Rightarrow> c' = c | Filling c' n \<Rightarrow> c' = c
      | Pushing ty n \<Rightarrow> ty = CLH_REQUEST_TYPE_SEND)"
    using inv busy run c m eff(1)
    by (cases "cs_users s 0") (auto simp: flood_inv_def res_simps case_prod_beta)
  then show "flood_inv U c r xs m (flood_step U c r s)"
    using inv conc_step_ok [OF ok step] call_ok_cong [OF eff(2)] eff(3)
    unfolding eq flood_inv_def by simp
qed

lemma flood_enter:
  assumes inv: "flood_inv U c r xs m s" and out: "cs_users s 0 = Outside" and turn: "about_to_send r s"
  shows "conc_step U (User_Thread 0) s (flood_step U c r s)" and "flood_inv U c r xs m (flood_step U c r s)"
proof -
  have ok: "threads_ok U s" using inv by (simp add: flood_inv_def)
  have eq: "flood_step U c r s = s\<lparr>cs_users := (cs_users s)(0 := Taking c)\<rparr>"
    using out turn by (simp add: flood_step_def)
  show step: "conc_step U (User_Thread 0) s (flood_step U c r s)"
    unfolding eq by (rule conc_step.enter [OF out]) (use inv in \<open>simp add: flood_inv_def\<close>)
  from inv obtain ys where ys: "sends (cs_handle s) = xs @ r # ys" by (auto simp: flood_inv_def)
  have "ys = []"
    using turn queued_distinct [OF ok, of CLH_REQUEST_TYPE_SEND] by (cases ys rule: rev_cases) (auto simp: about_to_send_def ys)
  then show "flood_inv U c r xs m (flood_step U c r s)"
    using inv conc_step_ok [OF ok step] ys unfolding eq flood_inv_def by simp
qed

lemma flood_worker:
  assumes inv: "flood_inv U c r xs m s" and out: "cs_users s 0 = Outside" and turn: "\<not> about_to_send r s"
    and U: "ucp_reliable U"
  shows "conc_step U Worker_Thread s (flood_step U c r s)" and "flood_inv U c r xs m (flood_step U c r s)"
proof -
  have ok: "threads_ok U s" using inv by (simp add: flood_inv_def)
  from worker_defined [OF ok] U obtain h' pc where
    run: "worker_step U (cs_handle s) (cs_worker s) = Inr (h', pc)"
    by (auto simp: outcome_False)
  have eq: "flood_step U c r s = s\<lparr>cs_handle := h', cs_worker := pc\<rparr>"
    using out turn run by (simp add: flood_step_def)
  show step: "conc_step U Worker_Thread s (flood_step U c r s)"
    unfolding eq by (rule conc_step.worker [OF run])
  from inv obtain ys where ys: "sends (cs_handle s) = xs @ r # ys" "length ys \<le> m"
    by (auto simp: flood_inv_def)
  from worker_sends [OF ok run] have "\<exists>ys. sends h' = xs @ r # ys \<and> length ys \<le> m"
  proof (elim conjE disjE exE)
    fix n assume pop: "cs_worker s = Send_Pop" "sends (cs_handle s) = sends h' @ [n]"
    then have "n \<noteq> r" using turn by (simp add: about_to_send_def)
    then show ?thesis using ys pop by (cases ys rule: rev_cases) auto
  qed (use ys in simp)
  moreover have "pc \<noteq> Stopped" using worker_stops [of U _ _ h'] run inv by (auto simp: flood_inv_def)
  moreover have "h_endpoints h' = h_endpoints (cs_handle s)" "h_run h' = h_run (cs_handle s)"
    using worker_sends [OF ok run] by (simp_all add: same_setup_def)
  ultimately show "flood_inv U c r xs m (flood_step U c r s)"
    using inv conc_step_ok [OF ok step] call_ok_cong [of h' "cs_handle s" c] out
    unfolding eq flood_inv_def by simp
qed

lemma flood_moves:
  assumes "flood_inv U c r xs m s" and "call_queue c = CLH_REQUEST_TYPE_SEND" and "1 \<le> m"
    and "ucp_reliable U"
  shows "conc_step U (flood_turn r s) s (flood_step U c r s) \<and> flood_inv U c r xs m (flood_step U c r s)"
  using flood_user [OF assms(1-3)] flood_enter [OF assms(1)] flood_worker [OF assms(1) _ _ assms(4)]
  by (auto simp: flood_turn_def)

section \<open>The worker keeps moving\<close>

text \<open>How many steps the call of the user still takes.\<close>

fun call_left :: "user_pc \<Rightarrow> nat" where
  "call_left Outside = 0"
| "call_left (Taking c) = 3"
| "call_left (Filling c n) = 2"
| "call_left (Pushing ty n) = 1"

lemma call_left_step:
  "user_step h pc = Inr (h', pc') \<Longrightarrow> pc \<noteq> Outside \<Longrightarrow> Suc (call_left pc') = call_left pc"
  by (cases pc) (auto simp: res_simps case_prod_beta)

text \<open>When the call returns, its send is the newest, and the worker goes on.\<close>

lemma flood_returns:
  assumes inv: "flood_inv U c r xs m s" and busy: "cs_users s 0 \<noteq> Outside"
    and ret: "cs_users (flood_step U c r s) 0 = Outside"
  shows "flood_turn r (flood_step U c r s) = Worker_Thread"
proof -
  have ok: "threads_ok U s" using inv by (simp add: flood_inv_def)
  obtain h' pc where run: "user_step (cs_handle s) (cs_users s 0) = Inr (h', pc)"
    using user_defined [OF ok, of 0] by auto
  have eq: "flood_step U c r s = s\<lparr>cs_handle := h', cs_users := (cs_users s)(0 := pc)\<rparr>"
    using busy run by (simp add: flood_step_def)
  with ret have "pc = Outside" by simp
  then obtain n where n: "cs_users s 0 = Pushing CLH_REQUEST_TYPE_SEND n"
    using inv busy run by (cases "cs_users s 0") (auto simp: flood_inv_def res_simps case_prod_beta)
  then have "n \<in> held (cs_users s)" unfolding held_def by (force intro: exI [of _ 0])
  then have "n \<notin> set (sends (cs_handle s))" using owners_disjoint [OF ok] by blast
  moreover have "r \<in> set (sends (cs_handle s))" using inv by (auto simp: flood_inv_def)
  moreover have "sends h' = sends (cs_handle s) @ [n]" using user_sends(1) [OF ok run] n by simp
  ultimately have "\<not> about_to_send r (flood_step U c r s)" by (auto simp: eq about_to_send_def)
  then show ?thesis using ret by (simp add: flood_turn_def)
qed

lemma flood_fair:
  assumes "flood_inv U c r xs m s" and c: "call_queue c = CLH_REQUEST_TYPE_SEND" and m: "1 \<le> m"
  shows "\<exists>k. flood_turn r ((flood_step U c r ^^ k) s) = Worker_Thread"
proof -
  have busy: "\<exists>k. flood_turn r ((flood_step U c r ^^ k) s) = Worker_Thread"
    if "flood_inv U c r xs m s" "call_left (cs_users s 0) = Suc l" for l and s :: "'a conc_state"
    using that
  proof (induction l arbitrary: s)
    case 0
    obtain h' pc where run: "user_step (cs_handle s) (cs_users s 0) = Inr (h', pc)"
      using user_defined [of U s 0] 0(1) by (auto simp: flood_inv_def)
    have out: "cs_users s 0 \<noteq> Outside" using 0(2) by auto
    then have "call_left pc = 0" using call_left_step [OF run] 0(2) by simp
    then have "cs_users (flood_step U c r s) 0 = Outside"
      using out run by (cases pc) (auto simp: flood_step_def)
    from flood_returns [OF 0(1) out this] show ?case by (intro exI [of _ 1]) simp
  next
    case (Suc l)
    obtain h' pc where run: "user_step (cs_handle s) (cs_users s 0) = Inr (h', pc)"
      using user_defined [of U s 0] Suc.prems(1) by (auto simp: flood_inv_def)
    have out: "cs_users s 0 \<noteq> Outside" using Suc.prems(2) by auto
    have "call_left (cs_users (flood_step U c r s) 0) = Suc l"
      using call_left_step [OF run out] Suc.prems(2) out run by (simp add: flood_step_def)
    from Suc.IH [OF flood_user(2) [OF Suc.prems(1) c m out] this] obtain k where
      "flood_turn r ((flood_step U c r ^^ k) (flood_step U c r s)) = Worker_Thread" by blast
    then show ?case by (intro exI [of _ "Suc k"]) (simp only: funpow_Suc_right comp_apply)
  qed
  show ?thesis
  proof (cases "flood_turn r s = Worker_Thread")
    case True
    then show ?thesis by (intro exI [of _ 0]) simp
  next
    case False
    show ?thesis
    proof (cases "cs_users s 0 = Outside")
      case True
      with False have turn: "about_to_send r s" by (simp add: flood_turn_def split: if_splits)
      then have "call_left (cs_users (flood_step U c r s) 0) = Suc 2"
        using True by (simp add: flood_step_def)
      from busy [OF flood_enter(2) [OF assms(1) True turn] this] obtain k where
        "flood_turn r ((flood_step U c r ^^ k) (flood_step U c r s)) = Worker_Thread" by blast
      then show ?thesis by (intro exI [of _ "Suc k"]) (simp only: funpow_Suc_right comp_apply)
    next
      case False
      then obtain l where "call_left (cs_users s 0) = Suc l" by (cases "cs_users s 0") auto
      from busy [OF assms(1) this] show ?thesis .
    qed
  qed
qed

section \<open>The run\<close>

lemma flood_run:
  assumes "handle_inv h" and "ucp_ok U" and U: "ucp_reliable U" and "h_run h" and "call_ok h c"
    and c: "call_queue c = CLH_REQUEST_TYPE_SEND" and q: "sends h = xs @ r # ys"
  defines "run \<equiv> \<lambda>i. (flood_step U c r ^^ i) (conc_start h)"
  defines "who \<equiv> \<lambda>i. flood_turn r (run i)"
  shows "conc_run U who run" and "\<forall>i. \<exists>j \<ge> i. who j = Worker_Thread"
    and "\<forall>i. \<exists>j \<ge> i. cs_worker (run j) = Loop_Test"
    and "\<exists>zs. sends (cs_handle (run i)) = xs @ r # zs \<and> length zs \<le> max 1 (length ys)"
    and "\<not> completed_in (cs_handle (run i)) r"
proof -
  let ?m = "max 1 (length ys)"
  have m: "1 \<le> ?m" by simp
  have "flood_inv U c r xs ?m (conc_start h)"
    using assms conc_start_ok [OF assms(1,2)] by (simp add: flood_inv_def conc_start_def)
  then have inv: "flood_inv U c r xs ?m (run i)" for i
    unfolding run_def by (induction i) (use flood_moves [OF _ c m U] in auto)
  have ok: "threads_ok U (run i)" for i using inv [of i] by (simp add: flood_inv_def)
  show r: "conc_run U who run"
    using flood_moves [OF inv c m U] by (simp add: conc_run_def who_def run_def)
  show fair: "\<forall>i. \<exists>j \<ge> i. who j = Worker_Thread"
  proof
    fix i
    from flood_fair [OF inv [of i] c m] obtain k where
      "flood_turn r ((flood_step U c r ^^ k) (run i)) = Worker_Thread" by blast
    then have "who (k + i) = Worker_Thread" by (simp add: who_def run_def funpow_add)
    then show "\<exists>j \<ge> i. who j = Worker_Thread" by (intro exI [of _ "k + i"]) simp
  qed
  have "cs_worker (run i) \<noteq> Stopped" for i using inv [of i] by (simp add: flood_inv_def)
  then show "\<forall>i. \<exists>j \<ge> i. cs_worker (run j) = Loop_Test"
    using worker_comes_back [OF ok r fair] by blast
  show sends: "\<exists>zs. sends (cs_handle (run i)) = xs @ r # zs \<and> length zs \<le> ?m"
    using inv [of i] by (auto simp: flood_inv_def)
  show "\<not> completed_in (cs_handle (run i)) r"
    by (rule sends_pending [OF ok]) (use sends in auto)
qed

end
