(* ===== verification/Clh_Halt.thy ===== *)
theory Clh_Halt
  imports Clh_Starve
begin

text \<open>
  The end of the worker between threads: once the flag is cleared and the users have left, the
  worker takes, posts and finishes what is left and stops, whatever the network does meanwhile.
  The requests only move on, from the queues into the hand of the worker, from there in flight, and
  then to their end, so from some time on none moves any more; then there is none.
\<close>

section \<open>Where the requests are\<close>

definition waiting :: "'u conc_state \<Rightarrow> nat set" where
  "waiting s = set (queued (cs_handle s) CLH_REQUEST_TYPE_SEND) \<union>
     set (queued (cs_handle s) CLH_REQUEST_TYPE_RECV)"

definition at_hand :: "'u conc_state \<Rightarrow> nat set" where
  "at_hand s = set (in_hand (cs_handle s) (cs_worker s))"

definition flying :: "'u conc_state \<Rightarrow> nat set" where
  "flying s = op_request ` set (inflight (cs_handle s))"

lemma charge_parts: "charge s = waiting s \<union> at_hand s \<union> flying s"
  by (auto simp: charge_def tracked_def waiting_def at_hand_def flying_def)

lemma finite_parts [simp]: "finite (waiting s)" "finite (at_hand s)" "finite (flying s)"
  by (simp_all add: waiting_def at_hand_def flying_def)

lemma parts_disjoint:
  assumes "threads_ok U s"
  shows "waiting s \<inter> at_hand s = {}" and "(waiting s \<union> at_hand s) \<inter> flying s = {}"
proof -
  let ?h = "cs_handle s" and ?qs = "queued (cs_handle s)"
  have rep: "conc_rep ?h (in_hand ?h (cs_worker s)) (held (cs_users s)) ?qs (released ?h)"
    using assms by (simp add: shared_inv_def)
  then have "reqs_ok ?h (at_hand s \<union> held (cs_users s)) ?qs (released ?h)"
    by (simp add: conc_rep_def at_hand_def)
  from reqs_ok_disjoint [OF this] have "flying s \<inter> (pooled UNIV ?qs (released ?h) \<union> at_hand s) = {}"
    by (auto simp: flying_def)
  moreover have "waiting s \<subseteq> pooled UNIV ?qs (released ?h)" by (auto simp: waiting_def pooled_def)
  moreover have "at_hand s \<inter> pooled UNIV ?qs (released ?h) = {}"
    using rep by (auto simp: conc_rep_def at_hand_def)
  ultimately show "waiting s \<inter> at_hand s = {}" and "(waiting s \<union> at_hand s) \<inter> flying s = {}" by blast+
qed

lemma parts_rest:
  assumes "threads_ok U s"
  shows "at_hand s = (waiting s \<union> at_hand s) - waiting s" and "flying s = charge s - (waiting s \<union> at_hand s)"
  using parts_disjoint [OF assms] by (auto simp: charge_parts)

lemma charge_pending:
  assumes ok: "threads_ok U s" and r: "r \<in> charge s"
  shows "\<not> completed_in (cs_handle s) r"
proof
  let ?h = "cs_handle s"
  assume done_r: "completed_in ?h r"
  have rep: "conc_rep ?h (in_hand ?h (cs_worker s)) (held (cs_users s)) (queued ?h) (released ?h)"
    using ok by (simp add: shared_inv_def)
  have w: "worker_ok ?h (cs_worker s) (in_hand ?h (cs_worker s))" using ok thread_ok.simps(1) by blast
  have in_c: "r \<in> in_charge ?h (queued ?h) (in_hand ?h (cs_worker s))"
    using r charge_in_charge ok by blast
  have "may_release ?h r" using done_r charge_not_free(1) [OF rep in_c] by (simp add: may_release_def)
  moreover have "r \<notin> held (cs_users s)" using in_charge_disjoint [OF rep] in_c by blast
  ultimately show False using completed_unowned(1) [OF rep w] in_c by blast
qed

section \<open>Requests only move on\<close>

lemma worker_charge:
  assumes ok: "threads_ok U s" and run: "worker_step U (cs_handle s) (cs_worker s) = Inr (h', pc')"
  shows "charge (s\<lparr>cs_handle := h', cs_worker := pc'\<rparr>) \<subseteq> charge s"
    and "r \<notin> charge s \<Longrightarrow> req_at h' r = req_at (cs_handle s) r"
    and "h_run h' = h_run (cs_handle s)"
proof -
  let ?s = "s\<lparr>cs_handle := h', cs_worker := pc'\<rparr>"
  note moved = worker_thread_moved [OF ok run]
  then obtain ws' qs' where
    rep: "conc_rep h' ws' (held (cs_users s)) qs' (released (cs_handle s))" and
    w: "worker_ok h' pc' ws'" and
    sub: "in_charge h' qs' ws' \<subseteq> in_charge (cs_handle s) (queued (cs_handle s))
      (in_hand (cs_handle s) (cs_worker s))"
    by (auto simp: worker_moved_def)
  have "charge ?s = in_charge h' qs' ws'"
    using charge_in_charge [OF worker_own(1) [OF ok run]] conc_rep_read [OF rep w] by simp
  moreover have eq: "charge s = in_charge (cs_handle s) (queued (cs_handle s))
      (in_hand (cs_handle s) (cs_worker s))"
    using ok charge_in_charge by blast
  ultimately show "charge ?s \<subseteq> charge s" using sub by simp
  show "req_at h' r = req_at (cs_handle s) r" if "r \<notin> charge s"
    using moved that unfolding eq by (auto simp: worker_moved_def)
  show "h_run h' = h_run (cs_handle s)" using moved by (auto simp: worker_moved_def same_setup_def)
qed

lemma network_same:
  assumes "conc_step U Network s s'"
  shows "waiting s' = waiting s" "at_hand s' = at_hand s" "flying s' = flying s"
    "req_at (cs_handle s') = req_at (cs_handle s)" "h_run (cs_handle s') = h_run (cs_handle s)"
    "cs_worker s' = cs_worker s"
  using assms
  by (auto elim!: network_elim simp: waiting_def at_hand_def flying_def queued_def inflight_def req_at_def
      fun_eq_iff split: worker_pc.splits; cases "cs_worker s"; simp)+

lemma quiet_step:
  assumes ok: "threads_ok U s" and ok': "threads_ok U s'" and step: "conc_step U a s s'"
    and a: "\<And>t. a \<noteq> User_Thread t"
  shows "waiting s' \<subseteq> waiting s" and "waiting s' \<union> at_hand s' \<subseteq> waiting s \<union> at_hand s"
    and "charge s' \<subseteq> charge s" and "r \<notin> charge s \<Longrightarrow> req_at (cs_handle s') r = req_at (cs_handle s) r"
    and "h_run (cs_handle s') = h_run (cs_handle s)"
proof -
  have "waiting s' \<subseteq> waiting s \<and> waiting s' \<union> at_hand s' \<subseteq> waiting s \<union> at_hand s \<and> charge s' \<subseteq> charge s \<and>
      (r \<notin> charge s \<longrightarrow> req_at (cs_handle s') r = req_at (cs_handle s) r) \<and>
      h_run (cs_handle s') = h_run (cs_handle s)"
  proof (cases a)
    case Worker_Thread
    with step obtain h' pc' where run: "worker_step U (cs_handle s) (cs_worker s) = Inr (h', pc')"
      and s': "s' = s\<lparr>cs_handle := h', cs_worker := pc'\<rparr>"
      by (auto elim!: worker_thread_elim)
    note charge = worker_charge [OF ok run, folded s']
    have fw: "at_hand s \<subseteq> at_hand s' \<union> flying s'"
        "\<forall>r \<in> flying s. r \<in> flying s' \<or> completed_in (cs_handle s') r"
      using conc_step_forward [OF ok step] by (auto simp: forward_def at_hand_def flying_def)
    note disj = parts_disjoint [OF ok']
    have two: "waiting s' \<union> at_hand s' \<subseteq> waiting s \<union> at_hand s"
    proof
      fix r assume r: "r \<in> waiting s' \<union> at_hand s'"
      then have "r \<in> charge s'" by (auto simp: charge_parts)
      then have "r \<in> charge s" and "\<not> completed_in (cs_handle s') r"
        using charge(1) charge_pending [OF ok'] by auto
      then show "r \<in> waiting s \<union> at_hand s" using fw(2) disj(2) r by (auto simp: charge_parts)
    qed
    moreover have "waiting s' \<subseteq> waiting s" using two fw(1) disj by blast
    ultimately show ?thesis using charge s' by simp
  next
    case Network
    then show ?thesis using network_same [of U s s'] step by (simp add: charge_parts)
  qed (use a in simp)
  then show "waiting s' \<subseteq> waiting s" and "waiting s' \<union> at_hand s' \<subseteq> waiting s \<union> at_hand s"
    and "charge s' \<subseteq> charge s" and "r \<notin> charge s \<Longrightarrow> req_at (cs_handle s') r = req_at (cs_handle s) r"
    and "h_run (cs_handle s') = h_run (cs_handle s)"
    by simp_all
qed

text \<open>A bound on the moves that are left.\<close>

definition moves_left :: "'u conc_state \<Rightarrow> nat" where
  "moves_left s = card (waiting s) + card (waiting s \<union> at_hand s) + card (charge s)"

lemma finite_charge [simp]: "finite (charge s)"
  by (simp add: charge_parts)

lemma moves_left_step:
  assumes "threads_ok U s" and "threads_ok U s'" and "conc_step U a s s'" and "\<And>t. a \<noteq> User_Thread t"
  shows "moves_left s' \<le> moves_left s"
    and "moves_left s' = moves_left s \<Longrightarrow> waiting s' = waiting s \<and> at_hand s' = at_hand s \<and> flying s' = flying s"
proof -
  note sub = quiet_step(1-3) [OF assms]
  have le: "card (waiting s') \<le> card (waiting s)"
    "card (waiting s' \<union> at_hand s') \<le> card (waiting s \<union> at_hand s)" "card (charge s') \<le> card (charge s)"
    by (intro card_mono sub; simp)+
  then show "moves_left s' \<le> moves_left s" by (simp add: moves_left_def)
  show "waiting s' = waiting s \<and> at_hand s' = at_hand s \<and> flying s' = flying s" if "moves_left s' = moves_left s"
  proof -
    from that le have "card (waiting s') = card (waiting s)"
      "card (waiting s' \<union> at_hand s') = card (waiting s \<union> at_hand s)" "card (charge s') = card (charge s)"
      by (simp_all add: moves_left_def)
    then have "waiting s' = waiting s" "waiting s' \<union> at_hand s' = waiting s \<union> at_hand s" "charge s' = charge s"
      using card_subset_eq [OF _ sub(1)] card_subset_eq [OF _ sub(2)] card_subset_eq [OF _ sub(3)]
      by simp_all
    then show ?thesis using parts_rest [OF assms(1)] parts_rest [OF assms(2)] by metis
  qed
qed

section \<open>Runs in which the users have left\<close>

lemma settles_down:
  fixes f :: "nat \<Rightarrow> nat"
  assumes "\<And>j. i \<le> j \<Longrightarrow> f (Suc j) \<le> f j"
  shows "\<exists>k \<ge> i. \<forall>j \<ge> k. f j = f k"
proof -
  obtain k where k: "i \<le> k" "\<And>j. i \<le> j \<Longrightarrow> f k \<le> f j"
    using ex_has_least_nat [of "\<lambda>k. i \<le> k" i f] by blast
  have "f j \<le> f k" if "k \<le> j" for j
    using that
  proof (induction j rule: dec_induct)
    case (step j)
    then show ?case using assms [of j] k(1) by simp
  qed simp
  then show ?thesis using k by (meson le_antisym le_trans)
qed

lemma charge_ends:
  assumes ok: "\<And>i. threads_ok U (run i)" and run: "conc_run U who run"
    and quiet: "\<forall>l \<ge> i. \<forall>t. who l \<noteq> User_Thread t"
    and r: "r \<in> charge (run i)" and le: "i \<le> j"
  shows "r \<in> charge (run j) \<or> completed_in (cs_handle (run j)) r"
  using le
proof (induction j rule: dec_induct)
  case (step j)
  have st: "conc_step U (who j) (run j) (run (Suc j))" using run by (simp add: conc_run_def)
  from step.IH show ?case
  proof
    assume "r \<in> charge (run j)"
    then show ?thesis using conc_step_keeps [OF ok st] by (simp add: conc_keeps_def)
  next
    assume c: "completed_in (cs_handle (run j)) r"
    then have "r \<notin> charge (run j)" using charge_pending [OF ok] by blast
    from quiet_step(4) [OF ok ok st _ this] quiet step.hyps(1) c show ?thesis
      by (simp add: completed_in_def)
  qed
qed (use r in simp)

text \<open>What the steps of the worker meet once no request moves: an empty hand, nothing in flight.\<close>

lemma idle_pop:
  assumes ok: "threads_ok U s" and "flying s = {}" and "sends (cs_handle s) \<noteq> []"
    and run: "send_pop (cs_handle s) = Inr (h', pc')"
  shows "\<exists>n. pc' = Send_Post n"
proof -
  let ?h = "cs_handle s" and ?qs = "queued (cs_handle s)"
  have rep: "conc_rep ?h (in_hand ?h (cs_worker s)) (held (cs_users s)) ?qs (released ?h)"
    using ok by (simp add: shared_inv_def)
  then have reqs: "reqs_ok ?h (set (in_hand ?h (cs_worker s)) \<union> held (cs_users s)) ?qs (released ?h)"
    and free: "(set (in_hand ?h (cs_worker s)) \<union> held (cs_users s)) \<inter> pooled UNIV ?qs (released ?h) = {}"
    by (auto simp: conc_rep_def)
  have "inflight ?h = []" using assms(2) by (simp add: flying_def)
  then have "unat (h_send_count ?h) = 0" using send_count_word(1) [OF rep] by (simp add: sends_of_def)
  then have room: "h_send_count ?h < of_nat CONF_SEND_THRESH"
    by (simp add: unat_eq_0 CONF_SEND_THRESH_def)
  obtain xs n where "sends ?h = xs @ [n]" using assms(3) by (cases "sends ?h" rule: rev_cases) auto
  from pop_send_in [OF reqs this free] room run show ?thesis
    by (auto simp: send_pop_def res_simps)
qed

lemma conc_run_step: "conc_run U who run \<Longrightarrow> conc_step U (who j) (run j) (run (Suc j))"
  by (simp add: conc_run_def)

lemma worker_turn:
  assumes "conc_run U who run" and "who j = Worker_Thread"
  obtains h' pc' where "worker_step U (cs_handle (run j)) (cs_worker (run j)) = Inr (h', pc')"
    and "run (Suc j) = (run j)\<lparr>cs_handle := h', cs_worker := pc'\<rparr>"
  using conc_run_step [OF assms(1), of j] assms(2) by (auto elim!: worker_thread_elim)

lemma sends_end:
  assumes ok: "\<And>i. threads_ok U (run i)" and run: "conc_run U who run"
    and fair: "\<forall>i. \<exists>j \<ge> i. who j = Worker_Thread"
    and start: "cs_worker (run m) = Loop_Test"
    and idle: "\<And>j. m \<le> j \<Longrightarrow> cs_worker (run j) \<noteq> Stopped \<and> at_hand (run j) = {} \<and> flying (run j) = {}"
  shows "\<exists>j \<ge> m. sends (cs_handle (run j)) = []"
proof (rule ccontr)
  assume "\<not> ?thesis"
  then have some: "sends (cs_handle (run j)) \<noteq> []" if "m \<le> j" for j using that by blast
  have "\<exists>j \<ge> m. cs_worker (run j) \<in> {}"
  proof (rule worker_leads_to [OF ok run fair, where P = "{Loop_Test, Probing, Send_Test, Send_Pop}"])
    fix j assume j: "m \<le> j" "who j = Worker_Thread"
      "cs_worker (run j) \<in> {Loop_Test, Probing, Send_Test, Send_Pop}"
    from worker_turn [OF run j(2)] obtain h' pc' where
      w: "worker_step U (cs_handle (run j)) (cs_worker (run j)) = Inr (h', pc')"
      and next_state: "run (Suc j) = (run j)\<lparr>cs_handle := h', cs_worker := pc'\<rparr>" .
    have head: "list_head (h_request_queues (cs_handle (run j)) CLH_REQUEST_TYPE_SEND) \<noteq> None"
      using some [OF j(1)] queued_empty by blast
    have pop: "\<not> send_pop (cs_handle (run j)) = Inr (h', pc')"
    proof
      assume "send_pop (cs_handle (run j)) = Inr (h', pc')"
      from idle_pop [OF ok _ some [OF j(1)] this] idle [OF j(1)] obtain n where "pc' = Send_Post n" by blast
      then have "at_hand (run (Suc j)) = {n}" by (simp add: next_state at_hand_def)
      moreover have "m \<le> Suc j" using j(1) by simp
      ultimately show False using idle [of "Suc j"] by simp
    qed
    have "pc' \<noteq> Stopped" using idle [of "Suc j"] j(1) next_state by simp
    then show "cs_worker (run (Suc j)) \<in> {} \<or>
        cs_worker (run (Suc j)) \<in> {Loop_Test, Probing, Send_Test, Send_Pop} - {Loop_Test}"
      using w j(3) head pop next_state by (auto simp: res_simps split: if_splits)
  qed (use start in simp_all)
  then show False by simp
qed

text \<open>From some point on no request moves. Then none is left.\<close>

lemma moves_end:
  assumes ok: "\<And>i. threads_ok U (run i)" and run: "conc_run U who run"
    and quiet: "\<forall>l \<ge> i. \<forall>t. who l \<noteq> User_Thread t"
  shows "\<exists>k \<ge> i. \<forall>j \<ge> k. waiting (run j) = waiting (run k) \<and> at_hand (run j) = at_hand (run k) \<and>
      flying (run j) = flying (run k)"
proof -
  note st = conc_run_step [OF run]
  have le: "moves_left (run (Suc j)) \<le> moves_left (run j)" if "i \<le> j" for j
    using moves_left_step(1) [OF ok ok st] quiet that by blast
  obtain k where k: "i \<le> k" and const: "\<forall>j \<ge> k. moves_left (run j) = moves_left (run k)"
    using settles_down [of i "\<lambda>j. moves_left (run j)", OF le] by blast
  have "waiting (run j) = waiting (run k) \<and> at_hand (run j) = at_hand (run k) \<and>
      flying (run j) = flying (run k)" if "k \<le> j" for j
    using that
  proof (induction j rule: dec_induct)
    case (step j)
    have "moves_left (run (Suc j)) = moves_left (run j)" using const step.hyps(1) by (metis le_SucI)
    moreover have "\<And>t. who j \<noteq> User_Thread t" using quiet k step.hyps(1) by simp
    ultimately show ?case using moves_left_step(2) [OF ok ok st, of j] step.IH by simp
  qed simp
  then show ?thesis using k by blast
qed

lemma nothing_left:
  assumes ok: "\<And>i. threads_ok U (run i)" and run: "conc_run U who run"
    and fair: "\<forall>i. \<exists>j \<ge> i. who j = Worker_Thread" and fin: "finishes U"
    and quiet: "\<forall>l \<ge> i. \<forall>t. who l \<noteq> User_Thread t"
    and on: "\<And>j. i \<le> j \<Longrightarrow> cs_worker (run j) \<noteq> Stopped"
  shows "\<exists>k \<ge> i. \<forall>j \<ge> k. charge (run j) = {}"
proof -
  obtain k where k: "i \<le> k" and same: "\<And>j. k \<le> j \<Longrightarrow> waiting (run j) = waiting (run k) \<and>
      at_hand (run j) = at_hand (run k) \<and> flying (run j) = flying (run k)"
    using moves_end [OF ok run quiet] by blast
  have on': "cs_worker (run j) \<noteq> Stopped" if "k \<le> j" for j using on k that by simp
  obtain m where m: "k \<le> m" "cs_worker (run m) = Loop_Test"
    using worker_comes_back [OF ok run fair] on' by (meson order_trans)
  then have "at_hand (run m) = {}" by (simp add: at_hand_def)
  then have at_hand: "at_hand (run j) = {}" if "k \<le> j" for j using same [OF that] same [OF m(1)] by simp
  have "flying (run k) = {}"
  proof (rule ccontr)
    assume "flying (run k) \<noteq> {}"
    then obtain r where r: "r \<in> flying (run k)" by blast
    then obtain j where j: "k \<le> j" "completed_in (cs_handle (run j)) r"
      using request_completed [OF ok run fair fin, of r k] on' unfolding flying_def by blast
    then have "r \<in> charge (run j)" using r same [OF j(1)] by (simp add: charge_parts)
    then show False using charge_pending [OF ok] j(2) by blast
  qed
  then have flying: "flying (run j) = {}" if "k \<le> j" for j using same [OF that] by simp
  have recvs: "queued (cs_handle (run j)) CLH_REQUEST_TYPE_RECV = []" if kj: "k \<le> j" for j
  proof (rule ccontr)
    assume "\<not> ?thesis"
    then obtain r where "r \<in> set (queued (cs_handle (run j)) CLH_REQUEST_TYPE_RECV)"
      by (metis list.set_intros(1) neq_Nil_conv)
    from request_taken [OF ok run fair this] obtain l where l: "j \<le> l"
      "r \<in> set (in_hand (cs_handle (run l)) (cs_worker (run l))) \<or> cs_worker (run l) = Stopped" by blast
    then show False using at_hand [of l] on' [of l] kj by (simp add: at_hand_def)
  qed
  have idle: "cs_worker (run j) \<noteq> Stopped \<and> at_hand (run j) = {} \<and> flying (run j) = {}" if "m \<le> j" for j
    using on' [of j] at_hand [of j] flying [of j] m(1) that by simp
  from sends_end [OF ok run fair m(2) idle] obtain l where l: "m \<le> l" "sends (cs_handle (run l)) = []"
    by blast
  then have "waiting (run l) = {}" using recvs [of l] m(1) by (simp add: waiting_def)
  then have "charge (run j) = {}" if "k \<le> j" for j
    using same [OF that] same [of l] l(1) m(1) at_hand [OF that] flying [OF that] by (simp add: charge_parts)
  then show ?thesis using k by blast
qed

text \<open>So the worker finds the flag cleared and its queues empty.\<close>

lemma charge_empty_queues: "threads_ok U s \<Longrightarrow> charge s = {} \<Longrightarrow> queues_empty (cs_handle s)"
proof -
  assume ok: "threads_ok U s" and none: "charge s = {}"
  let ?h = "cs_handle s"
  have reqs: "reqs_ok ?h (set (in_hand ?h (cs_worker s)) \<union> held (cs_users s)) (queued ?h) (released ?h)"
    using ok by (simp add: shared_inv_def conc_rep_def)
  then have "queued ?h CLH_REQUEST_TYPE_PROBE = []" by (simp add: reqs_ok_def queue_ok_def)
  moreover have "sends ?h = []" "queued ?h CLH_REQUEST_TYPE_RECV = []" "inflight ?h = []"
    using none by (auto simp: charge_parts waiting_def flying_def)
  ultimately show ?thesis
    using queue_len [OF reqs] array_len_inflight [OF reqs] by (simp add: queues_empty_def)
qed

lemma flag_stays:
  assumes ok: "\<And>i. threads_ok U (run i)" and run: "conc_run U who run"
    and quiet: "\<forall>l \<ge> i. \<forall>t. who l \<noteq> User_Thread t" and "i \<le> j"
  shows "h_run (cs_handle (run j)) = h_run (cs_handle (run i))"
  using assms(4)
proof (induction j rule: dec_induct)
  case (step j)
  then show ?case using quiet_step(5) [OF ok ok conc_run_step [OF run, of j]] quiet by simp
qed simp

lemma worker_halts:
  assumes ok: "\<And>i. threads_ok U (run i)" and run: "conc_run U who run"
    and fair: "\<forall>i. \<exists>j \<ge> i. who j = Worker_Thread" and fin: "finishes U"
    and quiet: "\<forall>l \<ge> i. \<forall>t. who l \<noteq> User_Thread t" and flag: "\<not> h_run (cs_handle (run i))"
  shows "\<exists>j \<ge> i. cs_worker (run j) = Stopped"
proof (rule ccontr)
  assume "\<not> ?thesis"
  then have on: "cs_worker (run j) \<noteq> Stopped" if "i \<le> j" for j using that by blast
  obtain k where k: "i \<le> k" "\<And>j. k \<le> j \<Longrightarrow> charge (run j) = {}"
    using nothing_left [OF ok run fair fin quiet on] by blast
  obtain m where m: "k \<le> m" "cs_worker (run m) = Loop_Test"
    using worker_comes_back [OF ok run fair] on k(1) by (meson order_trans)
  have "\<exists>j \<ge> m. cs_worker (run j) \<in> {}"
  proof (rule worker_leads_to [OF ok run fair, where P = "{Loop_Test}"])
    fix j assume j: "m \<le> j" "who j = Worker_Thread" "cs_worker (run j) \<in> {Loop_Test}"
    from worker_turn [OF run j(2)] obtain h' pc' where
      w: "worker_step U (cs_handle (run j)) (cs_worker (run j)) = Inr (h', pc')"
      and next_state: "run (Suc j) = (run j)\<lparr>cs_handle := h', cs_worker := pc'\<rparr>" .
    have "queues_empty (cs_handle (run j))" using charge_empty_queues [OF ok k(2)] m(1) j(1) by simp
    moreover have "\<not> h_run (cs_handle (run j))"
      using flag_stays [OF ok run quiet, of j] flag k(1) m(1) j(1) by simp
    ultimately have "pc' = Stopped" using w j(3) by simp
    then show "cs_worker (run (Suc j)) \<in> {} \<or> cs_worker (run (Suc j)) \<in> {Loop_Test} - {Loop_Test}"
      using on [of "Suc j"] next_state k(1) m(1) j(1) by simp
  qed (use m in simp_all)
  then show False by simp
qed

text \<open>And what it was in charge of has been completed, as the counters of the lists do not wrap.\<close>

definition posted_fits :: "'u conc_state \<Rightarrow> bool" where
  "posted_fits s \<longleftrightarrow> length (sends (cs_handle s)) + length (queued (cs_handle s) CLH_REQUEST_TYPE_RECV) < 2 ^ 64"

lemma waiting_later:
  assumes ok: "\<And>i. threads_ok U (run i)" and run: "conc_run U who run"
    and quiet: "\<forall>l \<ge> i. \<forall>t. who l \<noteq> User_Thread t" and "i \<le> j"
  shows "waiting (run j) \<subseteq> waiting (run i)"
  using assms(4)
proof (induction j rule: dec_induct)
  case (step j)
  then show ?case using quiet_step(1) [OF ok ok conc_run_step [OF run, of j]] quiet by blast
qed simp

lemma card_queue_le:
  assumes "threads_ok U s" and "ty \<in> {CLH_REQUEST_TYPE_SEND, CLH_REQUEST_TYPE_RECV}"
  shows "length (queued (cs_handle s) ty) \<le> card (waiting s)"
proof -
  have "length (queued (cs_handle s) ty) = card (set (queued (cs_handle s) ty))"
    using queued_distinct [OF assms(1)] distinct_card by metis
  also have "\<dots> \<le> card (waiting s)"
    using assms(2) by (intro card_mono) (auto simp: waiting_def)
  finally show ?thesis .
qed

lemma queues_empty_charge:
  assumes ok: "threads_ok U s" and "queues_empty (cs_handle s)" and "card (waiting s) < 2 ^ 64"
    and "cs_worker s = Loop_Test"
  shows "charge s = {}"
proof -
  let ?h = "cs_handle s"
  have reqs: "reqs_ok ?h (set (in_hand ?h (cs_worker s)) \<union> held (cs_users s)) (queued ?h) (released ?h)"
    using ok by (simp add: shared_inv_def conc_rep_def)
  have "queued ?h ty = []" if "ty \<in> {CLH_REQUEST_TYPE_SEND, CLH_REQUEST_TYPE_RECV}" for ty
  proof -
    have "(of_nat (length (queued ?h ty)) :: clh_u64) = 0"
      using that assms(2) queue_len [OF reqs] by (auto simp: queues_empty_def)
    moreover have "length (queued ?h ty) < 2 ^ 64" using card_queue_le [OF ok that] assms(3) by simp
    ultimately have "length (queued ?h ty) = 0"
      using nat_dvd_not_less [of "length (queued ?h ty)" "2 ^ 64"] by (auto simp: word_of_nat_eq_0_iff)
    then show ?thesis by simp
  qed
  moreover have "inflight ?h = []"
    using assms(2) array_len_inflight [OF reqs] by (simp add: queues_empty_def)
  ultimately show ?thesis using assms(4) by (simp add: charge_parts waiting_def flying_def at_hand_def)
qed

lemma waiting_fits: "threads_ok U s \<Longrightarrow> posted_fits s \<Longrightarrow> card (waiting s) < 2 ^ 64"
  unfolding posted_fits_def waiting_def
  by (metis (no_types, lifting) card_Un_le card_length add_mono le_less_trans)

lemma worker_ends_empty:
  assumes ok: "\<And>i. threads_ok U (run i)" and run: "conc_run U who run"
    and fair: "\<forall>i. \<exists>j \<ge> i. who j = Worker_Thread" and fin: "finishes U"
    and quiet: "\<forall>l \<ge> i. \<forall>t. who l \<noteq> User_Thread t" and flag: "\<not> h_run (cs_handle (run i))"
    and on: "cs_worker (run i) \<noteq> Stopped" and fits: "posted_fits (run i)"
  shows "\<exists>j \<ge> i. cs_worker (run j) = Stopped \<and> charge (run j) = {} \<and>
      (\<forall>r \<in> charge (run i). completed_in (cs_handle (run j)) r)"
proof -
  define j where "j = (LEAST j. i \<le> j \<and> cs_worker (run j) = Stopped)"
  have j: "i \<le> j \<and> cs_worker (run j) = Stopped"
    unfolding j_def by (rule LeastI_ex) (use worker_halts [OF ok run fair fin quiet flag] in blast)
  have before: "cs_worker (run l) \<noteq> Stopped" if "i \<le> l" "l < j" for l
    using not_less_Least [OF that(2) [unfolded j_def]] that(1) by blast
  have "i \<noteq> j" using on j by auto
  then obtain l where l: "j = Suc l" "i \<le> l" using j by (cases j) auto
  have alive: "cs_worker (run l) \<noteq> Stopped" using before l by simp
  have "who l = Worker_Thread"
    using others_rank [OF ok conc_run_step [OF run, of l]] alive j l by metis
  from worker_turn [OF run this] obtain h' pc' where
    w: "worker_step U (cs_handle (run l)) (cs_worker (run l)) = Inr (h', pc')"
    and next_state: "run j = (run l)\<lparr>cs_handle := h', cs_worker := pc'\<rparr>" unfolding l(1) .
  then have "pc' = Stopped" using j by simp
  from worker_stops [OF w [unfolded this] alive] have
    last: "cs_worker (run l) = Loop_Test" "h' = cs_handle (run l)" "queues_empty (cs_handle (run l))"
    by simp_all
  have "card (waiting (run l)) \<le> card (waiting (run i))"
    using waiting_later [OF ok run quiet l(2)] by (intro card_mono) simp_all
  then have "charge (run l) = {}"
    using queues_empty_charge [OF ok last(3) _ last(1)] waiting_fits [OF ok fits] by simp
  then have none: "charge (run j) = {}"
    using last \<open>pc' = Stopped\<close> by (simp add: next_state charge_def)
  then have "completed_in (cs_handle (run j)) r" if "r \<in> charge (run i)" for r
    using charge_ends [OF ok run quiet that, of j] j by simp
  then show ?thesis using j none by blast
qed

end
