(* ===== verification/Clh_Join.thy ===== *)
theory Clh_Join
  imports Clh_Halt Clh_Stop
begin

text \<open>
  The end of a handle between threads: \<open>terminate_\<close> clears the flag, a step of Clh\_Conc, joins the
  worker thread and destroys the queues. The joining thread waits until the worker has left its
  loop and closed UCX.
\<close>

section \<open>Joining the worker\<close>

text \<open>\<open>None\<close> while the thread runs; then what \<open>run_\<close> leaves behind after its loop.\<close>

definition clh_thread_join :: "nat \<Rightarrow> 'u ucp \<Rightarrow> 'u conc_state \<Rightarrow> 'u clh_handle res option" where
  "clh_thread_join fuel U s =
     (if cs_worker s = Stopped then Some (run_epilogue fuel U (cs_handle s)) else None)"

definition terminate_threads :: "nat \<Rightarrow> 'u ucp \<Rightarrow> 'u conc_state \<Rightarrow> 'u clh_handle res option" where
  "terminate_threads fuel U s =
     (case clh_thread_join fuel U s of
        None \<Rightarrow> None
      | Some r \<Rightarrow> Some (ebind r terminate_queues))"

section \<open>What the threads never change\<close>

lemma upd_request_setup:
  "upd_request h r f = Inr h' \<Longrightarrow> h_endpoints h' = h_endpoints h \<and> h_pmi h' = h_pmi h"
  by (auto simp: upd_request_def res_simps)

lemma user_step_setup:
  "user_step h pc = Inr (h', pc') \<Longrightarrow> h_endpoints h' = h_endpoints h \<and> h_pmi h' = h_pmi h"
  by (cases pc) (auto simp: set_queue_def res_simps case_prod_beta dest!: upd_request_setup)

lemma conc_step_setup:
  assumes ok: "threads_ok U s" and step: "conc_step U a s s'"
  shows "h_endpoints (cs_handle s') = h_endpoints (cs_handle s) \<and> h_pmi (cs_handle s') = h_pmi (cs_handle s)"
  using step
proof cases
  case (worker h' pc)
  then show ?thesis using worker_sends [OF ok worker(3)] by (simp add: same_setup_def)
next
  case (user t h' pc)
  then show ?thesis using user_step_setup [OF user(3)] by simp
next
  case (request_recv t r buffer h')
  then show ?thesis by (auto simp: request_recv_fill_def Let_def res_simps dest!: upd_request_setup)
next
  case (release t r h')
  then show ?thesis by (auto simp: clh_request_release_def set_queue_def res_simps case_prod_beta)
qed simp_all

lemma conc_run_setup:
  assumes ok: "\<And>i. threads_ok U (run i)" and run: "conc_run U who run"
  shows "h_endpoints (cs_handle (run i)) = h_endpoints (cs_handle (run 0)) \<and>
    h_pmi (cs_handle (run i)) = h_pmi (cs_handle (run 0))"
proof (induction i)
  case (Suc i)
  then show ?case using conc_step_setup [OF ok conc_run_step [OF run, of i]] by simp
qed simp

text \<open>Users that have left the library stay outside.\<close>

lemma quiet_users:
  assumes run: "conc_run U who run" and quiet: "\<forall>l \<ge> i. \<forall>t. who l \<noteq> User_Thread t" and "i \<le> j"
  shows "cs_users (run j) = cs_users (run i)"
  using assms(3)
proof (induction j rule: dec_induct)
  case (step j)
  have "cs_users (run (Suc j)) = cs_users (run j)"
    using conc_run_step [OF run, of j] quiet step.hyps(1)
    by (cases "who j") (auto elim!: worker_thread_elim network_elim)
  then show ?case using step.IH by simp
qed simp

text \<open>Neither the worker nor the network releases a request.\<close>

lemma worker_released:
  assumes ok: "threads_ok U s" and run: "worker_step U (cs_handle s) (cs_worker s) = Inr (h', pc')"
  shows "released h' = released (cs_handle s)"
proof -
  from worker_thread_moved [OF ok run] obtain ws' qs' where
    rep: "conc_rep h' ws' (held (cs_users s)) qs' (released (cs_handle s))" and w: "worker_ok h' pc' ws'"
    by (auto simp: worker_moved_def)
  from conc_rep_read(2) [OF rep w] show ?thesis by simp
qed

lemma quiet_released:
  assumes ok: "\<And>i. threads_ok U (run i)" and run: "conc_run U who run"
    and quiet: "\<forall>l \<ge> i. \<forall>t. who l \<noteq> User_Thread t" and "i \<le> j"
  shows "released (cs_handle (run j)) = released (cs_handle (run i))"
  using assms(4)
proof (induction j rule: dec_induct)
  case (step j)
  have "released (cs_handle (run (Suc j))) = released (cs_handle (run j))"
    using conc_run_step [OF run, of j] quiet step.hyps(1) worker_released [OF ok]
    by (cases "who j") (auto elim!: worker_thread_elim network_elim simp: released_def fun_eq_iff)
  then show ?case using step.IH by simp
qed simp

section \<open>The whole of it\<close>

lemma stopped_inv:
  assumes ok: "threads_ok U s" and "cs_worker s = Stopped" and "\<And>t. cs_users s t = Outside"
  shows "handle_inv (cs_handle s)"
proof -
  have "held (cs_users s) = {}" using assms(3) by (simp add: held_def)
  then show ?thesis
    using ok assms(2) by (auto simp: shared_inv_def conc_rep_def handle_inv_def handle_rep_def)
qed

text \<open>
  Once the flag is cleared and the users have left, the join returns some time; by then every
  request the worker was in charge of is completed and in the hands of the user, and of all
  requests exactly those the user did not release are left.
\<close>

lemma terminate_threads_spec:
  assumes ok: "\<And>i. threads_ok U (run i)" and run: "conc_run U who run"
    and fair: "\<forall>i. \<exists>j \<ge> i. who j = Worker_Thread" and fin: "finishes U" and close: "ucx_closes U"
    and eps: "has_endpoints (cs_handle (run 0))"
    and quiet: "\<forall>l \<ge> i. \<forall>t. who l \<noteq> User_Thread t" and flag: "\<not> h_run (cs_handle (run i))"
    and out: "\<And>t. cs_users (run i) t = Outside"
    and on: "cs_worker (run i) \<noteq> Stopped" and fits: "posted_fits (run i)"
  shows "\<exists>j \<ge> i. \<exists>h'. terminate_threads fuel U (run j) = Some (Inr h') \<and>
     (\<forall>r \<in> charge (run i). completed_in (cs_handle (run j)) r \<and> user_holds (cs_handle (run j)) r) \<and>
     (\<forall>r. req_at h' r \<noteq> None \<longleftrightarrow> user_holds (cs_handle (run j)) r)"
proof -
  from worker_ends_empty [OF ok run fair fin quiet flag on fits] obtain j where
    j: "i \<le> j" "cs_worker (run j) = Stopped" "charge (run j) = {}"
      "\<forall>r \<in> charge (run i). completed_in (cs_handle (run j)) r" by blast
  let ?h = "cs_handle (run j)"
  have inv: "handle_inv ?h" using stopped_inv [OF ok j(2)] quiet_users [OF run quiet j(1)] out by simp
  have "has_endpoints ?h"
    using conc_run_setup [OF ok run, of j] eps by (simp add: has_endpoints_def clh_node_id_def clh_nb_nodes_def)
  moreover have "queued ?h ty = []" for ty
  proof -
    have "queued ?h CLH_REQUEST_TYPE_PROBE = []"
      using handle_inv_reqs [OF inv] by (simp add: reqs_ok_def queue_ok_def)
    then show ?thesis using j(3) by (cases ty) (auto simp: charge_parts waiting_def)
  qed
  ultimately obtain h' where h': "ebind (run_epilogue fuel U ?h) terminate_queues = Inr h'"
    "\<And>r. req_at h' r \<noteq> None \<longleftrightarrow> req_at ?h r \<noteq> None \<and> (\<forall>ty. r \<notin> set (released ?h ty))"
    using shut_down [OF inv _ fin close, of fuel] by blast
  have "tracked ?h = {}" using j(3) by (auto simp: charge_def)
  then have holds: "user_holds ?h r \<longleftrightarrow> req_at ?h r \<noteq> None \<and> (\<forall>ty. r \<notin> set (released ?h ty))" for r
    using user_holds_iff [OF inv] by simp
  moreover have "user_holds ?h r" if r: "r \<in> charge (run i)" for r
  proof -
    have rep: "conc_rep (cs_handle (run i)) (in_hand (cs_handle (run i)) (cs_worker (run i)))
        (held (cs_users (run i))) (queued (cs_handle (run i))) (released (cs_handle (run i)))"
      using ok [of i] by (simp add: shared_inv_def)
    have "\<forall>ty. r \<notin> set (released (cs_handle (run i)) ty)"
      using charge_not_free(1) [OF rep] r charge_in_charge ok by blast
    then show ?thesis
      using holds j(4) r quiet_released [OF ok run quiet j(1)] by (auto simp: completed_in_def opt_all_iff)
  qed
  moreover have "req_at h' r \<noteq> None \<longleftrightarrow> user_holds ?h r" for r using h'(2) holds by simp
  ultimately show ?thesis using j h'(1) by (auto simp: terminate_threads_def clh_thread_join_def)
qed

end
