(* ===== verification/Clh_Race.thy ===== *)
theory Clh_Race
  imports Clh_System
begin

text \<open>
  What \<open>clh_probe_\<close> risks next to the worker. It searches the received messages of a channel
  under the mutex of their list, gives the mutex back, and only then reads the message it found and
  removes it. The worker matches receives against the same lists. Here the function is cut at that
  point: in between the worker can take the message, so that it is removed twice, or take it and
  store another message in its node, so that the probe reports a message it did not look for.
\<close>

section \<open>The two halves of a probe\<close>

definition probe_begin ::
  "'u clh_handle \<Rightarrow> clh_u32 \<Rightarrow> clh_u64 \<Rightarrow> clh_u64 \<Rightarrow> bool \<Rightarrow> ('u clh_handle \<times> nat \<times> node_ptr) res" where
  "probe_begin h channel tag tag_mask remove =
     ebind (clh_list_new_node (queue_state h CLH_REQUEST_TYPE_PROBE)) (\<lambda>(S, request).
     let h = set_queue h CLH_REQUEST_TYPE_PROBE S in
     ebind (upd_request h request (\<lambda>q. q\<lparr>
       req_type := CLH_REQUEST_TYPE_PROBE,
       req_completed := True,
       req_data := Probe_Data (probe_data remove tag tag_mask)\<rparr>)) (\<lambda>h.
     ebind (nth_res (h_recv_list h) (unat channel)) (\<lambda>L.
     ebind (message_search (h_messages h, L) tag tag_mask) (\<lambda>((H, L), node).
     Inr (h\<lparr>h_messages := H, h_recv_list := (h_recv_list h)[unat channel := L]\<rparr>, request, node)))))"

definition probe_rest ::
  "'u clh_handle \<Rightarrow> nat \<Rightarrow> clh_u32 \<Rightarrow> clh_probe_data \<Rightarrow> nat \<Rightarrow> 'u clh_handle res" where
  "probe_rest h request channel d n =
     ebind (hget (h_messages h) n) (\<lambda>nd.
     let msg = node_data nd in
     ebind (upd_request h request (\<lambda>q. q\<lparr>
       req_data := Probe_Data (d\<lparr>probe_result := True,
                                 probe_sender_tag := Some (msg_full_tag msg),
                                 probe_buffer_len := Some (msg_buffer_len msg),
                                 probe_msg := msg_msg msg\<rparr>),
       req_channel := msg_channel msg,
       req_source := msg_sender_id msg,
       req_tag := msg_sender_tag msg\<rparr>)) (\<lambda>h.
     if probe_remove d then
       ebind (nth_res (h_recv_list h) (unat channel)) (\<lambda>L.
       ebind (clh_list_remove_node (h_messages h, L) n) (\<lambda>(H, L).
       Inr (h\<lparr>h_messages := H, h_recv_list := (h_recv_list h)[unat channel := L]\<rparr>)))
     else Inr h))"

lemma upd_request_lists:
  "upd_request h r f = Inr h' \<Longrightarrow> h_messages h' = h_messages h \<and> h_recv_list h' = h_recv_list h \<and>
     h_world h' = h_world h \<and> req_at h' r \<noteq> None"
  by (auto simp: upd_request_def hupd_def hget_def hput_def req_at_def data_at_def res_simps
      split: option.splits)

lemma request_recv_messages: "clh_request_recv h r buffer = Inr (h', x) \<Longrightarrow> h_messages h' = h_messages h"
  by (auto simp: clh_request_recv_def Let_def set_queue_def res_simps split: prod.splits
      dest!: upd_request_lists)

text \<open>Without anybody in between, the two halves are the function.\<close>

lemma probe_halves:
  "clh_probe_channel h channel tag tag_mask remove =
     ebind (probe_begin h channel tag tag_mask remove) (\<lambda>(h, request, node).
     case node of None \<Rightarrow> Inr (h, request)
     | Some n \<Rightarrow> ebind (probe_rest h request channel (probe_data remove tag tag_mask) n) (\<lambda>h.
         Inr (h, request)))"
  (is "_ = ?rhs")
proof -
  let ?found = "\<lambda>x H L. x\<lparr>h_messages := H, h_recv_list := (h_recv_list x)[unat channel := L]\<rparr>"
  have rest: "(case node of None \<Rightarrow> Inr (?found x H L', request)
        | Some n \<Rightarrow> ebind (hget H n) (\<lambda>nd.
            ebind (upd_request (?found x H L') request (\<lambda>q. q\<lparr>
              req_data := Probe_Data (probe_data remove tag tag_mask
                \<lparr>probe_result := True, probe_sender_tag := Some (msg_full_tag (node_data nd)),
                 probe_buffer_len := Some (msg_buffer_len (node_data nd)),
                 probe_msg := msg_msg (node_data nd)\<rparr>),
              req_channel := msg_channel (node_data nd), req_source := msg_sender_id (node_data nd),
              req_tag := msg_sender_tag (node_data nd)\<rparr>)) (\<lambda>h.
            if remove then
              ebind (clh_list_remove_node (h_messages h, L') n) (\<lambda>(H, L).
              Inr (?found h H L, request))
            else Inr (h, request)))) =
      (case node of None \<Rightarrow> Inr (?found x H L', request)
        | Some n \<Rightarrow> ebind (probe_rest (?found x H L')
            request channel (probe_data remove tag tag_mask) n) (\<lambda>h. Inr (h, request)))"
    if "unat channel < length (h_recv_list x)" for x :: "'a clh_handle" and H L' node request
  proof (cases node)
    case (Some n)
    show ?thesis
      using that Some
      by (auto simp: probe_rest_def ebind_assoc Let_def probe_data_def case_prod_beta
          dest!: upd_request_lists intro!: ebind_cong)
  qed simp
  show ?thesis
    unfolding clh_probe_channel_def probe_begin_def Let_def
    by (auto simp: ebind_assoc probe_data_def [symmetric] res_simps rest split: prod.splits
        intro!: ebind_cong)
qed

section \<open>Removing twice\<close>

text \<open>A node that was removed points nowhere back, and the next is the head of the free list.\<close>

lemma hupd_at: "hupd H a f = Inr H' \<Longrightarrow> \<exists>nd. cells H' a = Some (f nd)"
  by (auto simp: hupd_def hput_def res_simps)

lemma removed_node:
  assumes "clh_list_remove_node (H, L) n = Inr (H', L')"
  shows "\<exists>nd. cells H' n = Some nd \<and> node_prev nd = None"
  using assms
  by (auto simp: clh_list_remove_node_def void_def list_lock_region_def res_simps
      split: prod.splits dest!: hupd_at)

text \<open>Removing a node of the free list violates an assertion, whatever the list holds.\<close>

lemma remove_free_node:
  assumes inv: "list_inv H L xs (n # fs)" and nd: "cells H n = Some nd" "node_prev nd = None"
  shows "clh_list_remove_node (H, L) n = Inl Assert_Failed"
proof -
  have free: "chain (cells H) (list_free_nodes L) (n # fs)" and dist: "distinct (n # fs)"
    and out: "n \<notin> set xs" and seg: "dseg (cells H) None (list_head L) xs (list_tail L) None"
    and unlocked: "\<not> list_mutex L"
    using inv by (auto simp: list_inv_def)
  have head: "list_head L \<noteq> Some n" using seg out by (cases xs) auto
  have tail: "list_tail L \<noteq> Some n"
    using seg out by (cases xs rule: rev_cases) (auto simp: dseg_snoc)
  show ?thesis
  proof (cases fs)
    case Nil
    then have "node_next nd = None" using free nd by simp
    then show ?thesis
      using nd tail unlocked by (simp add: clh_list_remove_node_def void_def list_lock_region_free)
  next
    case (Cons f gs)
    then have f: "node_next nd = Some f" "f \<noteq> n" "cells H f \<noteq> None"
      using free nd dist by (auto split: option.splits)
    then show ?thesis
      using nd head unlocked
      by (auto simp: clh_list_remove_node_def void_def list_lock_region_free hupd_def hput_def)
  qed
qed

text \<open>The node removed last is the next one to be handed out.\<close>

lemma push_data_reuses:
  assumes inv: "list_inv H L xs (n # fs)" and heap: "heap_inv H"
  shows "\<exists>H' L'. clh_list_push_data (H, L) x = Inr (H', L') \<and> data_at H' n = Some x"
proof -
  from new_node_spec [OF inv heap] obtain H1 L1 a fs' where
    new: "clh_list_new_node (H, L) = Inr ((H1, L1), a)" and list: "list_inv H1 L1 xs fs'" and
    tk: "takes_node H L (n # fs) a fs' H1" and a: "a \<notin> set xs" "a \<notin> set fs'"
    by blast
  from tk have an: "a = n" by (auto simp: takes_node_def)
  from tk obtain nd where nd: "cells H1 n = Some nd" by (auto simp: takes_node_def an)
  let ?H = "set_data H1 n x"
  have upd: "hupd H1 n (\<lambda>y. y\<lparr>node_data := x\<rparr>) = Inr ?H" using nd by (simp add: set_data_def)
  have list': "list_inv ?H L1 xs fs'"
    using list a by (subst list_inv_cong [of xs fs' ?H H1]) (auto simp: an)
  from nd obtain nd' where "cells ?H n = Some nd'" by simp
  from push_node_spec [OF list' this a [unfolded an]] obtain H' L' where
    "clh_list_push_node (?H, L1) n = Inr (H', L')" "data_at H' = data_at ?H"
    by (auto simp: relinks_def)
  moreover have "data_at ?H n = Some x" using nd by (simp add: data_at_set_data)
  ultimately show ?thesis using new upd by (simp add: clh_list_push_data_def an)
qed

section \<open>The races\<close>

text \<open>The first half changes no message and leaves the lists as they are.\<close>

lemma probe_begin_effect:
  assumes msgs: "msgs_ok (h_messages h0) (h_recv_list h0) ms mf" and c: "channel_ok channel"
    and run: "probe_begin h0 channel tag tag_mask remove = Inr (h, request, node)"
  shows "h_messages h = h_messages h0" and "h_recv_list h = h_recv_list h0"
    and "req_at h request \<noteq> None"
proof -
  from run obtain S L h1 H' L' where
    upd: "upd_request (set_queue h0 CLH_REQUEST_TYPE_PROBE S) request (\<lambda>q. q\<lparr>
       req_type := CLH_REQUEST_TYPE_PROBE, req_completed := True,
       req_data := Probe_Data (probe_data remove tag tag_mask)\<rparr>) = Inr h1" and
    L: "L = h_recv_list h1 ! unat channel" and
    search: "message_search (h_messages h1, L) tag tag_mask = Inr ((H', L'), node)" and
    h: "h = h1\<lparr>h_messages := H', h_recv_list := (h_recv_list h1)[unat channel := L']\<rparr>"
    by (auto simp: probe_begin_def Let_def res_simps split: prod.splits)
  have same: "h_messages h1 = h_messages h0" "h_recv_list h1 = h_recv_list h0"
    and live: "req_at h1 request \<noteq> None"
    using upd_request_lists [OF upd] by (simp_all add: set_queue_def)
  have "list_inv (h_messages h1) L (ms (unat channel)) (mf (unat channel))" "heap_inv (h_messages h1)"
    using msgs_ok_list [OF msgs channel_lt [OF c]] same L by simp_all
  from message_search_spec [OF this, of tag tag_mask] search have "H' = h_messages h1" "L' = L"
    by simp_all
  then show "h_messages h = h_messages h0" and "h_recv_list h = h_recv_list h0"
    and "req_at h request \<noteq> None"
    using same live L by (simp_all add: h req_at_def)
qed

text \<open>It always returns, with what the probe looks for and a request of its own.\<close>

lemma probe_begin_spec:
  assumes inv: "handle_inv h0" and chan: "channel_ok channel"
  shows "\<exists>h n x. probe_begin h0 channel tag tag_mask remove =
       Inr (h, n, probe_match h0 channel tag tag_mask) \<and> req_at h = (req_at h0)(n \<mapsto> x) \<and>
     received h = received h0 \<and> msg_at h = msg_at h0 \<and> h_world h = h_world h0 \<and>
     (n \<in> set (released h0 CLH_REQUEST_TYPE_PROBE) \<or> req_at h0 n = None)"
proof -
  from probe_taken [OF inv, of remove tag tag_mask] obtain S n fs' q h where
    new: "clh_list_new_node (queue_state h0 CLH_REQUEST_TYPE_PROBE) = Inr (S, n)" and
    upd: "upd_request (set_queue h0 CLH_REQUEST_TYPE_PROBE S) n
      (\<lambda>q. q\<lparr>req_type := CLH_REQUEST_TYPE_PROBE, req_completed := True,
        req_data := Probe_Data (probe_data remove tag tag_mask)\<rparr>) = Inr h" and
    at: "req_at h = (req_at h0)(n \<mapsto> probe_miss remove tag tag_mask q)" and
    orig: "n \<in> set (released h0 CLH_REQUEST_TYPE_PROBE) \<or> req_at h0 n = None"
    by (auto simp: Let_def)
  have same: "h_messages h = h_messages h0" "h_recv_list h = h_recv_list h0" "h_world h = h_world h0"
    using upd_request_lists [OF upd] by (simp_all add: set_queue_def)
  obtain ms mf where msgs: "msgs_ok (h_messages h0) (h_recv_list h0) ms mf"
    using inv by (auto simp: handle_inv_def handle_rep_def)
  note search = probe_search [OF msgs chan, of tag tag_mask]
  have "unat channel < length (h_recv_list h0)"
    using msgs_ok_list [OF msgs channel_lt [OF chan]] by simp
  then have "probe_begin h0 channel tag tag_mask remove =
      Inr (h\<lparr>h_messages := h_messages h0, h_recv_list := h_recv_list h0\<rparr>, n,
           probe_match h0 channel tag tag_mask)"
    using new upd same search by (simp add: probe_begin_def Let_def)
  moreover have "h\<lparr>h_messages := h_messages h0, h_recv_list := h_recv_list h0\<rparr> = h"
    using same by simp
  ultimately show ?thesis
    using at orig same by (auto simp: received_def msg_at_def fun_eq_iff)
qed

text \<open>What the worker leaves when it takes the message in between.\<close>

lemma match_between:
  assumes msgs: "msgs_ok (h_messages h) (h_recv_list h) ms mf" and live: "req_at h request \<noteq> None"
    and q: "req_at h cur = Some q" "req_data q = Recv_Data d" "channel_ok (req_channel q)"
    and some: "recv_match h q = Some n"
  defines "c \<equiv> unat (req_channel q)"
  shows "\<exists>h1 nd. match_received h cur = Inr h1 \<and> h_world h1 = h_world h \<and>
     req_at h1 request \<noteq> None \<and> c < length (h_recv_list h1) \<and>
     msgs_ok (h_messages h1) (h_recv_list h1) (ms(c := remove1 n (ms c))) (mf(c := n # mf c)) \<and>
     cells (h_messages h1) n = Some nd \<and> node_prev nd = None"
proof -
  from match_received_some [OF q msgs some] obtain H' L' where
    n: "n \<in> set (ms c)" and
    run: "match_received h cur =
       Inr (h\<lparr>h_requests := set_data (h_requests h) cur (with_message q (msg_at h n)),
              h_messages := H', h_recv_list := (h_recv_list h)[c := L']\<rparr>)" and
    msgs': "msgs_ok H' ((h_recv_list h)[c := L']) (ms(c := remove1 n (ms c))) (mf(c := n # mf c))" and
    rm: "clh_list_remove_node (h_messages h, h_recv_list h ! c) n = Inr (H', L')"
    unfolding c_def by blast
  have c: "c < CLH_MAX_CHANNELS" using channel_lt [OF q(3)] by (simp add: c_def)
  note list = msgs_ok_list [OF msgs c]
  from removed_node [OF rm] obtain nd where "cells H' n = Some nd" "node_prev nd = None" by auto
  moreover have "c < length ((h_recv_list h)[c := L'])" using list by simp
  moreover have "req_at (h\<lparr>h_requests := set_data (h_requests h) cur (with_message q (msg_at h n)),
              h_messages := H', h_recv_list := (h_recv_list h)[c := L']\<rparr>) request \<noteq> None"
    using live by (auto simp: req_at_def data_at_set_data)
  ultimately show ?thesis using run msgs' by auto
qed

text \<open>The message is removed twice: the second time an assertion is violated.\<close>

lemma removed_twice:
  assumes inv: "handle_inv h0" and chan: "channel_ok channel"
    and start: "probe_begin h0 channel tag tag_mask True = Inr (h, request, Some n)"
    and q: "req_at h cur = Some q" "req_data q = Recv_Data d" "req_channel q = channel"
    and some: "recv_match h q = Some n"
  shows "\<exists>h1. match_received h cur = Inr h1 \<and>
           probe_rest h1 request channel (probe_data True tag tag_mask) n = Inl Assert_Failed"
proof -
  let ?c = "unat channel"
  obtain ms mf where msgs0: "msgs_ok (h_messages h0) (h_recv_list h0) ms mf"
    using inv by (auto simp: handle_inv_def handle_rep_def)
  note e = probe_begin_effect [OF msgs0 chan start]
  have msgs: "msgs_ok (h_messages h) (h_recv_list h) ms mf" using msgs0 e by simp
  from match_between [OF msgs e(3) q(1,2) _ some] q(3) chan obtain h1 nd where
    run: "match_received h cur = Inr h1" and live: "req_at h1 request \<noteq> None" and
    len: "?c < length (h_recv_list h1)" and
    msgs1: "msgs_ok (h_messages h1) (h_recv_list h1) (ms(?c := remove1 n (ms ?c))) (mf(?c := n # mf ?c))"
    and nd: "cells (h_messages h1) n = Some nd" "node_prev nd = None"
    by auto
  have "list_inv (h_messages h1) (h_recv_list h1 ! ?c) (remove1 n (ms ?c)) (n # mf ?c)"
    using msgs_ok_list [OF msgs1 channel_lt [OF chan]] by simp
  from remove_free_node [OF this nd]
  have rm: "clh_list_remove_node (h_messages h1, h_recv_list h1 ! ?c) n = Inl Assert_Failed" .
  from live obtain p where "data_at (h_requests h1) request = Some p" by (auto simp: req_at_def)
  from upd_request_Some [OF this] run rm len nd(1)
  show ?thesis by (auto simp: probe_rest_def probe_data_def Let_def)
qed

text \<open>
  The node is used again: the next message the worker fetches for the channel comes to lie in it,
  and the probe reports that message, whether it matches the pattern or not.
\<close>

lemma reused_between:
  assumes inv: "handle_inv h0" and chan: "channel_ok channel"
    and start: "probe_begin h0 channel tag tag_mask False = Inr (h, request, Some n)"
    and q: "req_at h cur = Some q" "req_data q = Recv_Data d" "req_channel q = channel"
    and some: "recv_match h q = Some n"
    and next_msg: "ucp_tag_probe_nb U (h_world h) 0 0 True = (g, infos, u')" "g \<noteq> 0"
      "msg_channel (message_of g infos) = channel"
  shows "\<exists>h1 h2 h3. match_received h cur = Inr h1 \<and> probe_incomming_messages U h1 = Inr h2 \<and>
           probe_rest h2 request channel (probe_data False tag tag_mask) n = Inr h3 \<and>
           clh_probe_result h3 request = Inr True \<and>
           clh_request_source h3 request = Inr (msg_sender_id (message_of g infos)) \<and>
           clh_request_tag h3 request = Inr (msg_sender_tag (message_of g infos))"
proof -
  let ?c = "unat channel" and ?m = "message_of g infos"
  obtain ms mf where msgs0: "msgs_ok (h_messages h0) (h_recv_list h0) ms mf"
    using inv by (auto simp: handle_inv_def handle_rep_def)
  note e = probe_begin_effect [OF msgs0 chan start]
  have msgs: "msgs_ok (h_messages h) (h_recv_list h) ms mf" using msgs0 e by simp
  let ?ms = "ms(?c := remove1 n (ms ?c))" and ?mf = "mf(?c := n # mf ?c)"
  from match_between [OF msgs e(3) q(1,2) _ some] q(3) chan obtain h1 where
    run: "match_received h cur = Inr h1" and w: "h_world h1 = h_world h" and
    live: "req_at h1 request \<noteq> None" and
    msgs1: "msgs_ok (h_messages h1) (h_recv_list h1) ?ms ?mf"
    by auto
  have c: "?c < CLH_MAX_CHANNELS" by (rule channel_lt [OF chan])
  have list: "list_inv (h_messages h1) (h_recv_list h1 ! ?c) (?ms ?c) (n # mf ?c)"
      "heap_inv (h_messages h1)" "?c < length (h_recv_list h1)"
    using msgs_ok_list [OF msgs1 c] by simp_all
  from push_data_reuses [OF list(1,2), of ?m] obtain H' L' where
    push: "clh_list_push_data (h_messages h1, h_recv_list h1 ! ?c) ?m = Inr (H', L')" and
    at: "data_at H' n = Some ?m" by blast
  let ?h2 = "h1\<lparr>h_world := u', h_messages := H', h_recv_list := (h_recv_list h1)[?c := L']\<rparr>"
  obtain ch s t where dec: "clh_decode_tag (info_sender_tag infos) = (ch, s, t)" by (rule prod_cases3)
  have m: "?m = \<lparr>msg_channel = ch, msg_sender_id = s, msg_sender_tag = t,
      msg_full_tag = info_sender_tag infos, msg_buffer_len = info_length infos, msg_msg = g\<rparr>"
    by (simp add: message_of_def dec)
  with next_msg(3) have "ch = channel" by simp
  then have fetch: "probe_incomming_messages U h1 = Inr ?h2"
    using next_msg(1,2) dec m push list(3) w
    by (simp add: probe_incomming_messages_def CONF_PROBE_THRESH_def Let_def)
  from at obtain nd where nd: "cells H' n = Some nd" "node_data nd = ?m" by (auto simp: data_at_def)
  from live obtain p where p: "data_at (h_requests h1) request = Some p" by (auto simp: req_at_def)
  let ?h3 = "?h2\<lparr>h_requests := set_data (h_requests h1) request (p\<lparr>
       req_data := Probe_Data ((probe_data False tag tag_mask)\<lparr>probe_result := True,
                                 probe_sender_tag := Some (msg_full_tag ?m),
                                 probe_buffer_len := Some (msg_buffer_len ?m),
                                 probe_msg := msg_msg ?m\<rparr>),
       req_channel := msg_channel ?m, req_source := msg_sender_id ?m,
       req_tag := msg_sender_tag ?m\<rparr>)\<rparr>"
  have "data_at (h_requests ?h2) request = Some p" using p by simp
  from upd_request_Some [OF this] nd
  have rest: "probe_rest ?h2 request channel (probe_data False tag tag_mask) n = Inr ?h3"
    by (simp add: probe_rest_def probe_data_def Let_def)
  have get: "get_request ?h3 request = Inr (p\<lparr>
       req_data := Probe_Data ((probe_data False tag tag_mask)\<lparr>probe_result := True,
                                 probe_sender_tag := Some (msg_full_tag ?m),
                                 probe_buffer_len := Some (msg_buffer_len ?m),
                                 probe_msg := msg_msg ?m\<rparr>),
       req_channel := msg_channel ?m, req_source := msg_sender_id ?m,
       req_tag := msg_sender_tag ?m\<rparr>)"
    by (rule get_request_data) (use data_at_set_live [OF p] in simp)
  have "clh_probe_result ?h3 request = Inr True"
    and "clh_request_source ?h3 request = Inr (msg_sender_id ?m)"
    and "clh_request_tag ?h3 request = Inr (msg_sender_tag ?m)"
    unfolding clh_probe_result_def clh_request_source_def clh_request_tag_def get by simp_all
  then show ?thesis using run fetch rest by blast
qed

text \<open>
  The same from the handle in which the probe starts: a receive that is queued and the probe are
  after the same message.
\<close>

lemma probe_and_receive:
  assumes inv: "handle_inv h0" and chan: "channel_ok channel"
    and r: "r \<in> set (queued h0 CLH_REQUEST_TYPE_RECV)" "req_at h0 r = Some q"
    and match: "recv_match h0 q = Some n" "probe_match h0 channel tag tag_mask = Some n"
  shows "\<exists>h request. probe_begin h0 channel tag tag_mask remove = Inr (h, request, Some n) \<and>
     req_at h r = Some q \<and> recv_match h q = Some n \<and> h_world h = h_world h0"
proof -
  from probe_begin_spec [OF inv chan, of tag tag_mask remove] match obtain h request x where
    run: "probe_begin h0 channel tag tag_mask remove = Inr (h, request, Some n)" and
    at: "req_at h = (req_at h0)(request \<mapsto> x)" and
    same: "received h = received h0" "msg_at h = msg_at h0" "h_world h = h_world h0" and
    new: "request \<in> set (released h0 CLH_REQUEST_TYPE_PROBE) \<or> req_at h0 request = None"
    by auto
  have "r \<in> tracked h0" using r(1) by (simp add: tracked_def)
  then have "request \<noteq> r" using handed_out_fresh [OF inv new] by blast
  moreover have "recv_match h q = recv_match h0 q"
    using same by (simp add: recv_match_def cong: clh_request_data.case_cong)
  ultimately show ?thesis using run at r(2) match(1) same(3) by auto
qed

lemma probe_race_twice:
  assumes inv: "handle_inv h0" and chan: "channel_ok channel"
    and r: "r \<in> set (queued h0 CLH_REQUEST_TYPE_RECV)" "req_at h0 r = Some q"
    and q: "req_data q = Recv_Data d" "req_channel q = channel"
    and match: "recv_match h0 q = Some n" "probe_match h0 channel tag tag_mask = Some n"
  shows "\<exists>h request h1. probe_begin h0 channel tag tag_mask True = Inr (h, request, Some n) \<and>
     match_received h r = Inr h1 \<and>
     probe_rest h1 request channel (probe_data True tag tag_mask) n = Inl Assert_Failed"
proof -
  from probe_and_receive [OF inv chan r match, of True] obtain h request where
    run: "probe_begin h0 channel tag tag_mask True = Inr (h, request, Some n)" and
    at: "req_at h r = Some q" "recv_match h q = Some n" by blast
  from removed_twice [OF inv chan run at(1) q at(2)] run show ?thesis by blast
qed

lemma probe_race_other:
  assumes inv: "handle_inv h0" and chan: "channel_ok channel"
    and r: "r \<in> set (queued h0 CLH_REQUEST_TYPE_RECV)" "req_at h0 r = Some q"
    and q: "req_data q = Recv_Data d" "req_channel q = channel"
    and match: "recv_match h0 q = Some n" "probe_match h0 channel tag tag_mask = Some n"
    and next_msg: "ucp_tag_probe_nb U (h_world h0) 0 0 True = (g, infos, u')" "g \<noteq> 0"
      "msg_channel (message_of g infos) = channel"
  shows "\<exists>h request h1 h2 h3. probe_begin h0 channel tag tag_mask False = Inr (h, request, Some n) \<and>
     match_received h r = Inr h1 \<and> probe_incomming_messages U h1 = Inr h2 \<and>
     probe_rest h2 request channel (probe_data False tag tag_mask) n = Inr h3 \<and>
     clh_probe_result h3 request = Inr True \<and>
     clh_request_source h3 request = Inr (msg_sender_id (message_of g infos)) \<and>
     clh_request_tag h3 request = Inr (msg_sender_tag (message_of g infos))"
proof -
  from probe_and_receive [OF inv chan r match, of False] obtain h request where
    run: "probe_begin h0 channel tag tag_mask False = Inr (h, request, Some n)" and
    at: "req_at h r = Some q" "recv_match h q = Some n" and w: "h_world h = h_world h0" by blast
  from reused_between [OF inv chan run at(1) q at(2) next_msg(1) [folded w] next_msg(2,3)] run
  show ?thesis by blast
qed

end
