(* ===== verification/Clh_Variants.thy ===== *)
theory Clh_Variants
  imports Clh_Run_Props
begin

text \<open>
  The code behind the configuration switches the sources leave off: the send queue without
  \<open>CONF_SEND_THRESH\<close>, the progress loop without \<open>CONF_PROGRESS_COUNT\<close>, and the sleeping worker
  of \<open>CONF_WORKER_WAIT\<close>. The cache without its node allocator is in Clh\_Cache\_Malloc.
\<close>

section \<open>The send queue without a threshold\<close>

text \<open>The whole queue is detached and posted from its head on, the sends are not counted.\<close>

definition send_all_one ::
  "'u ucp \<Rightarrow> 'u clh_handle \<Rightarrow> nat \<Rightarrow> ('u clh_handle \<times> clh_status) res" where
  "send_all_one U h cur =
     ebind (get_request h cur) (\<lambda>q.
     ebind (send_arm (req_data q)) (\<lambda>d.
     ebind (clh_buffer_cache_register_or_get U (h_buffer_cache h) (h_world h) (send_buffer d))
       (\<lambda>(C, u, bce).
     let h = h\<lparr>h_buffer_cache := C, h_world := u\<rparr> in
     if entry_mem bce \<noteq> buf_mem (send_buffer d) then
       Inr (h, CLH_STATUS_MEMORY_REGISTRATION_ERROR)
     else
       ebind (ucx_send U h cur (entry_memh bce)) (\<lambda>(h, status_ptr).
       ebind (validate_status_ptr h \<lparr>op_status_ptr = status_ptr, op_request = cur\<rparr>) (\<lambda>(h, ok).
       if \<not> ok then Inr (h, CLH_STATUS_REQUEST_FAILURE)
       else Inr (h, CLH_STATUS_SUCCESS))))))"

fun send_all_loop ::
  "nat \<Rightarrow> 'u ucp \<Rightarrow> 'u clh_handle \<Rightarrow> node_ptr \<Rightarrow> ('u clh_handle \<times> clh_status) res" where
  "send_all_loop fuel U h None = Inr (h, CLH_STATUS_SUCCESS)"
| "send_all_loop 0 U h (Some cur) = Inl Diverges"
| "send_all_loop (Suc k) U h (Some cur) =
     ebind (send_all_one U h cur) (\<lambda>(h, status).
     if status \<noteq> CLH_STATUS_SUCCESS then Inr (h, status)
     else ebind (hget (h_requests h) cur) (\<lambda>nd. send_all_loop k U h (node_next nd)))"

definition process_send_queue_all ::
  "'u ucp \<Rightarrow> 'u clh_handle \<Rightarrow> ('u clh_handle \<times> clh_status) res" where
  "process_send_queue_all U h =
     (if list_head (h_request_queues h CLH_REQUEST_TYPE_SEND) = None
      then Inr (h, CLH_STATUS_SUCCESS)
      else
        ebind (clh_list_get_all_nodes (queue_state h CLH_REQUEST_TYPE_SEND)) (\<lambda>(S, (beg, fin)).
        send_all_loop (brk (h_requests h)) U (set_queue h CLH_REQUEST_TYPE_SEND S) beg))"

text \<open>What the loop appends to the operations in flight; everything else about requests stays.\<close>

definition sent_all :: "'u clh_handle \<Rightarrow> nat list \<Rightarrow> 'u clh_handle \<Rightarrow> bool" where
  "sent_all h ns h' \<longleftrightarrow>
     (\<exists>ops. inflight h' = inflight h @ ops \<and> map op_request ops = ns \<and>
        (\<forall>op \<in> set ops. UCS_PTR_IS_PTR (op_status_ptr op))) \<and>
     array_inv (h_ops_queue h') \<and> cache_inv (h_buffer_cache h') \<and>
     h_requests h' = h_requests h \<and> h_request_queues h' = h_request_queues h \<and>
     h_endpoints h' = h_endpoints h \<and> h_send_count h' = h_send_count h"

lemma send_all_one_outcome:
  assumes ops: "array_inv (h_ops_queue h)" and cache: "cache_inv (h_buffer_cache h)"
    and ready: "opt_all (send_ready (h_endpoints h)) (req_at h r)"
    and U: "posts_requests U" "\<not> b \<longrightarrow> ucp_reliable U"
  shows "outcome b (send_all_one U h r) (\<lambda>(h', st).
           if st = CLH_STATUS_SUCCESS then sent_all h [r] h' else b)"
proof -
  from ready obtain q d ep where q: "req_at h r = Some q" "req_data q = Send_Data d"
    and ep: "unat (send_dest d) < length (h_endpoints h)"
      "h_endpoints h ! unat (send_dest d) = Some ep"
    by (auto simp: opt_all_iff send_ready_iff)
  have data: "data_at (h_requests h) r = Some q" using q(1) by (simp add: req_at_def)
  have post: "outcome b
      (ebind (ucx_send U (h\<lparr>h_buffer_cache := C', h_world := u'\<rparr>) r (entry_memh e)) (\<lambda>(h, status_ptr).
       ebind (validate_status_ptr h \<lparr>op_status_ptr = status_ptr, op_request = r\<rparr>) (\<lambda>(h, ok).
       if \<not> ok then Inr (h, CLH_STATUS_REQUEST_FAILURE) else Inr (h, CLH_STATUS_SUCCESS))))
      (\<lambda>(h', st). if st = CLH_STATUS_SUCCESS then sent_all h [r] h' else b)"
    if C': "cache_inv C'" for C' u' and e :: clh_buffer_cache_entry
  proof -
    obtain sp u'' where send: "ucp_tag_send_nbx U u' ep (buf_mem (send_buffer d))
        (buf_len (send_buffer d)) (send_tag d) (entry_memh e) = (sp, u'')"
      by (rule prod.exhaust)
    show ?thesis
    proof (cases sp)
      case Status_Complete
      then show ?thesis using send U(1) by (metis posts_requests_def fst_conv)
    next
      case (Status_Error x)
      have "ucp_reliable U \<Longrightarrow> \<not> UCS_PTR_IS_ERR sp"
        using send by (metis ucp_reliable_def fst_conv)
      then have b using Status_Error U(2) by auto
      then show ?thesis
        using Status_Error send data q ep by (simp add: ucx_send_def validate_status_ptr_def)
    next
      case (Status_Request ur)
      from array_append_spec [OF ops, of "\<lparr>op_status_ptr = sp, op_request = r\<rparr>"] obtain arr' where
        "array_append (h_ops_queue h) \<lparr>op_status_ptr = sp, op_request = r\<rparr> = Inr arr'"
        "array_inv arr'" "array_list arr' = array_list (h_ops_queue h) @ [\<lparr>op_status_ptr = sp, op_request = r\<rparr>]"
        by blast
      then show ?thesis
        using Status_Request send data q ep C'
        by (simp add: ucx_send_def validate_status_ptr_def sent_all_def inflight_def)
    qed
  qed
  have get: "get_request h r = Inr q" "send_arm (req_data q) = Inr d" using q by simp_all
  show ?thesis
    unfolding send_all_one_def get ebind.simps
    by (rule outcome_bind [OF register_outcome [OF cache U(2)]])
      (use post in \<open>auto simp: Let_def split: prod.splits split del: if_split\<close>)
qed

lemma sent_all_trans:
  assumes "sent_all h [r] h1" and "sent_all h1 ns h2"
  shows "sent_all h (r # ns) h2"
proof -
  from assms obtain ops1 ops2 where
    "inflight h1 = inflight h @ ops1" "map op_request ops1 = [r]"
    "\<forall>op \<in> set ops1. UCS_PTR_IS_PTR (op_status_ptr op)"
    "inflight h2 = inflight h1 @ ops2" "map op_request ops2 = ns"
    "\<forall>op \<in> set ops2. UCS_PTR_IS_PTR (op_status_ptr op)"
    by (auto simp: sent_all_def)
  then have "inflight h2 = inflight h @ (ops1 @ ops2)" "map op_request (ops1 @ ops2) = r # ns"
    "\<forall>op \<in> set (ops1 @ ops2). UCS_PTR_IS_PTR (op_status_ptr op)"
    by auto
  with assms show ?thesis unfolding sent_all_def by (metis (no_types, lifting))
qed

lemma send_all_loop_outcome:
  assumes "array_inv (h_ops_queue h)" and "cache_inv (h_buffer_cache h)"
    and "\<forall>n \<in> set ns. opt_all (send_ready (h_endpoints h)) (req_at h n)"
    and "chain (cells (h_requests h)) c ns" and "length ns \<le> fuel"
    and U: "posts_requests U" "\<not> b \<longrightarrow> ucp_reliable U"
  shows "outcome b (send_all_loop fuel U h c) (\<lambda>(h', st).
           if st = CLH_STATUS_SUCCESS then sent_all h ns h' else b)"
  using assms
proof (induction ns arbitrary: h c fuel)
  case Nil
  then show ?case by (auto simp: sent_all_def)
next
  case (Cons r ns)
  from Cons.prems(4,5) obtain k nd where fuel: "fuel = Suc k" "length ns \<le> k" and c: "c = Some r"
    and nd: "cells (h_requests h) r = Some nd" "chain (cells (h_requests h)) (node_next nd) ns"
    by (cases fuel) (auto split: option.splits)
  have ready: "opt_all (send_ready (h_endpoints h)) (req_at h r)" using Cons.prems(3) by simp
  have rest: "outcome b (if st \<noteq> CLH_STATUS_SUCCESS then Inr (h1, st)
        else ebind (hget (h_requests h1) r) (\<lambda>nd. send_all_loop k U h1 (node_next nd)))
      (\<lambda>(h', st). if st = CLH_STATUS_SUCCESS then sent_all h (r # ns) h' else b)"
    if s: "if st = CLH_STATUS_SUCCESS then sent_all h [r] h1 else b" for h1 st
  proof (cases "st = CLH_STATUS_SUCCESS")
    case True
    with s have s1: "sent_all h [r] h1" by simp
    then have same: "array_inv (h_ops_queue h1)" "cache_inv (h_buffer_cache h1)"
      "h_requests h1 = h_requests h" "h_endpoints h1 = h_endpoints h"
      by (auto simp: sent_all_def)
    have "\<forall>n \<in> set ns. opt_all (send_ready (h_endpoints h1)) (req_at h1 n)"
      using Cons.prems(3) same by (simp add: req_at_def)
    from Cons.IH [OF same(1,2) this _ fuel(2) U] nd(2) same(3)
    have "outcome b (send_all_loop k U h1 (node_next nd)) (\<lambda>(h', st).
        if st = CLH_STATUS_SUCCESS then sent_all h1 ns h' else b)" by simp
    then show ?thesis
      using True nd(1) same(3) sent_all_trans [OF s1]
      by (auto elim!: outcome_mono split: if_splits)
  next
    case False
    with s show ?thesis by simp
  qed
  show ?case
    unfolding fuel c send_all_loop.simps
    by (rule outcome_bind [OF send_all_one_outcome [OF Cons.prems(1,2) ready U]])
      (use rest in \<open>auto split del: if_split\<close>)
qed

lemma process_send_queue_all_outcome:
  assumes pool: "pool_inv UNIV (h_requests h) (h_request_queues h) qs fs"
    and queue: "queue_ok (h_endpoints h) (h_requests h) qs"
    and ops: "array_inv (h_ops_queue h)" and cache: "cache_inv (h_buffer_cache h)"
    and U: "posts_requests U" "\<not> b \<longrightarrow> ucp_reliable U"
  shows "outcome b (process_send_queue_all U h) (\<lambda>(h', st).
     if st = CLH_STATUS_SUCCESS then
       (\<exists>ops. inflight h' = inflight h @ ops \<and> map op_request ops = qs CLH_REQUEST_TYPE_SEND) \<and>
       pool_inv UNIV (h_requests h') (h_request_queues h') (qs(CLH_REQUEST_TYPE_SEND := [])) fs \<and>
       h_send_count h' = h_send_count h
     else b)"
proof -
  let ?ty = CLH_REQUEST_TYPE_SEND
  let ?ns = "qs ?ty"
  note list = pool_inv_list [OF pool UNIV_I [of ?ty]]
  show ?thesis
  proof (cases "?ns = []")
    case True
    then have "list_head (h_request_queues h ?ty) = None" using list_inv_head [OF list] by simp
    then show ?thesis
      using True pool fun_upd_triv [of qs ?ty] by (simp add: process_send_queue_all_def)
  next
    case False
    then have head: "list_head (h_request_queues h ?ty) \<noteq> None" using list_inv_head [OF list] by simp
    from pool_get_all [OF pool UNIV_I [of ?ty]] obtain L' where
      run: "clh_list_get_all_nodes (h_requests h, h_request_queues h ?ty) =
         Inr ((h_requests h, L'), (list_head (h_request_queues h ?ty),
                                   list_tail (h_request_queues h ?ty)))" and
      pool': "pool_inv UNIV (h_requests h) ((h_request_queues h)(?ty := L')) (qs(?ty := [])) fs" and
      chain: "chain (cells (h_requests h)) (list_head (h_request_queues h ?ty)) ?ns"
      by blast
    let ?h = "set_queue h ?ty (h_requests h, L')"
    have "length ?ns \<le> brk (h_requests h)"
      using list_inv_length [OF list pool_inv_heap [OF pool]] by simp
    then have "outcome b
        (send_all_loop (brk (h_requests h)) U ?h (list_head (h_request_queues h ?ty)))
        (\<lambda>(h', st). if st = CLH_STATUS_SUCCESS then sent_all ?h ?ns h' else b)"
      using queue ops cache chain U
      by (intro send_all_loop_outcome) (auto simp: set_queue_def req_at_def queue_ok_def)
    then show ?thesis
      using head run pool'
      by (auto simp: process_send_queue_all_def queue_state_def sent_all_def set_queue_def
          inflight_def elim!: outcome_mono split: if_splits)
  qed
qed

section \<open>Progress without a bound\<close>

text \<open>
  The loop goes on until UCP reports that it made no progress, so it may not end: its result is
  then \<open>None\<close>.
\<close>

partial_function (option) worker_progress_all ::
  "'u ucp \<Rightarrow> 'u clh_handle \<Rightarrow> clh_u64 \<Rightarrow> ('u clh_handle \<times> clh_u64) option" where
  "worker_progress_all U h n =
     (case ucp_worker_progress U (h_world h) of (progress, u) \<Rightarrow>
        let h = h\<lparr>h_world := u\<rparr> in
        if progress = 0 then Some (h, n) else worker_progress_all U h (n + progress))"

text \<open>It ends when every progress reported leaves less to do.\<close>

definition progress_decreases :: "'u ucp \<Rightarrow> ('u \<Rightarrow> nat) \<Rightarrow> bool" where
  "progress_decreases U work \<longleftrightarrow>
     (\<forall>u. fst (ucp_worker_progress U u) \<noteq> 0 \<longrightarrow> work (snd (ucp_worker_progress U u)) < work u)"

text \<open>Any bound above the work there is gives the same.\<close>

lemma worker_progress_all_ends:
  assumes "progress_decreases U work"
  shows "work (h_world h) < k \<Longrightarrow>
     worker_progress_all U h n = Some (worker_progress_loop k U h n)"
proof (induction k arbitrary: h n)
  case (Suc k)
  obtain p u where p: "ucp_worker_progress U (h_world h) = (p, u)" by (rule prod.exhaust)
  have "work u < k" if "p \<noteq> 0"
    using assms Suc.prems that p unfolding progress_decreases_def
    by (metis fst_conv snd_conv less_Suc_eq_le order_less_le_trans)
  then show ?case
    using Suc.IH [of "h\<lparr>h_world := u\<rparr>" "n + p"] p
    by (subst worker_progress_all.simps) (simp add: Let_def)
qed simp

section \<open>A worker that sleeps\<close>

text \<open>
  \<open>WORKER_WAIT\<close> and \<open>WORKER_SIGNAL\<close> under \<open>CONF_WORKER_WAIT\<close>; \<open>ucp_worker_wait\<close> and
  \<open>ucp_worker_signal\<close> are functions of the library, parameters here.
\<close>

definition WORKER_WAIT :: "('u \<Rightarrow> 'u) \<Rightarrow> 'u clh_handle \<Rightarrow> 'u clh_handle" where
  "WORKER_WAIT ucp_worker_wait h =
     (if queues_empty h then h\<lparr>h_world := ucp_worker_wait (h_world h)\<rparr> else h)"

definition WORKER_SIGNAL :: "('u \<Rightarrow> 'u) \<Rightarrow> 'u clh_handle \<Rightarrow> 'u clh_handle" where
  "WORKER_SIGNAL ucp_worker_signal h = h\<lparr>h_world := ucp_worker_signal (h_world h)\<rparr>"

end
