(* ===== verification/Clh_Cache_Malloc.thy ===== *)
theory Clh_Cache_Malloc
  imports Clh_Cache_Props "HOL-Library.Multiset"
begin

text \<open>
  The cache without \<open>CONF_USE_BUFFER_CACHE_NODE_ALLOCATOR\<close>: a node is allocated when a buffer is
  registered, freed when it is unregistered, and what is left is freed with the cache. The nodes
  allocated and not yet freed are a list next to the cache; \<open>malloc\<close> is a parameter, of which all
  that is assumed is that it gives out no node that is still in use, so addresses may come again.
\<close>

section \<open>The functions\<close>

type_synonym malloc_cache = "clh_buffer_cache \<times> cnode_addr list"

definition malloc_ok :: "(cnode_addr list \<Rightarrow> cnode_addr) \<Rightarrow> bool" where
  "malloc_ok malloc \<longleftrightarrow> (\<forall>live. malloc live \<notin> set live)"

text \<open>The arena is set up in this configuration too; nothing uses or frees its first block.\<close>

definition malloc_cache_create :: "clh_u64 \<Rightarrow> malloc_cache" where
  "malloc_cache_create capacity = (clh_buffer_cache_create capacity, [])"

definition clh_buffer_cache_register_malloc ::
  "(cnode_addr list \<Rightarrow> cnode_addr) \<Rightarrow> 'u ucp \<Rightarrow> malloc_cache \<Rightarrow> 'u \<Rightarrow> clh_buffer \<Rightarrow>
     (malloc_cache \<times> 'u \<times> clh_buffer_cache_entry) res" where
  "clh_buffer_cache_register_malloc malloc U S u buffer =
     (case S of (C, live) \<Rightarrow>
      if buf_mem buffer = 0 then Inr ((C, live), u, null_entry)
      else
       ebind (cache_lock_region C (\<lambda>C.
         ebind (buffer_cache_search_loop (length live) C Slot_Root (buf_mem buffer)) (\<lambda>node.
         ebind (slot_read C node) (\<lambda>p.
         case p of
           None \<Rightarrow>
             (case ucp_mem_map U u (buf_mem buffer) (buf_len buffer) of
                (status, memh, u) \<Rightarrow>
                  if check_ucx status then
                    (let a = malloc live;
                         value = \<lparr>entry_memh = memh, entry_mem = buf_mem buffer\<rparr>
                     in ebind (slot_write C node (Some a)) (\<lambda>C.
                        let C = cnode_put C a
                                  \<lparr>node_value = value, node_left = None, node_right = None\<rparr>
                        in ebind (c_assert (entry_mem value = buf_mem buffer)) (\<lambda>_.
                           Inr (C, a # live, u, value))))
                  else Inr (C, live, u, null_entry))
         | Some a \<Rightarrow>
             ebind (cnode_get C a) (\<lambda>nd.
             ebind (c_assert (entry_mem (node_value nd) = buf_mem buffer)) (\<lambda>_.
             Inr (C, live, u, node_value nd)))))))
       (\<lambda>(C, live, u, result).
       ebind (c_assert (entry_mem result = buf_mem buffer)) (\<lambda>_.
       Inr ((C, live), u, result))))"

text \<open>The node is freed before its children take its place; its two links were read before.\<close>

definition cnode_free :: "cnode_addr \<Rightarrow> clh_buffer_cache \<Rightarrow> clh_buffer_cache" where
  "cnode_free a C = C\<lparr>cache_nodes := (cache_nodes C)(a := None)\<rparr>"

definition remove_node_malloc :: "malloc_cache \<Rightarrow> slot \<Rightarrow> malloc_cache res" where
  "remove_node_malloc S node =
     (case S of (C, live) \<Rightarrow>
      ebind (slot_read C node) (\<lambda>p.
      ebind (deref p) (\<lambda>a.
      ebind (cnode_get C a) (\<lambda>nd.
      let left = node_left nd; right = node_right nd;
          C = cnode_free a C; live = remove1 a live in
      ebind (slot_write C node right) (\<lambda>C.
      ebind (leftmost_loop (length live) C node) (\<lambda>node.
      ebind (slot_write C node left) (\<lambda>C. Inr (C, live))))))))"

definition clh_buffer_cache_unregister_malloc ::
  "'u ucp \<Rightarrow> malloc_cache \<Rightarrow> 'u \<Rightarrow> clh_buffer \<Rightarrow> (malloc_cache \<times> 'u \<times> bool) res" where
  "clh_buffer_cache_unregister_malloc U S u buffer =
     (case S of (C, live) \<Rightarrow>
      ebind (cache_lock_region C (\<lambda>C.
       ebind (buffer_cache_search_loop (length live) C Slot_Root (buf_mem buffer)) (\<lambda>node.
       ebind (slot_read C node) (\<lambda>p.
       case p of
         None \<Rightarrow> Inr (C, live, u, False)
       | Some a \<Rightarrow>
           ebind (cnode_get C a) (\<lambda>nd.
           case ucp_mem_unmap U u (entry_memh (node_value nd)) of
             (status, u) \<Rightarrow>
               if \<not> check_ucx status then Inr (C, live, u, False)
               else ebind (remove_node_malloc (C, live) node) (\<lambda>(C, live).
                    Inr (C, live, u, True)))))))
      (\<lambda>(C, live, u, result). Inr ((C, live), u, result)))"

text \<open>
  At the end the right subtree is freed, then the left one, then the node, whose memory goes after
  its handle is unmapped; the first unmapping that fails ends it.
\<close>

fun free_tree ::
  "nat \<Rightarrow> 'u ucp \<Rightarrow> cnodes \<Rightarrow> cnode_addr option \<Rightarrow> 'u \<Rightarrow> (cnodes \<times> 'u \<times> bool) res" where
  "free_tree fuel U N None u = Inr (N, u, True)"
| "free_tree 0 U N (Some a) u = Inl Diverges"
| "free_tree (Suc k) U N (Some a) u =
     ebind (initialised (N a)) (\<lambda>nd.
     ebind (free_tree k U N (node_right nd) u) (\<lambda>(N, u, ok).
     if \<not> ok then Inr (N, u, False)
     else
       ebind (initialised (N a)) (\<lambda>nd.
       ebind (free_tree k U N (node_left nd) u) (\<lambda>(N, u, ok).
       if \<not> ok then Inr (N, u, False)
       else
         ebind (initialised (N a)) (\<lambda>nd.
         case ucp_mem_unmap U u (entry_memh (node_value nd)) of (status, u) \<Rightarrow>
           Inr (N(a := None), u, check_ucx status))))))"

text \<open>The result of \<open>free_tree_\<close> is not looked at.\<close>

definition clh_buffer_cache_destroy_tree ::
  "'u ucp \<Rightarrow> malloc_cache \<Rightarrow> 'u \<Rightarrow> (cnodes \<times> 'u \<times> bool) res" where
  "clh_buffer_cache_destroy_tree U S u =
     (case S of (C, live) \<Rightarrow>
      ebind (clh_mutex_destroy (cache_mutex C)) (\<lambda>_.
      ebind (free_tree (length live) U (cache_nodes C) (cache_data C) u) (\<lambda>(N, u, ok).
      Inr (N, u, True))))"

section \<open>The invariant and the map\<close>

text \<open>The nodes in use are those of the tree: none is lost, none is freed too early.\<close>

definition malloc_rep :: "malloc_cache \<Rightarrow> cnode_addr tree \<Rightarrow> bool" where
  "malloc_rep S t \<longleftrightarrow> (case S of (C, live) \<Rightarrow>
     tree_rep (cache_nodes C) (cache_data C) t \<and> distinct live \<and> set live = set_tree t \<and>
     dom (cache_nodes C) = set live \<and> \<not> cache_mutex C)"

definition malloc_inv :: "malloc_cache \<Rightarrow> bool" where
  "malloc_inv S \<longleftrightarrow> (\<exists>t. malloc_rep S t)"

definition malloc_tree :: "malloc_cache \<Rightarrow> cnode_addr tree" where
  "malloc_tree S = (case S of (C, live) \<Rightarrow> read_tree (length live) (cache_nodes C) (cache_data C))"

definition malloc_map :: "malloc_cache \<Rightarrow> (mem_addr \<rightharpoonup> ucp_mem_h)" where
  "malloc_map S = tree_map (cache_nodes (fst S)) (malloc_tree S)"

lemma malloc_rep_size: "malloc_rep (C, live) t \<Longrightarrow> size t = length live"
  by (metis (mono_tags, lifting) case_prod_conv distinct_card length_inorder malloc_rep_def set_inorder
      tree_rep_distinct)

lemma malloc_rep_tree: "malloc_rep (C, live) t \<Longrightarrow> malloc_tree (C, live) = t"
  using malloc_rep_size [of C live t]
  by (simp add: malloc_tree_def malloc_rep_def tree_rep_def read_tree_at)

lemma malloc_invE:
  assumes "malloc_inv (C, live)"
  obtains t where "malloc_rep (C, live) t" and "tree_rep (cache_nodes C) (cache_data C) t"
    and "malloc_map (C, live) = tree_map (cache_nodes C) t" and "\<not> cache_mutex C"
    and "size t = length live"
proof -
  from assms obtain t where t: "malloc_rep (C, live) t" by (auto simp: malloc_inv_def)
  then show ?thesis
    using that malloc_rep_tree [OF t] malloc_rep_size [OF t] by (simp add: malloc_rep_def malloc_map_def)
qed

lemma malloc_invI:
  assumes "malloc_rep (C, live) t"
  shows "malloc_inv (C, live) \<and> malloc_map (C, live) = tree_map (cache_nodes C) t"
  using assms malloc_rep_tree [OF assms] by (auto simp: malloc_inv_def malloc_map_def)

text \<open>As many nodes are in use as buffers are registered.\<close>

lemma malloc_inv_live:
  assumes "malloc_inv (C, live)"
  shows "length live = card (dom (malloc_map (C, live)))"
  using assms by (rule malloc_invE) (simp add: tree_rep_keys(2))

lemma malloc_create:
  "malloc_inv (malloc_cache_create capacity)" "malloc_map (malloc_cache_create capacity) = Map.empty"
proof -
  let ?C = "clh_buffer_cache_create capacity"
  have "malloc_rep (?C, []) Leaf"
    by (simp add: malloc_rep_def tree_rep_def clh_buffer_cache_create_def clh_mutex_create_def)
  from malloc_invI [OF this] show "malloc_inv (malloc_cache_create capacity)"
      "malloc_map (malloc_cache_create capacity) = Map.empty"
    by (simp_all add: malloc_cache_create_def tree_map_def entries_of_def)
qed

text \<open>The walks in a cache of this kind.\<close>

lemma malloc_search:
  assumes "malloc_rep (C, live) t"
  shows "buffer_cache_search_loop (length live) (C\<lparr>cache_mutex := b\<rparr>) Slot_Root m =
           Inr (slot_at t Slot_Root (search_path (ckey (cache_nodes C)) m t))"
    and "valid_path t ds \<Longrightarrow> slot_read C (slot_at t Slot_Root ds) = Inr (root_ptr (subtree_at t ds))"
  using assms malloc_rep_size [OF assms] slot_read_at [of C "cache_data C" t Slot_Root ds]
    search_loop_path [of "C\<lparr>cache_mutex := b\<rparr>" "cache_data C" t Slot_Root "length live"]
  by (simp_all add: malloc_rep_def tree_rep_def)

section \<open>Registration\<close>

lemma malloc_register_hit:
  assumes inv: "malloc_inv (C, live)" and hit: "malloc_map (C, live) (buf_mem b) = Some h"
    and "buf_mem b \<noteq> 0"
  shows "clh_buffer_cache_register_malloc malloc U (C, live) u b =
           Inr ((C, live), u, \<lparr>entry_memh = h, entry_mem = buf_mem b\<rparr>)"
proof -
  from inv obtain t where t: "malloc_rep (C, live) t" "tree_rep (cache_nodes C) (cache_data C) t"
    "malloc_map (C, live) = tree_map (cache_nodes C) t" "\<not> cache_mutex C" by (rule malloc_invE)
  from search_hit [OF t(2) hit [unfolded t(3)]] obtain l a r nd where
    "subtree_at t (search_path (ckey (cache_nodes C)) (buf_mem b) t) = Node l a r"
    "cache_nodes C a = Some nd" "node_value nd = \<lparr>entry_memh = h, entry_mem = buf_mem b\<rparr>" .
  then show ?thesis
    using assms(3) t(4)
    by (simp add: clh_buffer_cache_register_malloc_def cache_lock_region_def
        malloc_search [OF t(1)] cnode_get_def)
qed

lemma malloc_register_fail:
  assumes inv: "malloc_inv (C, live)" and miss: "malloc_map (C, live) (buf_mem b) = None"
    and "buf_mem b \<noteq> 0"
    and map: "ucp_mem_map U u (buf_mem b) (buf_len b) = (status, memh, u')" "\<not> check_ucx status"
  shows "clh_buffer_cache_register_malloc malloc U (C, live) u b = Inl Assert_Failed"
proof -
  from inv obtain t where t: "malloc_rep (C, live) t" "tree_rep (cache_nodes C) (cache_data C) t"
    "malloc_map (C, live) = tree_map (cache_nodes C) t" "\<not> cache_mutex C" by (rule malloc_invE)
  from search_miss [OF t(2) miss [unfolded t(3)]] show ?thesis
    using assms(3) t(4) map
    by (simp add: clh_buffer_cache_register_malloc_def cache_lock_region_def
        malloc_search [OF t(1)] null_entry_def)
qed

lemma malloc_register_miss:
  assumes malloc: "malloc_ok malloc"
    and inv: "malloc_inv (C, live)" and miss: "malloc_map (C, live) (buf_mem b) = None"
    and nz: "buf_mem b \<noteq> 0"
    and map: "ucp_mem_map U u (buf_mem b) (buf_len b) = (UCS_OK, memh, u')"
  shows "\<exists>S'. clh_buffer_cache_register_malloc malloc U (C, live) u b =
             Inr (S', u', \<lparr>entry_memh = memh, entry_mem = buf_mem b\<rparr>) \<and>
           malloc_inv S' \<and> malloc_map S' = (malloc_map (C, live))(buf_mem b \<mapsto> memh)"
proof -
  from inv obtain t where t: "malloc_rep (C, live) t" "tree_rep (cache_nodes C) (cache_data C) t"
    "malloc_map (C, live) = tree_map (cache_nodes C) t" "\<not> cache_mutex C" by (rule malloc_invE)
  define ds where "ds = search_path (ckey (cache_nodes C)) (buf_mem b) t"
  define a where "a = malloc live"
  have sub: "subtree_at t ds = Leaf" using search_miss [OF t(2) miss [unfolded t(3)]] by (simp add: ds_def)
  have a_new: "a \<notin> set live" "a \<notin> set_tree t"
    using malloc t(1) by (auto simp: malloc_ok_def malloc_rep_def a_def)
  let ?v = "\<lparr>entry_memh = memh, entry_mem = buf_mem b\<rparr>"
  let ?n = "\<lparr>node_value = ?v, node_left = None, node_right = None\<rparr>"
  let ?C1 = "C\<lparr>cache_mutex := True\<rparr>" and ?t = "graft_at t ds (Node Leaf a Leaf)"
  have t1: "tree_at (cache_nodes ?C1) (cache_data ?C1) t" "distinct (inorder t)" "valid_path t ds"
    using t(2) tree_rep_distinct [OF t(2)] by (simp_all add: ds_def tree_rep_def)
  obtain C2 where C2: "slot_write ?C1 (slot_at t Slot_Root ds) (Some a) = Inr C2"
    and same: "same_cache ?C1 C2"
    and tree: "\<forall>N' u. tree_at N' (Some a) u \<and> (\<forall>x \<in> set_tree t. N' x = cache_nodes C2 x) \<longrightarrow>
        tree_at N' (cache_data C2) (graft_at t ds u)"
    using slot_write_at [OF t1, of "Some a"] sub by auto
  define C3 where "C3 = (cnode_put C2 a ?n)\<lparr>cache_mutex := False\<rparr>"
  have run: "clh_buffer_cache_register_malloc malloc U (C, live) u b = Inr ((C3, a # live), u', ?v)"
    using nz t(4) map malloc_search(2) [OF t(1) t1(3)] sub C2 same
    by (simp add: clh_buffer_cache_register_malloc_def cache_lock_region_def a_def [symmetric]
        malloc_search(1) [OF t(1)] ds_def [symmetric] check_ucx_def Let_def C3_def
        same_cache_def cnode_put_def)
  have N3: "cache_nodes C3 = (cache_nodes C2)(a \<mapsto> ?n)" "cache_data C3 = cache_data C2"
      "\<not> cache_mutex C3"
    using same by (auto simp: C3_def cnode_put_def same_cache_def)
  have vals: "map_option node_value (cache_nodes C3 x) =
      (if x = a then Some ?v else map_option node_value (cache_nodes C x))" for x
    using same by (cases x) (simp add: N3 same_cache_def)
  have at: "tree_at (cache_nodes C3) (cache_data C3) ?t"
    using a_new(2) by (auto simp: N3 intro!: tree [rule_format])
  have ins: "tree_rep (cache_nodes C3) (cache_data C3) ?t \<and>
     tree_map (cache_nodes C3) ?t = (tree_map (cache_nodes C) t)(buf_mem b \<mapsto> memh) \<and>
     set_tree ?t = insert a (set_tree t)"
    by (rule tree_rep_insert [OF t(2) ds_def sub nz a_new(2) _ _ at]) (use a_new vals in auto)
  have "x \<in> dom (cache_nodes C3) \<longleftrightarrow> x = a \<or> x \<in> dom (cache_nodes C)" for x
    using vals [of x] by (metis domIff map_option_is_None option.distinct(1))
  then have "dom (cache_nodes C3) = insert a (dom (cache_nodes C))" by blast
  then have "malloc_rep (C3, a # live) ?t"
    using ins N3(3) t(1) a_new by (simp add: malloc_rep_def)
  from malloc_invI [OF this] ins run t(3) show ?thesis by auto
qed

section \<open>Removal\<close>

text \<open>The node a slot lies in.\<close>

fun slot_node :: "slot \<Rightarrow> cnode_addr option" where
  "slot_node Slot_Root = None"
| "slot_node (Slot_Left a) = Some a"
| "slot_node (Slot_Right a) = Some a"

lemma slot_node_at:
  "valid_path t ds \<Longrightarrow>
     slot_node (slot_at t s ds) = slot_node s \<or>
     slot_node (slot_at t s ds) \<in> Some ` (set (left_of t ds) \<union> set (right_of t ds))"
proof (induction t ds arbitrary: s rule: valid_path.induct)
  case (2 l a r ds)
  then show ?case using 2 (1) [of "Slot_Left a"] by auto
next
  case (3 l a r ds)
  then show ?case using 3 (1) [of "Slot_Right a"] by auto
qed auto

text \<open>Freeing a node does not disturb the slots of others.\<close>

lemma slot_free:
  assumes "slot_node s \<noteq> Some a"
  shows "slot_read (cnode_free a C) s = slot_read C s"
    and "slot_write C s p = Inr C' \<Longrightarrow> slot_write (cnode_free a C) s p = Inr (cnode_free a C')"
  using assms
  by (cases s; auto simp: cnode_free_def cnode_get_def cnode_put_def fun_upd_twist split: option.splits)+

lemma tree_rep_cong:
  assumes "\<And>x. x \<in> set_tree t \<Longrightarrow> N' x = N x"
  shows "tree_rep N' p t = tree_rep N p t" and "tree_map N' t = tree_map N t"
proof -
  have keys: "ckey N' x = ckey N x" "cmemh N' x = cmemh N x" if "x \<in> set_tree t" for x
    using assms [OF that] by (simp_all add: ckey_def cmemh_def)
  have maps: "map (ckey N') (inorder t) = map (ckey N) (inorder t)" using keys by simp
  have "tree_at N' p t = tree_at N p t" using assms by (rule tree_at_cong)
  then show "tree_rep N' p t = tree_rep N p t" using keys by (simp add: tree_rep_def maps)
  show "tree_map N' t = tree_map N t"
    using keys unfolding tree_map_def by (intro arg_cong [where f = map_of] entries_cong) simp
qed

lemma remove_node_malloc_tree:
  assumes rep: "tree_rep (cache_nodes C) (cache_data C) t"
    and ds_def: "ds = search_path (ckey (cache_nodes C)) m t"
    and sub: "subtree_at t ds = Node l a r" and live: "length live = size t" "a \<in> set live"
  shows "\<exists>C' t'. remove_node_malloc (C, live) (slot_at t Slot_Root ds) = Inr (C', remove1 a live) \<and>
     tree_rep (cache_nodes C') (cache_data C') t' \<and> set_tree t' = set_tree t - {a} \<and>
     tree_map (cache_nodes C') t' = (tree_map (cache_nodes C) t)(m := None) \<and>
     cache_mutex C' = cache_mutex C \<and>
     dom (cache_nodes C') = dom (cache_nodes C) - {a}"
proof -
  let ?s = "slot_at t Slot_Root ds" and ?t = "graft_at t ds (graft_at r (left_path r) l)"
  have valid: "valid_path t ds" by (simp add: ds_def)
  have at: "tree_at (cache_nodes C) (cache_data C) t" using rep by (simp add: tree_rep_def)
  note dist = tree_rep_distinct [OF rep]
  from relink_tree [OF at dist valid sub, of "size t"] obtain nd C1 C2 where
    nd: "slot_read C ?s = Inr (Some a)" "cache_nodes C a = Some nd" and
    C1: "slot_write C ?s (node_right nd) = Inr C1" "slot_read C1 ?s = Inr (node_right nd)"
      "tree_at (cache_nodes C1) (node_right nd) r" and
    C2: "slot_write C1 (slot_at r ?s (left_path r)) (node_left nd) = Inr C2" "same_cache C C2"
      "tree_at (cache_nodes C2) (cache_data C2) ?t"
    by auto
  have io: "inorder t = left_of t ds @ (inorder l @ a # inorder r) @ right_of t ds"
    using inorder_subtree_at [OF valid] sub by simp
  have a_r: "a \<notin> set_tree r" and outside: "a \<notin> set (left_of t ds) \<union> set (right_of t ds)"
    using dist unfolding io by auto
  have at_s: "slot_node ?s \<noteq> Some a" using slot_node_at [OF valid, of Slot_Root] outside by auto
  then have at_s': "slot_node (slot_at r ?s (left_path r)) \<noteq> Some a"
    using slot_node_at [of r "left_path r" ?s] a_r by auto
  have "tree_at (cache_nodes (cnode_free a C1)) (node_right nd) r"
    using C1(3) a_r by (subst tree_at_cong [of r _ "cache_nodes C1"]) (auto simp: cnode_free_def)
  moreover have "slot_read (cnode_free a C1) ?s = Inr (node_right nd)"
    using slot_free(1) [OF at_s] C1(2) by simp
  moreover have "size r \<le> length (remove1 a live)"
    using size_subtree_at [OF valid] sub live by (simp add: length_remove1)
  ultimately have "leftmost_loop (length (remove1 a live)) (cnode_free a C1) ?s =
      Inr (slot_at r ?s (left_path r))"
    by (rule leftmost_loop_path)
  then have run: "remove_node_malloc (C, live) ?s = Inr (cnode_free a C2, remove1 a live)"
    using nd slot_free(2) [OF at_s C1(1)] slot_free(2) [OF at_s' C2(1)]
    by (simp add: remove_node_malloc_def cnode_get_def Let_def)
  have vals: "map_option node_value (cache_nodes C2 x) = map_option node_value (cache_nodes C x)" for x
    using C2(2) by (cases x) (simp add: same_cache_def)
  have rem: "tree_rep (cache_nodes C2) (cache_data C2) ?t \<and>
      tree_map (cache_nodes C2) ?t = (tree_map (cache_nodes C) t)(m := None) \<and>
      set_tree ?t = set_tree t - {a}"
    by (rule tree_rep_remove [OF rep ds_def sub vals C2(3)])
  then have "cache_nodes (cnode_free a C2) x = cache_nodes C2 x" if "x \<in> set_tree ?t" for x
    using that by (auto simp: cnode_free_def)
  then have cong: "tree_rep (cache_nodes (cnode_free a C2)) p ?t = tree_rep (cache_nodes C2) p ?t"
    "tree_map (cache_nodes (cnode_free a C2)) ?t = tree_map (cache_nodes C2) ?t" for p
    using tree_rep_cong [of ?t "cache_nodes (cnode_free a C2)" "cache_nodes C2"] by blast+
  have "x \<in> dom (cache_nodes C2) \<longleftrightarrow> x \<in> dom (cache_nodes C)" for x
    using same_cache_live [OF C2(2), of x] by (simp add: domIff)
  then have "dom (cache_nodes C2) = dom (cache_nodes C)" by blast
  then have "dom (cache_nodes (cnode_free a C2)) = dom (cache_nodes C) - {a}"
    by (simp add: cnode_free_def)
  moreover have "cache_mutex (cnode_free a C2) = cache_mutex C" "cache_data (cnode_free a C2) = cache_data C2"
    using C2(2) by (simp_all add: cnode_free_def same_cache_def)
  ultimately show ?thesis using run rem cong by (intro exI [of _ "cnode_free a C2"] exI [of _ ?t]) simp
qed

lemma malloc_unregister_absent:
  assumes inv: "malloc_inv (C, live)" and miss: "malloc_map (C, live) (buf_mem b) = None"
  shows "clh_buffer_cache_unregister_malloc U (C, live) u b = Inr ((C, live), u, False)"
proof -
  from inv obtain t where t: "malloc_rep (C, live) t" "tree_rep (cache_nodes C) (cache_data C) t"
    "malloc_map (C, live) = tree_map (cache_nodes C) t" "\<not> cache_mutex C" by (rule malloc_invE)
  from search_miss [OF t(2) miss [unfolded t(3)]] show ?thesis
    using t(4) by (simp add: clh_buffer_cache_unregister_malloc_def cache_lock_region_def malloc_search [OF t(1)])
qed

lemma malloc_unregister_present:
  assumes inv: "malloc_inv (C, live)" and hit: "malloc_map (C, live) (buf_mem b) = Some h"
    and unmap: "ucp_mem_unmap U u h = (status, u')"
  shows "\<exists>S'. clh_buffer_cache_unregister_malloc U (C, live) u b = Inr (S', u', check_ucx status) \<and>
           malloc_inv S' \<and>
           malloc_map S' = (if check_ucx status then (malloc_map (C, live))(buf_mem b := None)
                           else malloc_map (C, live))"
proof -
  from inv obtain t where t: "malloc_rep (C, live) t" "tree_rep (cache_nodes C) (cache_data C) t"
    "malloc_map (C, live) = tree_map (cache_nodes C) t" "\<not> cache_mutex C" "size t = length live"
    by (rule malloc_invE)
  define ds where "ds = search_path (ckey (cache_nodes C)) (buf_mem b) t"
  have valid: "valid_path t ds" by (simp add: ds_def)
  from search_hit [OF t(2) hit [unfolded t(3)]] obtain l a r nd where
    sub: "subtree_at t ds = Node l a r" and a: "a \<in> set_tree t" and nd: "cache_nodes C a = Some nd"
      "node_value nd = \<lparr>entry_memh = h, entry_mem = buf_mem b\<rparr>"
    unfolding ds_def .
  let ?C = "C\<lparr>cache_mutex := True\<rparr>"
  have "tree_rep (cache_nodes ?C) (cache_data ?C) t" "a \<in> set live"
    "ds = search_path (ckey (cache_nodes ?C)) (buf_mem b) t"
    using t(1,2) a by (simp_all add: malloc_rep_def ds_def)
  from remove_node_malloc_tree [OF this(1,3) sub t(5) [symmetric] this(2)] obtain C1 t' where
    C1: "remove_node_malloc (?C, live) (slot_at t Slot_Root ds) = Inr (C1, remove1 a live)"
      "tree_rep (cache_nodes C1) (cache_data C1) t'" "set_tree t' = set_tree t - {a}"
      "tree_map (cache_nodes C1) t' = (tree_map (cache_nodes C) t)(buf_mem b := None)"
      "cache_mutex C1" "dom (cache_nodes C1) = dom (cache_nodes C) - {a}"
    by auto
  let ?C1 = "C1\<lparr>cache_mutex := False\<rparr>"
  have "malloc_rep (?C1, remove1 a live) t'"
    using C1 t(1) by (auto simp: malloc_rep_def)
  from malloc_invI [OF this] have "malloc_inv (?C1, remove1 a live)"
    "malloc_map (?C1, remove1 a live) = (malloc_map (C, live))(buf_mem b := None)"
    using C1(4) t(3) by simp_all
  moreover have "clh_buffer_cache_unregister_malloc U (C, live) u b =
      (if check_ucx status then Inr ((?C1, remove1 a live), u', True) else Inr ((C, live), u', False))"
    using t(4) C1(1,5) nd unmap malloc_search(2) [OF t(1) valid] sub
    by (simp add: clh_buffer_cache_unregister_malloc_def cache_lock_region_def cnode_get_def
        malloc_search(1) [OF t(1)] ds_def [symmetric])
  ultimately show ?thesis using inv by auto
qed

section \<open>The same registry\<close>

definition malloc_get ::
  "(cnode_addr list \<Rightarrow> cnode_addr) \<Rightarrow> 'u ucp \<Rightarrow> malloc_cache \<Rightarrow> 'u \<Rightarrow> mem_addr \<Rightarrow> clh_u64 \<Rightarrow>
     (malloc_cache \<times> 'u \<times> ucp_mem_h) res" where
  "malloc_get malloc U S u p len =
     ebind (clh_buffer_cache_register_malloc malloc U S u \<lparr>buf_mem = p, buf_len = len\<rparr>)
       (\<lambda>(S, u, e). Inr (S, u, entry_memh e))"

definition malloc_drop ::
  "'u ucp \<Rightarrow> malloc_cache \<Rightarrow> 'u \<Rightarrow> mem_addr \<Rightarrow> clh_u64 \<Rightarrow> (malloc_cache \<times> 'u \<times> bool) res" where
  "malloc_drop U S u p len = clh_buffer_cache_unregister_malloc U S u \<lparr>buf_mem = p, buf_len = len\<rparr>"

text \<open>An allocator that does what is assumed of it.\<close>

definition next_address :: "cnode_addr list \<Rightarrow> cnode_addr" where
  "next_address live = (Suc (sum_list (map fst live)), 0)"

lemma next_address_ok: "malloc_ok next_address"
proof -
  have "fst a \<le> sum_list (map fst live)" if "a \<in> set live" for a :: cnode_addr and live
    using that member_le_sum_list [of "fst a" "map fst live"] by simp
  then show ?thesis by (force simp: malloc_ok_def next_address_def)
qed

text \<open>The laws hold for any allocator that is in order.\<close>

lemma malloc_registry:
  assumes "malloc_ok malloc"
  shows "exact_registry malloc_inv malloc_map (\<lambda>p. p \<noteq> 0) (malloc_get malloc U) (malloc_drop U)
    (map_memory U) (unmap_memory U) 0"
proof
  fix S :: malloc_cache and u :: 'a and p :: mem_addr and len :: clh_u64 and m :: ucp_mem_h
  let ?b = "\<lparr>buf_mem = p, buf_len = len\<rparr>"
  assume inv': "malloc_inv S"
  obtain C live where S: "S = (C, live)" by (rule prod.exhaust)
  note inv = inv' [unfolded S]
  show "malloc_get malloc U S u p len = Inr (S, u, 0)" if "\<not> p \<noteq> 0"
    using that by (simp add: malloc_get_def clh_buffer_cache_register_malloc_def null_entry_def S)
  show "malloc_get malloc U S u p len = Inr (S, u, m)" if "p \<noteq> 0" "malloc_map S p = Some m"
    using malloc_register_hit [OF inv, of ?b m malloc U u] that by (simp add: malloc_get_def S)
  show "case map_memory U u p len of Inl e \<Rightarrow> malloc_get malloc U S u p len = Inl e
      | Inr (u', m) \<Rightarrow> \<exists>S'. malloc_get malloc U S u p len = Inr (S', u', m) \<and> malloc_inv S' \<and>
          malloc_map S' = (malloc_map S)(p \<mapsto> m)" if "p \<noteq> 0" "malloc_map S p = None"
  proof -
    obtain st m1 u1 where map: "ucp_mem_map U u p len = (st, m1, u1)" by (rule prod_cases3)
    show ?thesis
      using malloc_register_miss [OF assms inv, of ?b U u m1 u1]
        malloc_register_fail [OF inv, of ?b U u st m1 u1 malloc] map that
      by (auto simp: malloc_get_def map_memory_def check_ucx_def S)
  qed
  show "malloc_drop U S u p len = Inr (S, u, False)" if "malloc_map S p = None"
    using malloc_unregister_absent [OF inv, of ?b U u] that by (simp add: malloc_drop_def S)
  show "\<exists>S'. malloc_drop U S u p len = Inr (S', unmap_memory U u m) \<and> malloc_inv S' \<and>
      malloc_map S' = (if snd (unmap_memory U u m) then (malloc_map S)(p := None) else malloc_map S)"
    if "malloc_map S p = Some m"
  proof -
    obtain st u1 where unmap: "ucp_mem_unmap U u m = (st, u1)" by (rule prod.exhaust)
    from malloc_unregister_present [OF inv, of ?b m U u st u1] that unmap show ?thesis
      by (auto simp: malloc_drop_def unmap_memory_def S)
  qed
qed

text \<open>So what the user sees of a series of calls does not depend on the configuration.\<close>

lemma caches_same_answers:
  assumes "malloc_ok malloc" and "cache_inv C" and "malloc_inv S" and "cache_map C = malloc_map S"
  shows "ebind (run_registry (cache_get U) (cache_drop U) C u ops) (\<lambda>(C, u, rs). Inr (cache_map C, u, rs)) =
    ebind (run_registry (malloc_get malloc U) (malloc_drop U) S u ops) (\<lambda>(S, u, rs). Inr (malloc_map S, u, rs))"
  using bc.run_on_map [OF assms(2), of U u ops]
    exact_registry.run_on_map [OF malloc_registry [OF assms(1), of U] assms(3), of u ops] assms(4)
  by (auto split: sum.splits)

section \<open>Destruction\<close>

text \<open>The order in which the nodes go.\<close>

fun free_order :: "'a tree \<Rightarrow> 'a list" where
  "free_order Leaf = []"
| "free_order (Node l a r) = free_order r @ free_order l @ [a]"

lemma mset_free_order: "mset (free_order t) = mset (inorder t)"
  by (induction t) (simp_all add: union_ac)

lemma set_free_order [simp]: "set (free_order t) = set_tree t"
  using mset_eq_setD [OF mset_free_order [of t]] by simp

text \<open>The world after unmapping, and whether all of it went well, stopping at a failure.\<close>

fun unmap_until :: "'u ucp \<Rightarrow> ucp_mem_h list \<Rightarrow> 'u \<Rightarrow> nat \<times> 'u \<times> bool" where
  "unmap_until U [] u = (0, u, True)"
| "unmap_until U (m # ms) u =
     (case ucp_mem_unmap U u m of (status, u) \<Rightarrow>
        if check_ucx status then (case unmap_until U ms u of (k, u, ok) \<Rightarrow> (Suc k, u, ok))
        else (1, u, False))"

lemma unmap_until_append:
  "unmap_until U (ms @ ms') u =
     (case unmap_until U ms u of (k, u, ok) \<Rightarrow>
        if ok then (case unmap_until U ms' u of (k', u, ok) \<Rightarrow> (k + k', u, ok)) else (k, u, False))"
  by (induction ms arbitrary: u) (auto split: prod.splits)

lemma unmap_until_length:
  "unmap_until U ms u = (k, u', ok) \<Longrightarrow> k \<le> length ms \<and> (ok \<longrightarrow> k = length ms)"
  by (induction ms arbitrary: u k) (fastforce split: prod.splits if_splits)+

lemma unmap_until_all:
  assumes "\<And>m u. m \<in> set ms \<Longrightarrow> check_ucx (fst (ucp_mem_unmap U u m))"
  shows "unmap_until U ms u = (length ms, fold (\<lambda>m u. snd (ucp_mem_unmap U u m)) ms u, True)"
  using assms
proof (induction ms arbitrary: u)
  case Nil
  then show ?case by simp
next
  case (Cons a ms)
  have "check_ucx (fst (ucp_mem_unmap U u a))" using Cons.prems [of a u] by simp
  then show ?case using Cons.IH [OF Cons.prems] by (simp add: case_prod_beta)
qed

lemma restrict_restrict_Compl: "(N |` (- A)) |` (- B) = N |` (- (A \<union> B))"
  by (auto simp: restrict_map_def fun_eq_iff)

text \<open>
  The nodes go in that order until an unmapping fails; the node it fails for is the last one freed.
\<close>

lemma free_tree_spec:
  assumes "tree_at N p t" and "distinct (inorder t)" and "size t \<le> fuel"
    and "unmap_until U (map (cmemh N) (free_order t)) u = (k, u', ok)"
  shows "free_tree fuel U N p u = Inr (N |` (- set (take k (free_order t))), u', ok)"
  using assms
proof (induction t arbitrary: N p fuel u k u' ok)
  case Leaf
  then show ?case by simp
next
  case (Node l a r)
  let ?R = "free_order r" and ?L = "free_order l"
  from Node.prems(1,3) obtain f nd where fuel: "fuel = Suc f" "size r \<le> f" "size l \<le> f"
    and p: "p = Some a" and nd: "N a = Some nd" and l: "tree_at N (node_left nd) l"
    and r: "tree_at N (node_right nd) r"
    by (cases fuel) (auto split: option.splits)
  have dist: "distinct (inorder l)" "distinct (inorder r)" "set_tree l \<inter> set_tree r = {}"
    "a \<notin> set_tree l" "a \<notin> set_tree r"
    using Node.prems(2) by auto
  obtain k1 u1 ok1 where run1: "unmap_until U (map (cmemh N) ?R) u = (k1, u1, ok1)"
    by (rule prod_cases3)
  note right = Node.IH(2) [OF r dist(2) fuel(2) run1]
  note len1 = unmap_until_length [OF run1]
  have split: "unmap_until U (map (cmemh N) (free_order (Node l a r))) u = (k, u', ok)"
    using Node.prems(4) .
  show ?case
  proof (cases ok1)
    case False
    then have "k = k1" "u' = u1" "ok = False" using split run1 by (auto simp: unmap_until_append)
    then show ?thesis using False right nd len1 by (simp add: fuel(1) p)
  next
    case True
    let ?N1 = "N |` (- set_tree r)"
    have k1: "k1 = length ?R" using len1 True by simp
    then have right': "free_tree f U N (node_right nd) u = Inr (?N1, u1, True)" using right True by simp
    have l1: "tree_at ?N1 (node_left nd) l"
      using l dist(3) by (subst tree_at_cong [of l ?N1 N]) (auto simp: restrict_map_def)
    have memh: "map (cmemh ?N1) ?L = map (cmemh N) ?L"
      using dist(3) by (auto simp: cmemh_def restrict_map_def)
    obtain k2 u2 ok2 where run2: "unmap_until U (map (cmemh N) ?L) u1 = (k2, u2, ok2)"
      by (rule prod_cases3)
    note left = Node.IH(1) [OF l1 dist(1) fuel(3) run2 [folded memh]]
    note len2 = unmap_until_length [OF run2]
    have nd1: "?N1 a = Some nd" using nd dist(5) by (simp add: restrict_map_def)
    show ?thesis
    proof (cases ok2)
      case False
      then have "k = k1 + k2" "u' = u2" "ok = False"
        using split run1 run2 True by (auto simp: unmap_until_append)
      then show ?thesis
        using False right' left nd nd1 len2 k1
        by (simp add: fuel(1) p restrict_restrict_Compl)
    next
      case ok2: True
      let ?N2 = "N |` (- (set_tree r \<union> set_tree l))"
      have k2: "k2 = length ?L" using len2 ok2 by simp
      have left': "free_tree f U ?N1 (node_left nd) u1 = Inr (?N2, u2, True)"
        using left ok2 k2 by (simp add: restrict_restrict_Compl)
      have nd2: "?N2 a = Some nd" using nd dist(4,5) by (simp add: restrict_map_def)
      obtain st u3 where st: "ucp_mem_unmap U u2 (entry_memh (node_value nd)) = (st, u3)"
        by (rule prod.exhaust)
      have "cmemh N a = entry_memh (node_value nd)" using nd by (simp add: cmemh_def)
      then have "k = Suc (k1 + k2)" "u' = u3" "ok = check_ucx st"
        using split run1 run2 True ok2 st by (auto simp: unmap_until_append split: if_splits)
      moreover have "?N2(a := None) = N |` (- set (?R @ ?L @ [a]))"
        by (auto simp: restrict_map_def fun_eq_iff)
      ultimately show ?thesis
        using right' left' nd nd1 nd2 st k1 k2 by (simp add: fuel(1) p)
    qed
  qed
qed

text \<open>
  When no unmapping fails, the handle of every registered buffer is unmapped exactly once and
  no node is left.
\<close>

lemma map_of_inj: "distinct (map f xs) \<Longrightarrow> x \<in> set xs \<Longrightarrow> map_of (map (\<lambda>x. (f x, g x)) xs) (f x) = Some (g x)"
  by (induction xs) (auto simp: rev_image_eqI)

lemma destroy_tree_spec:
  assumes inv: "malloc_inv (C, live)" and ok: "\<And>u m. fst (ucp_mem_unmap U u m) = UCS_OK"
  shows "\<exists>ks. distinct ks \<and> set ks = dom (malloc_map (C, live)) \<and>
     clh_buffer_cache_destroy_tree U (C, live) u =
       Inr (Map.empty, fold (\<lambda>m u. snd (ucp_mem_unmap U u m)) (map (the \<circ> malloc_map (C, live)) ks) u, True)"
proof -
  from inv obtain t where t: "malloc_rep (C, live) t" "tree_rep (cache_nodes C) (cache_data C) t"
    "malloc_map (C, live) = tree_map (cache_nodes C) t" "\<not> cache_mutex C" "size t = length live"
    by (rule malloc_invE)
  let ?N = "cache_nodes C"
  have at: "tree_at ?N (cache_data C) t" and keys: "distinct (map (ckey ?N) (inorder t))"
    using t(2) strict_sorted_iff by (auto simp: tree_rep_def)
  have unmap: "unmap_until U (map (cmemh ?N) (free_order t)) u =
      (length (free_order t), fold (\<lambda>m u. snd (ucp_mem_unmap U u m)) (map (cmemh ?N) (free_order t)) u, True)"
    using unmap_until_all [of "map (cmemh ?N) (free_order t)" U u] ok by (simp add: check_ucx_def)
  have map: "tree_map ?N t (ckey ?N a) = Some (cmemh ?N a)" if "a \<in> set_tree t" for a
    using map_of_inj [OF keys, of a "cmemh ?N"] that by (simp add: tree_map_def entries_of_def)
  let ?ks = "map (ckey ?N) (free_order t)"
  have "mset ?ks = mset (map (ckey ?N) (inorder t))" by (simp add: mset_free_order)
  from mset_eq_imp_distinct_iff [OF this] keys have "distinct ?ks" by blast
  moreover have "set ?ks = dom (malloc_map (C, live))" by (simp add: t(3) tree_map_dom)
  moreover have hs: "map (the \<circ> malloc_map (C, live)) ?ks = map (cmemh ?N) (free_order t)"
    using map by (simp add: t(3))
  have gone: "?N |` (- set_tree t) = Map.empty"
    using t(1) by (auto simp: malloc_rep_def restrict_map_def fun_eq_iff)
  have "clh_buffer_cache_destroy_tree U (C, live) u = Inr (Map.empty,
      fold (\<lambda>m u. snd (ucp_mem_unmap U u m)) (map (the \<circ> malloc_map (C, live)) ?ks) u, True)"
    unfolding hs
    using free_tree_spec [OF at tree_rep_distinct [OF t(2)] _ unmap, of "length live"] t(4,5) gone
    by (simp add: clh_buffer_cache_destroy_tree_def del: fold_map)
  ultimately show ?thesis by blast
qed

end
