(* ===== verification/Clh_Threads.thy ===== *)
theory Clh_Threads
  imports Clh_Conc_Iter Clh_Join Clh_Race Clh_Variants Clh_Cache_Malloc Clh_Demo
begin

text \<open>
  The properties of the interleaved threads (Clh\_Conc), of the races of a probe (Clh\_Race), and
  of the configurations the sources do not select (Clh\_Variants), each with an instance.
\<close>

section \<open>Instances\<close>

text \<open>A user that has taken the node for a send.\<close>

lemma demo_taken:
  "\<exists>s n. conc_reach demo_ucp (conc_start demo_handle) s \<and>
     cs_users s 0 = Filling (Call_Send 3 1 7 demo_buffer) n \<and> cs_worker s = Loop_Test"
proof -
  let ?c = "Call_Send 3 1 7 demo_buffer"
  let ?s = "(conc_start demo_handle)\<lparr>cs_users := (\<lambda>_. Outside)(0 := Taking ?c)\<rparr>"
  have step: "conc_step demo_ucp (User_Thread 0) (conc_start demo_handle) ?s"
    using conc_step.enter [of "conc_start demo_handle" 0 ?c] by (simp add: conc_start_def channel_ok_def)
  obtain h1 n q where "clh_send demo_handle 3 1 7 demo_buffer = Inr (h1, n)"
    using demo_sent by blast
  then obtain h2 m where take: "user_step demo_handle (Taking ?c) = Inr (h2, Filling ?c m)"
    by (auto simp: run_call_send [symmetric] run_call_def res_simps split: prod.splits)
  let ?s' = "?s\<lparr>cs_handle := h2, cs_users := (cs_users ?s)(0 := Filling ?c m)\<rparr>"
  have "conc_step demo_ucp (User_Thread 0) ?s ?s'"
    by (rule conc_step.user) (use take in \<open>simp add: conc_start_def\<close>)
  with step have "conc_reach demo_ucp (conc_start demo_handle) ?s'"
    using conc_reach_step [OF conc_reach_step [OF rtranclp.rtrancl_refl step]] by blast
  then show ?thesis by (intro exI [of _ ?s']) (simp add: conc_start_def)
qed

text \<open>A message on channel 3, a queued receive for it that came from a probe.\<close>

lemma demo_race:
  "\<exists>h r q d n. handle_inv h \<and> r \<in> set (queued h CLH_REQUEST_TYPE_RECV) \<and> req_at h r = Some q \<and>
     req_data q = Recv_Data d \<and> req_channel q = 3 \<and> recv_match h q = Some n \<and>
     probe_match (h :: unit clh_handle) 3 (clh_encode_tag 3 1 7) 0xFFFFFFFFFFFFFFFF = Some n"
proof -
  obtain h :: "unit clh_handle" and n where h: "handle_inv h" "received h 3 = [n]" "msg_at h n = demo_message"
    using demo_received by blast
  have any: "tag_matches t 0 0" for t by (simp add: tag_matches_def)
  have match: "probe_match h 3 0 0 = Some n" using h(2) any by (simp add: probe_match_def)
  from probe_spec [OF h(1), of 3 0 0 False] match obtain h1 r q where
    pr: "probed h r (probe_hit False 0 0 (msg_at h n) q) h1" and
    rc: "\<forall>j < CLH_MAX_CHANNELS. received h1 j = received h j"
    by (auto simp: channel_ok_def)
  let ?q = "probe_hit False 0 0 (msg_at h n) q"
  have h1: "handle_inv h1" "user_holds h1 r" "req_at h1 r = Some ?q" "msg_at h1 = msg_at h"
    using pr by (auto simp: probed_def msg_at_def fun_eq_iff)
  have hit: "req_type ?q = CLH_REQUEST_TYPE_PROBE" "req_channel ?q = 3"
    "req_data ?q = Probe_Data ((probe_data False 0 0)\<lparr>probe_result := True,
       probe_sender_tag := Some (msg_full_tag demo_message),
       probe_buffer_len := Some (msg_buffer_len demo_message), probe_msg := msg_msg demo_message\<rparr>)"
    using h(3) by (simp_all add: probe_hit_def probe_miss_def)
  from request_recv_spec [OF h1(1,2,3) hit(1,3), of "msg_full_tag demo_message" demo_buffer]
  obtain h2 where run: "clh_request_recv h1 r demo_buffer = Inr (h2, r)" and
    h2: "handle_inv h2" "queued h2 = (queued h1)(CLH_REQUEST_TYPE_RECV := queued h1 CLH_REQUEST_TYPE_RECV @ [r])"
      "received h2 = received h1" and
    at: "req_at h2 = (req_at h1)(r \<mapsto> ?q\<lparr>req_completed := False,
       req_data := Recv_Data \<lparr>recv_buffer = demo_buffer, recv_tag = msg_full_tag demo_message,
         recv_tag_mask = 0xFFFFFFFFFFFFFFFF, recv_infos = None, recv_msg = 0\<rparr>\<rparr>)"
    by (auto simp: probe_data_def)
  have msgs: "msg_at h2 = msg_at h1"
    using request_recv_messages [OF run] by (simp add: msg_at_def fun_eq_iff)
  have rec: "received h2 3 = [n]" using h2(3) rc h(2) by (simp add: CLH_MAX_CHANNELS_def)
  then have "recv_match h2 (the (req_at h2 r)) = Some n" "probe_match h2 3 (clh_encode_tag 3 1 7) 0xFFFFFFFFFFFFFFFF = Some n"
    using at hit(2) h(3) h1(4) msgs any by (simp_all add: recv_match_def probe_match_def tag_matches_def)
  then show ?thesis
    using h2 at hit(2) by (intro exI [of _ h2] exI [of _ r]) auto
qed

text \<open>Another UCP, whose next message is tag 9 of process 2.\<close>

definition demo_next :: "unit ucp" where
  "demo_next = demo_ucp\<lparr>ucp_tag_probe_nb :=
     \<lambda>u t k r. (6, \<lparr>info_sender_tag = clh_encode_tag 3 2 9, info_length = 16\<rparr>, u)\<rparr>"

section \<open>Threads\<close>

text \<open>
  C13. With the worker and any number of users stopping between any two operations on shared data,
  the next step of every thread is defined: the worker meets no fault but an assertion, and that
  only when UCX reports an error; a user in a call always goes on, and may release or receive into
  a completed request that is in no other call. When all are at rest the handle is in order.
\<close>

theorem threads_safe:
  assumes "handle_inv h" and "ucp_ok U" and "conc_reach U (conc_start h) s"
  shows "outcome (\<not> ucp_reliable U) (worker_step U (cs_handle s) (cs_worker s)) (\<lambda>_. True) \<and>
     (\<forall>t. \<exists>r. user_step (cs_handle s) (cs_users s t) = Inr r) \<and>
     (\<forall>r. may_release (cs_handle s) r \<and> r \<notin> held (cs_users s) \<longrightarrow>
        (\<exists>h'. clh_request_release (cs_handle s) r = Inr h') \<and>
        (found_something (cs_handle s) r \<longrightarrow> (\<exists>h'. request_recv_fill (cs_handle s) r buffer = Inr h'))) \<and>
     (cs_worker s = Loop_Test \<and> held (cs_users s) = {} \<longrightarrow> handle_inv (cs_handle s))"
proof -
  have ok: "threads_ok U s" by (rule conc_reach_ok [OF assms])
  show ?thesis
    using worker_defined [OF ok] user_defined [OF ok] given_back_defined [OF ok] conc_rest_inv [OF ok]
    by (auto simp: held_def)
qed

theorem threads_safe_witness:
  "\<exists>s n. conc_reach demo_ucp (conc_start demo_handle) s \<and>
     cs_users s 0 = Filling (Call_Send 3 1 7 demo_buffer) n \<and>
     (\<exists>r. user_step (cs_handle s) (cs_users s 0) = Inr r)"
proof -
  obtain s n where s: "conc_reach demo_ucp (conc_start demo_handle) s"
      "cs_users s 0 = Filling (Call_Send 3 1 7 demo_buffer) n"
    using demo_taken by blast
  from threads_safe [OF demo_inv demo_ucp_ok(7) s(1)] s show ?thesis by blast
qed

text \<open>
  C14. Every request has one owner at every moment: what the worker or a call has in hand exists,
  is in no queue, in no free list and not in flight, and no two threads have the same.
\<close>

theorem threads_own:
  assumes "handle_inv h" and "ucp_ok U" and "conc_reach U (conc_start h) s"
  defines "hand \<equiv> in_hand (cs_handle s) (cs_worker s)"
  shows "(\<forall>a \<in> set hand \<union> held (cs_users s). req_at (cs_handle s) a \<noteq> None \<and>
        a \<notin> tracked (cs_handle s) \<and>
        (\<forall>ty. a \<notin> set (queued (cs_handle s) ty) \<and> a \<notin> set (released (cs_handle s) ty))) \<and>
     distinct hand \<and> set hand \<inter> held (cs_users s) = {} \<and>
     (\<forall>t u. t \<noteq> u \<longrightarrow> held_by (cs_users s t) \<inter> held_by (cs_users s u) = {})"
  unfolding hand_def by (rule owners_disjoint [OF conc_reach_ok [OF assms(1-3)]])

theorem threads_own_witness:
  "\<exists>s n. conc_reach demo_ucp (conc_start demo_handle) s \<and> n \<in> held_by (cs_users s 0) \<and>
     n \<notin> tracked (cs_handle s)"
proof -
  obtain s n where s: "conc_reach demo_ucp (conc_start demo_handle) s"
      "cs_users s 0 = Filling (Call_Send 3 1 7 demo_buffer) n"
    using demo_taken by blast
  then have "n \<in> held_by (cs_users s 0)" by simp
  moreover from this have "n \<in> held (cs_users s)" by (auto simp: held_def)
  ultimately show ?thesis using threads_own [OF demo_inv demo_ucp_ok(7) s(1)] s(1) by blast
qed

text \<open>
  C15. No step of any thread loses a posted request: it stays queued, in flight or in the hand of
  the worker until it is completed.
\<close>

theorem threads_lose_nothing:
  assumes "handle_inv h" and "ucp_ok U" and "conc_reach U (conc_start h) s"
    and "conc_step U a s s'" and "r \<in> charge s"
  shows "r \<in> charge s' \<or> completed_in (cs_handle s') r"
  using conc_step_keeps [OF conc_reach_ok [OF assms(1-3)] assms(4)] assms(5)
  by (simp add: conc_keeps_def)

theorem threads_lose_nothing_witness:
  "\<exists>h n s'. n \<in> charge (conc_start h) \<and> conc_step demo_ucp Worker_Thread (conc_start h) s' \<and>
     cs_worker s' = Probing \<and> (n \<in> charge s' \<or> completed_in (cs_handle s') n)"
proof -
  obtain h :: "unit clh_handle" and n where h: "handle_inv h" "n \<in> tracked h" "queues_fit h"
    using demo_sent by blast
  let ?s = "(conc_start h)\<lparr>cs_handle := h, cs_worker := Probing\<rparr>"
  have n: "n \<in> charge (conc_start h)" using h(2) by (simp add: charge_def conc_start_def)
  have "\<not> queues_empty h" using queues_empty_untracked h by auto
  then have step: "conc_step demo_ucp Worker_Thread (conc_start h) ?s"
    by (intro conc_step.worker) (simp add: conc_start_def)
  from threads_lose_nothing [OF h(1) demo_ucp_ok(7) rtranclp.rtrancl_refl step n] n step
  show ?thesis by (intro exI [of _ h] exI [of _ n] exI [of _ ?s]) simp
qed

text \<open>
  C16. While a call has a request in hand, nobody else touches it: no step of the worker, of the
  network or of another user changes it or takes it away.
\<close>

theorem threads_hands_off:
  assumes "handle_inv h" and "ucp_ok U" and "conc_reach U (conc_start h) s"
    and "conc_step U a s s'" and "a \<noteq> User_Thread t" and "r \<in> held_by (cs_users s t)"
  shows "r \<in> held_by (cs_users s' t) \<and> req_at (cs_handle s') r = req_at (cs_handle s) r"
  using conc_step_hands_off [OF conc_reach_ok [OF assms(1-3)] assms(4-6)] assms(6) by simp

theorem threads_hands_off_witness:
  "\<exists>s n s'. n \<in> held_by (cs_users s 0) \<and> conc_step demo_ucp Worker_Thread s s' \<and>
     n \<in> held_by (cs_users s' 0) \<and> req_at (cs_handle s') n = req_at (cs_handle s) n"
proof -
  obtain s n where s: "conc_reach demo_ucp (conc_start demo_handle) s"
      "cs_users s 0 = Filling (Call_Send 3 1 7 demo_buffer) n" "cs_worker s = Loop_Test"
    using demo_taken by blast
  obtain s' where step: "conc_step demo_ucp Worker_Thread s s'"
    using conc_step.worker [of demo_ucp s] s(3) by auto
  have n: "n \<in> held_by (cs_users s 0)" using s(2) by simp
  from threads_hands_off [OF demo_inv demo_ucp_ok(7) s(1) step _ n] step n show ?thesis by blast
qed



text \<open>
  C18. However the threads are interleaved, the sends in flight are counted exactly by
  \<open>send_count\<close>, and there are never more than \<open>CONF_SEND_THRESH\<close> of them.
\<close>

theorem threads_throttle:
  assumes "handle_inv h" and "ucp_ok U" and "conc_reach U (conc_start h) s"
  shows "unat (h_send_count (cs_handle s)) =
       sends_of (h_requests (cs_handle s)) (inflight (cs_handle s)) \<and>
     sends_of (h_requests (cs_handle s)) (inflight (cs_handle s)) \<le> CONF_SEND_THRESH"
proof -
  have "threads_ok U s" by (rule conc_reach_ok [OF assms])
  then have "conc_rep (cs_handle s) (in_hand (cs_handle s) (cs_worker s)) (held (cs_users s))
      (queued (cs_handle s)) (released (cs_handle s))" by (simp add: shared_inv_def)
  from send_count_word [OF this] show ?thesis by simp
qed

theorem threads_throttle_witness:
  "\<exists>s n. conc_reach demo_ucp (conc_start demo_handle) s \<and> n \<in> held_by (cs_users s 0) \<and>
     unat (h_send_count (cs_handle s)) \<le> CONF_SEND_THRESH"
proof -
  obtain s n where s: "conc_reach demo_ucp (conc_start demo_handle) s"
      "cs_users s 0 = Filling (Call_Send 3 1 7 demo_buffer) n"
    using demo_taken by blast
  then have "n \<in> held_by (cs_users s 0)" by simp
  then show ?thesis using threads_throttle [OF demo_inv demo_ucp_ok(7) s(1)] s(1) by metis
qed



text \<open>
  C20. Not so a send: the worker takes the newest first, so from every state in which a request
  is in the queue of sends there is an infinite run in which the worker comes back to the test of
  its loop again and again, no error occurs, the queue never holds more than one request more than
  at the start, and yet the request stays in it for ever. One user is enough, who posts a send when
  the worker is about to reach the request. UCX may be one that completes everything at once.
\<close>

theorem send_starves:
  assumes "handle_inv h" and "ucp_ok U" and "ucp_reliable U" and "h_run h"
    and "call_ok h (Call_Send channel dest tag buffer)"
    and r: "r \<in> set (queued h CLH_REQUEST_TYPE_SEND)"
  shows "\<exists>who run. conc_run U who run \<and> run 0 = conc_start h \<and>
     (\<forall>i. \<exists>j \<ge> i. who j = Worker_Thread) \<and> (\<forall>i. \<exists>j \<ge> i. cs_worker (run j) = Loop_Test) \<and>
     (\<forall>i. r \<in> set (queued (cs_handle (run i)) CLH_REQUEST_TYPE_SEND) \<and>
        \<not> completed_in (cs_handle (run i)) r \<and>
        length (queued (cs_handle (run i)) CLH_REQUEST_TYPE_SEND)
          \<le> Suc (length (queued h CLH_REQUEST_TYPE_SEND)))"
proof -
  let ?c = "Call_Send channel dest tag buffer"
  let ?run = "\<lambda>i. (flood_step U ?c r ^^ i) (conc_start h)"
  from r obtain xs ys where q: "queued h CLH_REQUEST_TYPE_SEND = xs @ r # ys" by (meson split_list)
  note flood = flood_run [OF assms(1-5) _ q]
  have "r \<in> set (queued (cs_handle (?run i)) CLH_REQUEST_TYPE_SEND) \<and>
      length (queued (cs_handle (?run i)) CLH_REQUEST_TYPE_SEND)
        \<le> Suc (length (queued h CLH_REQUEST_TYPE_SEND))" for i
    using flood(4) [of i] by (auto simp: q)
  then show ?thesis
    using flood(1-3) flood(5) by (intro exI [of _ "\<lambda>i. flood_turn r (?run i)"] exI [of _ ?run]) simp
qed

theorem send_starves_witness:
  "\<exists>h n who run. clh_send demo_handle 3 1 7 demo_buffer = Inr (h, n) \<and>
     conc_run demo_ucp who run \<and> run 0 = conc_start h \<and> (\<forall>i. \<exists>j \<ge> i. who j = Worker_Thread) \<and>
     (\<forall>i. \<not> completed_in (cs_handle (run i)) n)"
proof -
  obtain h n where h: "clh_send demo_handle 3 1 7 demo_buffer = Inr (h, n)" "handle_inv h"
      "queued h CLH_REQUEST_TYPE_SEND = [n]" "same_setup demo_handle h"
    using demo_sent by blast
  then have "h_endpoints h = [None, Some 7]" "h_run h"
    by (simp_all add: same_setup_def) (simp add: demo_handle_defs)
  then have "call_ok h (Call_Send 3 1 7 demo_buffer)" by (simp add: channel_ok_def)
  from send_starves [OF h(2) demo_ucp_ok(7,3) \<open>h_run h\<close> this, of n] h(1,3) show ?thesis
    by (metis list.set_intros(1))
qed



section \<open>A probe next to the worker\<close>

text \<open>
  C22. A probe with \<open>remove\<close> and a queued receive are after the same message. If the worker matches
  the receive after the probe has searched the list and before it removes what it found, the
  message is removed twice, and the second removal violates an assertion of the list.
\<close>

theorem probe_removes_twice:
  assumes "handle_inv h0" and "channel_ok channel"
    and "r \<in> set (queued h0 CLH_REQUEST_TYPE_RECV)" "req_at h0 r = Some q"
    and "req_data q = Recv_Data d" "req_channel q = channel"
    and "recv_match h0 q = Some n" "probe_match h0 channel tag tag_mask = Some n"
  shows "\<exists>h request h1. probe_begin h0 channel tag tag_mask True = Inr (h, request, Some n) \<and>
     match_received h r = Inr h1 \<and>
     probe_rest h1 request channel (probe_data True tag tag_mask) n = Inl Assert_Failed"
  using assms by (rule probe_race_twice)

theorem probe_removes_twice_witness:
  "\<exists>(h0 :: unit clh_handle) r n h request h1. handle_inv h0 \<and>
     probe_begin h0 3 (clh_encode_tag 3 1 7) 0xFFFFFFFFFFFFFFFF True = Inr (h, request, Some n) \<and>
     match_received h r = Inr h1 \<and>
     probe_rest h1 request 3 (probe_data True (clh_encode_tag 3 1 7) 0xFFFFFFFFFFFFFFFF) n =
       Inl Assert_Failed"
proof -
  obtain h0 :: "unit clh_handle" and r q d n where h0: "handle_inv h0"
      "r \<in> set (queued h0 CLH_REQUEST_TYPE_RECV)" "req_at h0 r = Some q" "req_data q = Recv_Data d"
      "req_channel q = 3" "recv_match h0 q = Some n"
      "probe_match h0 3 (clh_encode_tag 3 1 7) 0xFFFFFFFFFFFFFFFF = Some n"
    using demo_race by blast
  have "channel_ok 3" by (simp add: channel_ok_def)
  from probe_removes_twice [OF h0(1) this h0(2-7)] h0(1) show ?thesis by blast
qed

text \<open>
  C23. The same with a probe that does not remove: when the worker, having taken the message, stores
  the next one of the channel in the node, the probe reports that other message as found, though
  nobody compared it with the pattern.
\<close>

theorem probe_reports_other:
  assumes "handle_inv h0" and "channel_ok channel"
    and "r \<in> set (queued h0 CLH_REQUEST_TYPE_RECV)" "req_at h0 r = Some q"
    and "req_data q = Recv_Data d" "req_channel q = channel"
    and "recv_match h0 q = Some n" "probe_match h0 channel tag tag_mask = Some n"
    and "ucp_tag_probe_nb U (h_world h0) 0 0 True = (g, infos, u')" "g \<noteq> 0"
      "msg_channel (message_of g infos) = channel"
  shows "\<exists>h request h1 h2 h3. probe_begin h0 channel tag tag_mask False = Inr (h, request, Some n) \<and>
     match_received h r = Inr h1 \<and> probe_incomming_messages U h1 = Inr h2 \<and>
     probe_rest h2 request channel (probe_data False tag tag_mask) n = Inr h3 \<and>
     clh_probe_result h3 request = Inr True \<and>
     clh_request_source h3 request = Inr (msg_sender_id (message_of g infos)) \<and>
     clh_request_tag h3 request = Inr (msg_sender_tag (message_of g infos))"
  using assms by (rule probe_race_other)

text \<open>The probe asks for tag 7 of process 1 and is told of tag 9 of process 2.\<close>

theorem probe_reports_other_witness:
  "\<exists>(h0 :: unit clh_handle) r n h request h1 h2 h3.
     probe_begin h0 3 (clh_encode_tag 3 1 7) 0xFFFFFFFFFFFFFFFF False = Inr (h, request, Some n) \<and>
     match_received h r = Inr h1 \<and> probe_incomming_messages demo_next h1 = Inr h2 \<and>
     probe_rest h2 request 3 (probe_data False (clh_encode_tag 3 1 7) 0xFFFFFFFFFFFFFFFF) n = Inr h3 \<and>
     clh_probe_result h3 request = Inr True \<and> clh_request_source h3 request = Inr 2 \<and>
     clh_request_tag h3 request = Inr 9"
proof -
  let ?infos = "\<lparr>info_sender_tag = clh_encode_tag 3 2 9, info_length = 16\<rparr>"
  obtain h0 :: "unit clh_handle" and r q d n where h0: "handle_inv h0"
      "r \<in> set (queued h0 CLH_REQUEST_TYPE_RECV)" "req_at h0 r = Some q" "req_data q = Recv_Data d"
      "req_channel q = 3" "recv_match h0 q = Some n"
      "probe_match h0 3 (clh_encode_tag 3 1 7) 0xFFFFFFFFFFFFFFFF = Some n"
    using demo_race by blast
  have chan: "channel_ok 3" by (simp add: channel_ok_def)
  have m: "msg_channel (message_of 6 ?infos) = 3" "msg_sender_id (message_of 6 ?infos) = 2"
    "msg_sender_tag (message_of 6 ?infos) = 9"
    by (simp_all add: message_of_def channel_ok_def sender_ok_def)
  have fetch: "ucp_tag_probe_nb demo_next (h_world h0) 0 0 True = (6, ?infos, h_world h0)"
    by (simp add: demo_next_def)
  have "(6 :: ucp_tag_message_h) \<noteq> 0" by simp
  from probe_reports_other [OF h0(1) chan h0(2-7) fetch this m(1)] show ?thesis unfolding m by blast
qed

section \<open>Other configurations\<close>

text \<open>
  C24. Without \<open>CONF_SEND_THRESH\<close> the send queue is a queue: every send is posted, in the order in
  which the sends were called, and the queue is empty afterwards, unless UCX reports an error.
\<close>

theorem send_all_in_order:
  assumes inv: "handle_inv h" and U: "posts_requests U"
  shows "outcome (\<not> ucp_reliable U) (process_send_queue_all U h) (\<lambda>(h', status).
     if status = CLH_STATUS_SUCCESS then
       (\<exists>ops. inflight h' = inflight h @ ops \<and> map op_request ops = queued h CLH_REQUEST_TYPE_SEND) \<and>
       queued h' = (queued h)(CLH_REQUEST_TYPE_SEND := []) \<and> released h' = released h
     else \<not> ucp_reliable U)"
proof -
  note reqs = handle_inv_reqs [OF inv]
  have "outcome (\<not> ucp_reliable U) (process_send_queue_all U h) (\<lambda>(h', st).
     if st = CLH_STATUS_SUCCESS then
       (\<exists>ops. inflight h' = inflight h @ ops \<and> map op_request ops = queued h CLH_REQUEST_TYPE_SEND) \<and>
       pool_inv UNIV (h_requests h') (h_request_queues h')
         ((queued h)(CLH_REQUEST_TYPE_SEND := [])) (released h) \<and>
       h_send_count h' = h_send_count h
     else \<not> ucp_reliable U)"
    using reqs inv U
    by (intro process_send_queue_all_outcome) (auto simp: reqs_ok_def ops_ok_def handle_inv_def handle_rep_def)
  then show ?thesis
    by (rule outcome_mono)
      (auto simp: queued_def released_def fun_eq_iff pool_nodes split: if_splits)
qed

theorem send_all_in_order_witness:
  "\<exists>h n h' status ops. queued h CLH_REQUEST_TYPE_SEND = [n] \<and>
     process_send_queue_all demo_ucp h = Inr (h', status) \<and>
     inflight h' = inflight h @ ops \<and> map op_request ops = [n]"
proof -
  obtain h :: "unit clh_handle" and n where h: "handle_inv h" "queued h CLH_REQUEST_TYPE_SEND = [n]"
    using demo_sent by blast
  from send_all_in_order [OF h(1) demo_ucp_ok(1)] h(2) obtain h' ops where
    "process_send_queue_all demo_ucp h = Inr (h', CLH_STATUS_SUCCESS)"
    "inflight h' = inflight h @ ops" "map op_request ops = [n]"
    by (fastforce simp: outcome_False split: if_splits)
  with h(2) show ?thesis by (intro exI [of _ h] exI [of _ n] exI) (intro conjI)
qed

text \<open>
  Without \<open>CONF_PROGRESS_COUNT\<close> the progress loop ends if every progress UCX reports leaves
  less to do, with the result of the bounded loop for any bound above the work there is.
\<close>

theorem progress_loop_ends:
  assumes "progress_decreases U work" and "work (h_world h) < k"
  shows "worker_progress_all U h n = Some (worker_progress_loop k U h n)"
  using assms by (rule worker_progress_all_ends)

theorem progress_loop_ends_witness:
  "worker_progress_all (demo_ucp_in\<lparr>ucp_worker_progress := \<lambda>u. if u = 0 then (0, 0) else (2, u - 1)\<rparr>)
     (demo_handle_in (3 :: nat)) 0 = Some (demo_handle_in 0, 6)"
proof -
  let ?U = "(demo_ucp_in :: nat ucp)\<lparr>ucp_worker_progress := \<lambda>u. if u = 0 then (0, 0) else (2, u - 1)\<rparr>"
  have "progress_decreases ?U id" by (simp add: progress_decreases_def)
  from progress_loop_ends [OF this, of "demo_handle_in 3" 4 0]
  have "worker_progress_all ?U (demo_handle_in 3) 0 = Some (worker_progress_loop 4 ?U (demo_handle_in 3) 0)"
    by (simp add: demo_handle_in_def)
  then show ?thesis by (simp add: demo_handle_in_def numeral_eq_Suc)
qed

text \<open>
  C25. Without the node allocator, whatever was registered and unregistered since the cache was
  created, as many nodes are allocated as buffers are registered. Destroying the cache unmaps the
  handle of every buffer registered at that moment exactly once, and no other, and frees every
  node, if no unmapping fails. With the allocator the handles of unregistered buffers are unmapped
  again.
\<close>

theorem destroy_tree_unmaps:
  assumes "malloc_ok malloc"
    and "run_registry (malloc_get malloc U) (malloc_drop U) (malloc_cache_create capacity) u0 ops =
      Inr ((C, live), u, answers)"
    and "\<And>u m. fst (ucp_mem_unmap U u m) = UCS_OK"
  shows "length live = card (dom (malloc_map (C, live))) \<and>
     (\<exists>ks. distinct ks \<and> set ks = dom (malloc_map (C, live)) \<and>
        clh_buffer_cache_destroy_tree U (C, live) u =
          Inr (Map.empty, fold (\<lambda>m u. snd (ucp_mem_unmap U u m))
            (map (the \<circ> malloc_map (C, live)) ks) u, True))"
proof -
  have "malloc_inv (C, live)"
    using exact_registry.run_on_map [OF malloc_registry [OF assms(1), of U] malloc_create(1), of capacity u0 ops]
      assms(2) by (auto split: sum.splits)
  then show ?thesis using malloc_inv_live destroy_tree_spec [OF _ assms(3)] by blast
qed

text \<open>Two buffers are registered, one of them is unregistered before the end.\<close>

definition demo_calls :: "(mem_addr, clh_u64) registry_op list" where
  "demo_calls = [Get 64 16, Get 128 8, Drop 64 16]"

lemma demo_calls_on_map:
  "bc.on_map demo_ucp Map.empty () demo_calls =
     Inr ([128 \<mapsto> 129], (), [Handle 65, Handle 129, Dropped True])"
  by (simp add: demo_calls_def map_memory_def unmap_memory_def demo_ucp_defs check_ucx_def fun_upd_twist)

theorem destroy_tree_unmaps_witness:
  "\<exists>C live ks. run_registry (malloc_get next_address demo_ucp) (malloc_drop demo_ucp)
       (malloc_cache_create 8) () demo_calls =
         Inr ((C, live), (), [Handle 65, Handle 129, Dropped True]) \<and>
     length live = 1 \<and> set ks = {128 :: mem_addr} \<and>
     clh_buffer_cache_destroy_tree demo_ucp (C, live) () =
       Inr (Map.empty, fold (\<lambda>m u. snd (ucp_mem_unmap demo_ucp u m)) (map (the \<circ> [128 \<mapsto> 129 :: ucp_mem_h]) ks) (), True)"
proof -
  from exact_registry.run_on_map [OF malloc_registry [OF next_address_ok] malloc_create(1),
      of demo_ucp 8 "()" demo_calls]
  obtain C live where C: "run_registry (malloc_get next_address demo_ucp) (malloc_drop demo_ucp)
       (malloc_cache_create 8) () demo_calls = Inr ((C, live), (), [Handle 65, Handle 129, Dropped True])"
      "malloc_map (C, live) = [128 \<mapsto> 129]"
    by (auto simp: malloc_create(2) demo_calls_on_map)
  have "fst (ucp_mem_unmap demo_ucp u m) = UCS_OK" for u m by (simp add: demo_ucp_defs)
  from destroy_tree_unmaps [OF next_address_ok C(1) this] C show ?thesis by auto
qed

text \<open>
  C26. The two configurations of the cache cannot be told apart by their answers: after every series
  of registrations and removals, of null pointers too, and with any results of UCP, the handles
  returned, the state of UCP, the buffers registered, and an assertion that fails are the same with
  the node allocator and without it, whatever free addresses \<open>malloc\<close> chooses.
\<close>

theorem caches_agree:
  assumes "malloc_ok malloc"
  shows "ebind (run_registry (cache_get U) (cache_drop U) (clh_buffer_cache_create capacity) u ops)
       (\<lambda>(C, u, answers). Inr (cache_map C, u, answers)) =
     ebind (run_registry (malloc_get malloc U) (malloc_drop U) (malloc_cache_create capacity) u ops)
       (\<lambda>(S, u, answers). Inr (malloc_map S, u, answers))"
  by (rule caches_same_answers [OF assms create_inv malloc_create(1)])
    (simp add: create_map malloc_create(2))

theorem caches_agree_witness:
  "ebind (run_registry (malloc_get next_address demo_ucp) (malloc_drop demo_ucp)
       (malloc_cache_create 8) () demo_calls) (\<lambda>(S, u, answers). Inr (malloc_map S, u, answers)) =
     Inr ([128 \<mapsto> 129], (), [Handle 65, Handle 129, Dropped True])"
  using caches_agree [OF next_address_ok, of demo_ucp 8 "()" demo_calls]
    bc.run_on_map [OF create_inv, of demo_ucp 8 "()" demo_calls]
  by (auto simp: create_map demo_calls_on_map)

end
