(* ===== verification/Spec2Isabelle.thy ===== *)
theory Spec2Isabelle
  imports Clh_Components Clh_Threads
begin

text \<open>
  clh, a library that lets the processes of a parallel program send tagged messages to each other
  over UCX and find each other over PMIx: its code in src/clh, as definitions that follow the C
  functions statement by statement, and the theorems that make it correct.

  The program. A handle (clh.h) owns three queues of requests (send, receive, probe), the
  operations that were posted to UCX, a list of received messages for each of 256 channels, the
  endpoints to the other processes and a cache of registered memory. The user's thread posts
  requests and probes the received messages; one worker thread probes UCX for messages, posts the
  queued requests, drives UCX and completes requests; \<open>clh_wait\<close> sleeps until the worker has
  completed a request. A request is a node of a list: it moves between a free list, a queue, the
  operations in flight and the user's hands.

  The theories, from the data up.
  \<^item> Clh\_Prelude: words, the faults a C function can end in, the mutex word and the lock
    regions (thread.c) within one thread. A computation that may fault has the type \<open>'a res\<close>.
  \<^item> Clh\_Interfaces: the contracts as locales: a queue of nodes, a registry, one with removal and
    one whose answers depend on the map alone, a codec, systems with an invariant and with obligations, threads that do not interfere. Each is
    interpreted on the code's own definitions, in Clh\_List\_Props (\<open>lq\<close>), Clh\_Cache\_Props (\<open>bc\<close>),
    Clh\_Protocol (\<open>tag\<close>), Clh\_System (\<open>sys\<close>, \<open>wk\<close>), Clh\_Conc\_Props (\<open>thr\<close>) and Clh\_Wait (\<open>wt\<close>,
    \<open>wt1\<close>, \<open>st\<close>).
  \<^item> Clh\_Protocol (protocol.c): the 64-bit tags and what their masks match.
  \<^item> Clh\_List, Clh\_List\_Props (list.c, mem.c): the doubly linked lists with their free lists,
    pointer by pointer on a heap, and their refinement of lists of nodes; Clh\_Pool: families of
    lists in one heap.
  \<^item> Clh\_Array (array.h), Clh\_Buffer (buffer.c), Clh\_Log (log.c and the status strings).
  \<^item> Clh\_Ucp, Clh\_Pmi (pmi.c), Clh\_Ucx (ucx.c): the interface of UCP and PMIx, and the wrappers.
  \<^item> Clh\_Cache (cache.c): the search tree of registered buffers with its arena, link by link.
    Clh\_Tree: such trees, wherever their nodes come from, as maps from addresses to handles;
    Clh\_Cache\_Props: the cache with its arena refines such a map; Clh\_Cache\_Malloc: so does the
    cache whose nodes come from \<open>malloc\<close>, a configuration the sources do not select.
  \<^item> Clh\_Handle (clh.h): requests, messages, handle; Clh\_Run: the worker (\<open>run_\<close> and what it
    calls); Clh\_Api: the user operations; Clh\_Init: \<open>clh_init\<close> with \<open>start_\<close> and the warm-up,
    \<open>clh_finalize\<close> with \<open>terminate_\<close>.
  \<^item> Clh\_Invariant: what a handle contains, and the invariant \<open>handle_inv\<close>. Clh\_Run\_Props,
    Clh\_Ops\_Props, Clh\_Worker: the worker keeps it, and what one iteration and the whole loop
    do; Clh\_Api\_Props: the same for the user operations; Clh\_System: user, worker and network
    taking turns; Clh\_Delivery: the way of one message; Clh\_Init\_Props, Clh\_Warmup, Clh\_Start,
    Clh\_Stop: the life of a handle.
  \<^item> Clh\_Wait: mutexes and condition variables between threads; \<open>clh_wait\<close> against the completion
    of its request, and the hand-shake of \<open>start_\<close> with \<open>run_\<close>, in every interleaving.
  \<^item> Clh\_Conc, Clh\_Conc\_Props, Clh\_Conc\_Iter: the worker and any number of users stopping inside
    the functions, between any two operations on shared data; what each has in hand, the invariant
    next to that, that no thread interferes with another's requests, and that the steps of the
    worker add up to its iteration. Clh\_Conc\_Live: infinite runs, in which the worker always comes
    back to the test of its loop and every queued receive is completed; Clh\_Starve: one in which a
    queued send is not; Clh\_Halt: the end of the worker, once the flag is cleared and the users have
    left, with every request completed; Clh\_Join: the join of \<open>terminate_\<close> and what follows it.
    Clh\_Race: \<open>clh_probe_\<close> cut where it gives up the mutex of the messages, and
    what goes wrong there.
  \<^item> Clh\_Variants: the other code of configurations the sources do not select: the send queue
    without \<open>CONF_SEND_THRESH\<close>, the progress loop without \<open>CONF_PROGRESS_COUNT\<close>, the sleeping worker.
  \<^item> Clh\_Demo: concrete instances. The properties of the whole library (C1 to C12) are in this
    theory, those of threads, races and configurations (C13 to C26) in Clh\_Threads, those of single
    components (C27 to C40) in Clh\_Components.

  Interleaving. There are three granularities. In Clh\_System whole calls and whole iterations take
  turns (C1 to C10). In Clh\_Conc a thread can be interrupted between two operations on a list, each
  of which runs under the mutex of that list; what runs in one step besides is the access to data
  only that thread has (C13 to C21). In Clh\_Wait every access to a mutex, a condition variable or
  the flag is a step (C11, C12, C39, C40). Probes are left out of Clh\_Conc because they are not
  safe there (C22, C23): with them the matching of a receive is not one step either.

  Outside the sources. UCP and PMIx are parameters, records of functions over a state that holds
  everything outside the program. What is assumed of them is named: \<open>posts_requests\<close> (UCP is
  called with \<open>UCP_OP_ATTR_FLAG_NO_IMM_CMPL\<close>, so it never completes at once), \<open>fills_infos\<close>,
  \<open>ucp_reliable\<close> (no errors), \<open>finishes\<close> (a request asked about is complete), \<open>ucx_starts\<close>,
  \<open>ucx_closes\<close>, \<open>pmix_answers\<close>. An allocator is what the memory it returns holds; \<open>junk_ok\<close> says
  that the channel found in fresh request memory is in range, which the code relies on (C27). The
  \<open>malloc\<close> of the cache is a function that returns no node still in use.

  Bounds and fuel. Loops over lists take the number of nodes allocated so far as fuel, loops over
  the tree the number of nodes allocated, the send loop \<open>CONF_SEND_THRESH\<close>, the sweep of the
  operations their number; the lemmas show that this is enough. The loop of the worker and the
  waits take fuel as an argument, and the theorems say how much suffices. Runs of the threads need
  no fuel: they are infinite sequences of steps, in which the worker is assumed to go on. Counters,
  lengths and tags are words; the lengths of queues wrap, so \<open>queues_fit\<close> or \<open>posted_fits\<close> is
  assumed where it matters.

  Not modelled. Memory exhaustion (an allocation always succeeds); the tracer, a library outside
  the sources whose regions run their body; what is printed, beyond the text of log lines and
  status strings; \<open>clh_cancel\<close> does nothing in the source either; reads and writes that tear or are
  reordered between threads, which the code prevents by mutexes for the lists but not for the flags
  \<open>run\<close> and \<open>completed\<close>; the test program and the build files.
  Asserts are taken as enabled: with \<open>NDEBUG\<close> the calls inside them would vanish.
\<close>

section \<open>The library as a system\<close>



text \<open>
  C2. One iteration of the worker empties the receive queue, takes sends from the youngest on
  until \<open>CONF_SEND_THRESH\<close> are in flight and leaves the others in their order, touches no request
  but those it owes work on, and loses none of them: each is still queued or in flight, or is
  completed.
\<close>

theorem worker_iteration:
  assumes inv: "handle_inv h" and U: "posts_requests U" "fills_infos U"
  shows "outcome (\<not> ucp_reliable U) (run_body U h) (\<lambda>h'.
     queued h' CLH_REQUEST_TYPE_RECV = [] \<and>
     queued h' CLH_REQUEST_TYPE_SEND =
       rev (drop (CONF_SEND_THRESH - sends_of (h_requests h) (inflight h))
         (rev (queued h CLH_REQUEST_TYPE_SEND))) \<and>
     tracked h' \<subseteq> tracked h \<and> (\<forall>a. a \<notin> tracked h \<longrightarrow> req_at h' a = req_at h a) \<and>
     (\<forall>r \<in> tracked h. r \<in> tracked h' \<or> completed_in h' r))"
proof -
  have "outcome (\<not> ucp_reliable U) (run_body U h) (iterated U h)"
    by (rule run_body_outcome [OF inv]) (use U in auto)
  then show ?thesis
    by (rule outcome_mono)
      (use iterated_queues iterated_others iterated_tracked iterated_tracked_sub in blast)
qed

theorem worker_iteration_witness:
  "\<exists>h n. n \<in> tracked h \<and> queued h CLH_REQUEST_TYPE_SEND = [n] \<and>
     outcome (\<not> ucp_reliable demo_ucp) (run_body demo_ucp h) (\<lambda>h'.
     queued h' CLH_REQUEST_TYPE_RECV = [] \<and>
     queued h' CLH_REQUEST_TYPE_SEND =
       rev (drop (CONF_SEND_THRESH - sends_of (h_requests h) (inflight h))
         (rev (queued h CLH_REQUEST_TYPE_SEND))) \<and>
     tracked h' \<subseteq> tracked h \<and> (\<forall>a. a \<notin> tracked h \<longrightarrow> req_at h' a = req_at h a) \<and>
     (\<forall>r \<in> tracked h. r \<in> tracked h' \<or> completed_in h' r))"
proof -
  obtain h :: "unit clh_handle" and n where h: "handle_inv h" "n \<in> tracked h" "queued h CLH_REQUEST_TYPE_SEND = [n]"
    using demo_sent by blast
  show ?thesis
    using worker_iteration [OF h(1) demo_ucp_ok(1,2)] h(2,3) by blast
qed

text \<open>
  C3. No step of the system loses a request: one that is queued or in flight stays so until it is
  completed, whatever the user does with other requests meanwhile.
\<close>

theorem no_request_lost:
  assumes "handle_inv h" and "posts_requests U" "fills_infos U"
    and "sys_step U h e h'" and "r \<in> tracked h"
  shows "r \<in> tracked h' \<or> completed_in h' r"
  using assms by (rule sys_step_tracked)

theorem no_request_lost_witness:
  "\<exists>h n h'. n \<in> tracked h \<and> sys_step demo_ucp h Work h' \<and>
     (n \<in> tracked h' \<or> completed_in h' n)"
proof -
  obtain h :: "unit clh_handle" and n where h: "handle_inv h" "n \<in> tracked h" using demo_sent by blast
  have "outcome False (run_body demo_ucp h) (iterated demo_ucp h)"
    by (rule run_body_outcome [OF h(1)]) auto
  then obtain h' where "run_body demo_ucp h = Inr h'" by (auto simp: outcome_False)
  then have "sys_step demo_ucp h Work h'" by (rule sys_step.work)
  with no_request_lost [OF h(1) demo_ucp_ok(1,2) this h(2)] h(2) show ?thesis by blast
qed

text \<open>
  C4. A request in the hands of the user stays as it is until the user releases it or receives
  into it: the library neither changes it nor hands it out again.
\<close>

theorem user_request_stable:
  assumes "handle_inv h" and "posts_requests U" "fills_infos U"
    and "sys_step U h e h'" and "user_holds h r" and "e \<noteq> Release r" and "e \<noteq> Repost r"
  shows "user_holds h' r \<and> req_at h' r = req_at h r"
  using assms by (rule sys_step_held)

theorem user_request_stable_witness:
  "\<exists>h n h'. user_holds h n \<and> sys_step demo_ucp h Work h' \<and>
     user_holds h' n \<and> req_at h' n = req_at h n"
proof -
  obtain h n q where pr: "probed demo_handle n q h"
    using probe_spec [OF demo_inv, of 3 0 0 False] by (auto simp: channel_ok_def split: option.splits)
  then have h: "handle_inv h" "user_holds h n" by (simp_all add: probed_def)
  have "outcome False (run_body demo_ucp h) (iterated demo_ucp h)"
    by (rule run_body_outcome [OF h(1)]) auto
  then obtain h' where "run_body demo_ucp h = Inr h'" by (auto simp: outcome_False)
  then have "sys_step demo_ucp h Work h'" by (rule sys_step.work)
  with user_request_stable [OF h(1) demo_ucp_ok(1,2) this h(2)] h(2) show ?thesis by blast
qed

text \<open>
  C5. The node a send, a receive or a probe returns was owed to nobody: it was neither queued, nor
  in flight, nor in the hands of the user. A posted request is now in the worker's care, a probe
  in the user's.
\<close>

theorem handed_out_once:
  assumes inv: "handle_inv h" and step: "sys_step U h e h'" and e: "e = Post n \<or> e = Probed n"
  shows "n \<notin> tracked h \<and> \<not> user_holds h n \<and>
     (if e = Post n then n \<in> tracked h' else user_holds h' n)"
  using e
proof
  assume e: "e = Post n"
  from post_effect [OF inv step [unfolded e]] obtain ty q where
    ty: "ty = CLH_REQUEST_TYPE_SEND \<or> ty = CLH_REQUEST_TYPE_RECV" and en: "enqueued h ty n q h'"
    by blast
  then have "n \<in> set (released h ty) \<or> req_at h n = None" "n \<in> tracked h'"
    by (auto simp: enqueued_def tracked_def)
  then show ?thesis using handed_out_fresh [OF inv] e by auto
next
  assume e: "e = Probed n"
  from probe_effect [OF inv step [unfolded e]] obtain q where "probed h n q h'" by blast
  then have "n \<in> set (released h CLH_REQUEST_TYPE_PROBE) \<or> req_at h n = None" "user_holds h' n"
    by (auto simp: probed_def)
  then show ?thesis using handed_out_fresh [OF inv] e by auto
qed

theorem handed_out_once_witness:
  "\<exists>h n. sys_step demo_ucp demo_handle (Post n) h \<and> n \<notin> tracked demo_handle \<and>
     \<not> user_holds demo_handle n \<and> n \<in> tracked h"
proof -
  obtain h n where "clh_send demo_handle 3 1 7 demo_buffer = Inr (h, n)" using demo_sent by blast
  then have "sys_step demo_ucp demo_handle (Post n) h"
    by (intro sys_step.send [where channel = 3 and dest = 1]) (auto simp: channel_ok_def)
  with handed_out_once [OF demo_inv this, of n] show ?thesis by auto
qed



section \<open>The life of a handle\<close>







section \<open>Waiting\<close>



text \<open>
  C11. The same between threads, for one thread in \<open>clh_wait\<close>, in any order of the steps and with
  any spurious wake-ups before: from every reachable state the two threads take at most ten steps
  more, and when neither can go on the worker has completed the request and \<open>clh_wait\<close> has
  returned. No wake-up is lost.
\<close>

theorem wait_terminates:
  assumes "wait_step\<^sup>*\<^sup>* (wait_init 1) s" and "(program_step ^^ k) s s'"
  shows "k \<le> 10 \<and> ((\<nexists>s''. program_step s' s'') \<longrightarrow>
     ws_pc s' 0 = Returned \<and> ws_worker s' = Finished \<and> ws_completed s')"
proof -
  have inv: "wait_inv 1 s'"
    using program_run_rank [OF assms(2) wait_reach_inv [OF assms(1)]] by simp
  show ?thesis using wait_runs_end [OF assms] wait_invD(6) [OF inv] by auto
qed

theorem wait_terminates_witness:
  "\<exists>s'. program_step (wait_init 1) s' \<and> ((\<nexists>s''. program_step s' s'') \<longrightarrow>
     ws_pc s' 0 = Returned \<and> ws_worker s' = Finished \<and> ws_completed s')"
proof -
  have "clh_wait_step 0 (wait_init 1)
      (wait_go (wait_init 1) 0 \<lparr>sync_holder = Some (User 0), sync_asleep = []\<rparr> At_Test)"
    by (rule clh_wait_step.lock) (simp_all add: wait_init_def clh_request_allocate_def sync_create_def holder_lock)
  then obtain s' where step: "program_step (wait_init 1) s'" using program_step.user by blast
  have "(program_step ^^ 1) (wait_init 1) s'" using step by (simp only: relpowp_1)
  from wait_terminates [OF rtranclp.rtrancl_refl this] step show ?thesis by blast
qed

text \<open>
  C12. For any number of threads in \<open>clh_wait\<close>: at most one thread is between the lock and the
  unlock, and a thread returns only when the request is completed.
\<close>

theorem wait_sound:
  assumes "wait_step\<^sup>*\<^sup>* (wait_init n) s"
  shows "(\<forall>i < n. ws_pc s i = Returned \<longrightarrow> ws_completed s) \<and>
     (\<forall>i j. in_region (ws_pc s i) \<and> in_region (ws_pc s j) \<longrightarrow> i = j) \<and>
     (worker_in_region (ws_worker s) \<longrightarrow> (\<forall>i. \<not> in_region (ws_pc s i)))"
proof -
  have inv: "wait_inv n s" using assms by (rule wait_reach_inv)
  have "in_region (ws_pc s i) \<longleftrightarrow> sync_holder (ws_sync s) = Some (User i)" for i
    using wait_invD(1) [OF inv] by simp
  moreover have "worker_in_region (ws_worker s) \<longleftrightarrow> sync_holder (ws_sync s) = Some Worker"
    using wait_invD(2) [OF inv] by simp
  moreover have "\<forall>i < n. ws_pc s i = Returned \<longrightarrow> ws_completed s"
    using wait_invD(3) [OF inv] by blast
  ultimately show ?thesis by auto
qed

theorem wait_sound_witness:
  "ws_pc (two_waiters None [User 1] True Returned In_Wait Finished) 0 = Returned \<and>
   ws_completed (two_waiters None [User 1] True Returned In_Wait Finished)"
proof -
  let ?s = "two_waiters None [User 1] True Returned In_Wait Finished"
  have pc: "ws_pc ?s 0 = Returned" by (simp add: two_waiters_def)
  have "\<forall>i < 2. ws_pc ?s i = Returned \<longrightarrow> ws_completed ?s"
    using wait_sound [OF two_waiters_reach] by (rule conjunct1)
  then have "ws_completed ?s" using pc zero_less_numeral by blast
  with pc show ?thesis by blast
qed

end
